(* ===== verification/Prelude.thy ===== *)
theory Prelude
  imports Main "HOL-Library.Word" "HOL-Library.Monad_Syntax" "HOL-Library.Multiset"
begin

unbundle bit_operations_syntax

text \<open>
  What the theories of the development share: the names of C's integer types, the ways a call
  can fail to return, the collections that simp and auto use in the component theories, and
  lemmas on words, lists and cyclic indices.
\<close>

section \<open>Types\<close>

type_synonym u8 = "8 word"
type_synonym u16 = "16 word"
type_synonym u32 = "32 word"
type_synonym u64 = "64 word"

text \<open>A pointer is its 64-bit address; NULL is 0.\<close>

type_synonym ptr = "64 word"

abbreviation (input) NULL :: ptr where "NULL \<equiv> 0"

text \<open>The memory of a process, byte by byte.\<close>

type_synonym memory = "ptr \<Rightarrow> u8"

text \<open>The addresses of \<open>n\<close> bytes from \<open>p\<close> on.\<close>

definition bytes_at :: "nat \<Rightarrow> ptr \<Rightarrow> ptr set" where
  "bytes_at n p = (\<lambda>i. p + word_of_nat i) ` {..<n}"

text \<open>\<open>a + i\<close> for an array \<open>a\<close> of elements of \<open>n\<close> bytes.\<close>

definition element :: "nat \<Rightarrow> ptr \<Rightarrow> nat \<Rightarrow> ptr" where
  "element n a i = a + word_of_nat (n * i)"

section \<open>Ways in which a call does not return\<close>

text \<open>
  \<open>Exit_failure\<close> is \<open>exit(EXIT_FAILURE)\<close>, \<open>Aborted\<close> is \<open>abort()\<close>, and \<open>Undefined\<close> is anything after
  which C promises nothing: a failed assert, a dereferenced NULL or dangling pointer, an index
  out of range, an overflowing shift, or a loop that never ends.
\<close>

datatype stop = Exit_failure | Aborted | Undefined

definition or_undefined :: "'a option \<Rightarrow> stop + 'a" where
  "or_undefined r = (case r of None \<Rightarrow> Inl Undefined | Some x \<Rightarrow> Inr x)"

definition and_then :: "stop + 'a \<Rightarrow> ('a \<Rightarrow> stop + 'b) \<Rightarrow> stop + 'b" where
  "and_then r f = (case r of Inl e \<Rightarrow> Inl e | Inr x \<Rightarrow> f x)"

lemma or_undefined_simps [simp]:
  "or_undefined None = Inl Undefined" "or_undefined (Some x) = Inr x"
  by (simp_all add: or_undefined_def)

lemma or_undefined_eq_Inr [simp]: "or_undefined r = Inr x \<longleftrightarrow> r = Some x"
  by (simp add: or_undefined_def split: option.splits)

lemma and_then_simps [simp]:
  "and_then (Inl e) f = Inl e" "and_then (Inr x) f = f x"
  by (simp_all add: and_then_def)

lemma and_then_eq_Inr [simp]: "and_then r f = Inr y \<longleftrightarrow> (\<exists>x. r = Inr x \<and> f x = Inr y)"
  by (cases r) simp_all

section \<open>Collections\<close>

named_theorems hash_defs \<open>the statements of the hash functions\<close>
named_theorems ht_bits_simps \<open>how the fields of a hash table survive an update\<close>

section \<open>Words\<close>

lemma unat_and_low_bits: "unat (h AND (push_bit b 1 - 1)) = unat (h :: 'a :: len word) mod 2 ^ b"
proof -
  have "push_bit b 1 - 1 = (mask b :: 'a word)"
    by (simp add: mask_eq_exp_minus_1 push_bit_eq_mult)
  then have "h AND (push_bit b 1 - 1) = take_bit b h"
    by (simp only: take_bit_eq_mask)
  then show ?thesis
    by (simp only: unsigned_take_bit_eq take_bit_nat_def)
qed

lemma nat_and_low_bits: "(i :: nat) AND (push_bit b 1 - 1) = i mod 2 ^ b"
proof -
  have "push_bit b 1 - 1 = (mask b :: nat)"
    by (simp add: mask_eq_exp_minus_1 push_bit_eq_mult)
  then show ?thesis
    by (simp only: take_bit_eq_mask [symmetric] take_bit_nat_def)
qed

lemma unat_and_low_bits' [simp]: "unat (h AND (2 ^ b - 1)) = unat (h :: 'a :: len word) mod 2 ^ b"
  using unat_and_low_bits [of h b] by simp

lemma nat_and_low_bits_Suc [simp]: "(i :: nat) AND (2 ^ b - Suc 0) = i mod 2 ^ b"
  using nat_and_low_bits [of i b] by simp

lemma and_push_bit_1: "(p :: u64) AND push_bit i 1 \<noteq> 0 \<longleftrightarrow> bit p i"
  by (simp add: bit_iff_and_push_bit_not_eq_0)

lemma and_exp_eq_0: "(p :: u64) AND 2 ^ i = 0 \<longleftrightarrow> \<not> bit p i"
  using and_push_bit_1 [of p i] by auto

section \<open>Searching an interval\<close>

lemma find_SomeD: "find P xs = Some x \<Longrightarrow> P x \<and> x \<in> set xs"
  by (induction xs) (auto split: if_splits)

lemma find_NoneD: "find P xs = None \<Longrightarrow> x \<in> set xs \<Longrightarrow> \<not> P x"
  by (simp add: find_None_iff)

lemma find_rev_upt_Some:
  "find P (rev [m..<n]) = Some i \<Longrightarrow> m \<le> i \<and> i < n \<and> P i \<and> (\<forall>k. i < k \<longrightarrow> k < n \<longrightarrow> \<not> P k)"
proof (induction n)
  case (Suc n)
  then show ?case
    by (cases "m \<le> n"; cases "P n") (auto simp: less_Suc_eq)
qed simp

lemma find_upt_step:
  "find P [k..<d] = (if k < d then if P k then Some k else find P [Suc k..<d] else None)"
  by (simp add: upt_conv_Cons)

lemma find_upt_Some_iff:
  "find P [k..<d] = Some j \<longleftrightarrow> k \<le> j \<and> j < d \<and> P j \<and> (\<forall>i. k \<le> i \<longrightarrow> i < j \<longrightarrow> \<not> P i)"
proof
  assume "find P [k..<d] = Some j"
  then obtain i where i: "i < d - k" "P (k + i)" "j = k + i" "\<forall>l<i. \<not> P (k + l)"
    by (auto simp: find_Some_iff)
  have "\<not> P l" if "k \<le> l" "l < j" for l
    using i(3,4) that by (metis le_add_diff_inverse nat_add_left_cancel_less)
  with i show "k \<le> j \<and> j < d \<and> P j \<and> (\<forall>i. k \<le> i \<longrightarrow> i < j \<longrightarrow> \<not> P i)" by auto
next
  assume "k \<le> j \<and> j < d \<and> P j \<and> (\<forall>i. k \<le> i \<longrightarrow> i < j \<longrightarrow> \<not> P i)"
  then show "find P [k..<d] = Some j"
    unfolding find_Some_iff by (intro exI [of _ "j - k"]) auto
qed

lemma find_upt_None_iff: "find P [k..<d] = None \<longleftrightarrow> (\<forall>j. k \<le> j \<longrightarrow> j < d \<longrightarrow> \<not> P j)"
  by (auto simp: find_None_iff)

lemma find_upt_skip:
  assumes "k \<le> j" "\<And>i. k \<le> i \<Longrightarrow> i < j \<Longrightarrow> \<not> P i"
  shows "find P [k..<d] = find P [j..<d]"
proof (cases "find P [k..<d]")
  case None
  then have "find P [j..<d] = None" using assms(1) by (simp add: find_upt_None_iff)
  with None show ?thesis by simp
next
  case (Some i)
  with assms have "j \<le> i" by (metis find_upt_Some_iff linorder_not_less)
  with Some assms(1) have "find P [j..<d] = Some i" by (simp add: find_upt_Some_iff)
  with Some show ?thesis by simp
qed

section \<open>Cyclic indices\<close>

text \<open>\<open>dist n b i\<close> is the number of steps from \<open>b\<close> to \<open>i\<close> on a cycle of length \<open>n\<close>.\<close>

definition dist :: "nat \<Rightarrow> nat \<Rightarrow> nat \<Rightarrow> nat" where
  "dist n b i = (i + n - b) mod n"

lemma dist_less [simp]: "0 < n \<Longrightarrow> dist n b i < n"
  by (simp add: dist_def)

lemma dist_eq:
  assumes "b < n" "i < n"
  shows "dist n b i = (if b \<le> i then i - b else i + n - b)"
proof (cases "b \<le> i")
  case True
  with assms have "i + n - b = n + (i - b)" "i - b < n" by arith+
  then have "(i + n - b) mod n = i - b" by (metis mod_add_self1 mod_less)
  with True show ?thesis by (simp add: dist_def)
next
  case False
  with assms have "i + n - b < n" by arith
  with False show ?thesis by (simp add: dist_def)
qed

lemma add_mod_eq: "b < n \<Longrightarrow> k < n \<Longrightarrow> (b + k) mod n = (if b + k < n then b + k else b + k - n)"
  for n :: nat
  by (simp add: mod_if)

lemma add_dist: "b < n \<Longrightarrow> i < n \<Longrightarrow> (b + dist n b i) mod n = i"
  by (simp add: dist_eq)

lemma dist_add: "b < n \<Longrightarrow> k < n \<Longrightarrow> dist n b ((b + k) mod n) = k"
  by (auto simp: dist_eq add_mod_eq)

lemma dist_self [simp]: "b < n \<Longrightarrow> dist n b b = 0"
  by (simp add: dist_eq)

lemma dist_eq_0: "b < n \<Longrightarrow> i < n \<Longrightarrow> dist n b i = 0 \<longleftrightarrow> b = i"
  by (auto simp: dist_eq)

lemma dist_inj: "b < n \<Longrightarrow> i < n \<Longrightarrow> j < n \<Longrightarrow> dist n b i = dist n b j \<longleftrightarrow> i = j"
  by (auto simp: dist_eq)

text \<open>Seen from a point that does not lie between them, distances add up.\<close>

lemma dist_between:
  assumes "s < n" "b < n" "i < n" "dist n s b \<le> dist n s i"
  shows "dist n b i = dist n s i - dist n s b"
  using assms by (auto simp: dist_eq split: if_splits)

lemma dist_wraps:
  assumes "s < n" "b < n" "i < n" "dist n s i < dist n s b"
  shows "dist n b s \<le> dist n b i"
  using assms by (auto simp: dist_eq split: if_splits)

text \<open>Walking on from a point that is some way from \<open>s\<close>.\<close>

lemma dist_plus:
  assumes "s < n" "b < n" "dist n s b + t < n"
  shows "dist n s ((b + t) mod n) = dist n s b + t"
proof -
  have "(b + t) mod n = (s + (dist n s b + t)) mod n"
    using add_dist [OF assms(1,2)] by (metis add.assoc mod_add_left_eq)
  then show ?thesis using dist_add [OF assms(1,3)] by simp
qed

lemma add_mod_via:
  assumes "s < n" "b < n" "dist n s b \<le> k"
  shows "(s + k) mod n = (b + (k - dist n s b)) mod n"
proof -
  have "(b + (k - dist n s b)) mod n = ((s + dist n s b) mod n + (k - dist n s b)) mod n"
    using add_dist [OF assms(1,2)] by simp
  also have "\<dots> = (s + dist n s b + (k - dist n s b)) mod n" by (rule mod_add_left_eq)
  also have "\<dots> = (s + k) mod n" using assms(3) by simp
  finally show ?thesis by simp
qed

lemma add_mod_inj:
  fixes s k m n :: nat
  assumes "s < n" "k < n" "m < n"
  shows "(s + k) mod n = (s + m) mod n \<longleftrightarrow> k = m"
  using dist_add [OF assms(1,2)] dist_add [OF assms(1,3)] by metis

end
