(* ===== verification/C_Library.thy ===== *)
theory C_Library
  imports Prelude
begin

text \<open>
  The parts of the C library and of POSIX the two libraries call: printf and scanf of a decimal
  number, atoi, snprintf with its truncation, the environment, and a file system of named
  directories and files. A path is the list of the names in it; symbolic links, \<open>..\<close> and the
  removal of files are not modelled.
\<close>

section \<open>Integers\<close>

definition is_int :: "int \<Rightarrow> bool" where
  "is_int i \<longleftrightarrow> - (2 ^ 31) \<le> i \<and> i < 2 ^ 31"

definition c_int :: "int \<Rightarrow> stop + int" where
  "c_int i = (if is_int i then Inr i else Inl Undefined)"

lemma c_int_eq_Inr [simp]: "c_int i = Inr j \<longleftrightarrow> is_int i \<and> j = i"
  by (auto simp: c_int_def)

text \<open>What \<open>%d\<close> prints.\<close>

definition digit :: "nat \<Rightarrow> char" where
  "digit n = char_of (48 + n)"

definition is_digit :: "char \<Rightarrow> bool" where
  "is_digit c \<longleftrightarrow> 48 \<le> (of_char c :: nat) \<and> (of_char c :: nat) \<le> 57"

definition digit_value :: "char \<Rightarrow> nat" where
  "digit_value c = of_char c - 48"

fun digits :: "nat \<Rightarrow> string" where
  "digits n = (if n < 10 then [digit n] else digits (n div 10) @ [digit (n mod 10)])"

declare digits.simps [simp del]

definition print_int :: "int \<Rightarrow> string" where
  "print_int i = (if i < 0 then CHR ''-'' # digits (nat (- i)) else digits (nat i))"

text \<open>
  What \<open>%d\<close> of scanf and \<open>atoi\<close> read: white space, a sign, digits. None if there is no digit.
\<close>

definition is_space :: "char \<Rightarrow> bool" where
  "is_space c \<longleftrightarrow> (of_char c :: nat) = 32 \<or> 9 \<le> (of_char c :: nat) \<and> (of_char c :: nat) \<le> 13"

definition digits_value :: "string \<Rightarrow> nat" where
  "digits_value ds = foldl (\<lambda>a c. 10 * a + digit_value c) 0 ds"

definition scan_nat :: "string \<Rightarrow> int option" where
  "scan_nat s = (let ds = takeWhile is_digit s in if ds = [] then None else Some (int (digits_value ds)))"

definition scan_int :: "string \<Rightarrow> int option" where
  "scan_int s =
     (case dropWhile is_space s of
        [] \<Rightarrow> None
      | c # cs \<Rightarrow>
          if c = CHR ''-'' then map_option uminus (scan_nat cs)
          else if c = CHR ''+'' then scan_nat cs
          else scan_nat (c # cs))"

text \<open>A number that is no int has no defined result.\<close>

definition atoi :: "string \<Rightarrow> stop + int" where
  "atoi s = (case scan_int s of None \<Rightarrow> Inr 0 | Some i \<Rightarrow> c_int i)"

definition snprintf :: "nat \<Rightarrow> string \<Rightarrow> string" where
  "snprintf n s = take (n - 1) s"

lemma digit_simps: "n < 10 \<Longrightarrow> is_digit (digit n)" "n < 10 \<Longrightarrow> digit_value (digit n) = n"
  by (simp_all add: is_digit_def digit_def digit_value_def)

lemma digits_not_Nil [simp]: "digits n \<noteq> []"
  by (subst digits.simps) simp

lemma digits_are_digits: "c \<in> set (digits n) \<Longrightarrow> is_digit c"
proof (induction n rule: digits.induct)
  case (1 n)
  then show ?case
    using digit_simps(1) [of n] digit_simps(1) [of "n mod 10"]
    by (subst (asm) (2) digits.simps) (auto split: if_splits)
qed

lemma digits_value_digits: "digits_value (digits n) = n"
proof (induction n rule: digits.induct)
  case (1 n)
  show ?case
  proof (cases "n < 10")
    case True
    then show ?thesis by (subst digits.simps) (simp add: digits_value_def digit_simps)
  next
    case False
    then have "digits_value (digits n) = 10 * digits_value (digits (n div 10)) + digit_value (digit (n mod 10))"
      by (subst digits.simps) (simp add: digits_value_def)
    then show ?thesis using 1 False digit_simps(2) [of "n mod 10"] by simp
  qed
qed

lemma scan_nat_digits:
  assumes "rest = [] \<or> \<not> is_digit (hd rest)"
  shows "scan_nat (digits n @ rest) = Some (int n)"
proof -
  have "takeWhile is_digit rest = []" using assms by (cases rest) simp_all
  then have "takeWhile is_digit (digits n @ rest) = digits n"
    using digits_are_digits by simp
  then show ?thesis by (simp add: scan_nat_def digits_value_digits)
qed

lemma digit_not_sign: "is_digit c \<Longrightarrow> \<not> is_space c \<and> c \<noteq> CHR ''-'' \<and> c \<noteq> CHR ''+'' \<and> c \<noteq> CHR ''/''"
  by (auto simp: is_digit_def is_space_def)

lemma scan_print_int:
  assumes "rest = [] \<or> \<not> is_digit (hd rest)"
  shows "scan_int (print_int i @ rest) = Some i"
proof (cases "i < 0")
  case True
  then show ?thesis
    using scan_nat_digits [OF assms, of "nat (- i)"] by (simp add: scan_int_def print_int_def is_space_def)
next
  case False
  obtain c cs where ds: "digits (nat i) = c # cs" by (cases "digits (nat i)") auto
  then have "is_digit c" using digits_are_digits [of c "nat i"] by simp
  then show ?thesis
    using scan_nat_digits [OF assms, of "nat i"] False ds digit_not_sign [of c]
    by (simp add: scan_int_def print_int_def)
qed

lemma print_int_inj: "print_int i = print_int j \<Longrightarrow> i = j"
  using scan_print_int [of "[]" i] scan_print_int [of "[]" j] by simp

lemma print_int_no_slash: "CHR ''/'' \<notin> set (print_int i)"
proof -
  have "CHR ''/'' \<notin> set (digits n)" for n
    using digits_are_digits [of "CHR ''/''" n] digit_not_sign [of "CHR ''/''"] by blast
  then show ?thesis by (simp add: print_int_def)
qed

lemma length_digits: "n < 10 ^ Suc k \<Longrightarrow> length (digits n) \<le> Suc k"
proof (induction k arbitrary: n)
  case 0
  then show ?case by (subst digits.simps) simp
next
  case (Suc k)
  then have "n div 10 < 10 ^ Suc k" by (simp add: less_mult_imp_div_less mult.commute)
  with Suc.IH [of "n div 10"] show ?case by (subst digits.simps) simp
qed

lemma length_print_int: "is_int i \<Longrightarrow> length (print_int i) \<le> 11"
  using length_digits [of "nat i" 9] length_digits [of "nat (- i)" 9]
  by (cases "i < 0") (simp_all add: print_int_def is_int_def nat_less_iff)

section \<open>Files and the environment\<close>

type_synonym path = "string list"

record os =
  files :: "path \<Rightarrow> u8 list option"
  dirs :: "path set"
  denied :: "path set"
  env :: "string \<Rightarrow> string option"

fun split_slash :: "string \<Rightarrow> string list" where
  "split_slash [] = [[]]"
| "split_slash (c # s) =
     (if c = CHR ''/'' then [] # split_slash s
      else case split_slash s of [] \<Rightarrow> [[c]] | w # ws \<Rightarrow> (c # w) # ws)"

text \<open>Repeated and trailing slashes and \<open>.\<close> name nothing.\<close>

definition resolve :: "string \<Rightarrow> path" where
  "resolve s =
     (if s \<noteq> [] \<and> hd s = CHR ''/'' then [''/''] else []) @
     filter (\<lambda>w. w \<noteq> [] \<and> w \<noteq> ''.'') (split_slash s)"

text \<open>The working directory and the root exist; \<open>denied\<close> are directories without write permission.\<close>

definition is_dir :: "'a os_scheme \<Rightarrow> path \<Rightarrow> bool" where
  "is_dir w p \<longleftrightarrow> p = [] \<or> p = [''/''] \<or> p \<in> dirs w"

definition names_dir :: "string \<Rightarrow> bool" where
  "names_dir s \<longleftrightarrow> s \<noteq> [] \<and> List.last s = CHR ''/''"

definition stat_ok :: "'a os_scheme \<Rightarrow> string \<Rightarrow> bool" where
  "stat_ok w s \<longleftrightarrow> s \<noteq> [] \<and> (is_dir w (resolve s) \<or> files w (resolve s) \<noteq> None \<and> \<not> names_dir s)"

datatype errno = EEXIST | Other_errno

definition mkdir :: "string \<Rightarrow> 'a os_scheme \<Rightarrow> errno option \<times> 'a os_scheme" where
  "mkdir s w =
     (let p = resolve s in
      if s = [] then (Some Other_errno, w)
      else if is_dir w p \<or> files w p \<noteq> None then (Some EEXIST, w)
      else if is_dir w (butlast p) \<and> butlast p \<notin> denied w then (None, w\<lparr>dirs := insert p (dirs w)\<rparr>)
      else (Some Other_errno, w))"

text \<open>Whether a file can be opened for writing, which creates it.\<close>

definition can_create :: "'a os_scheme \<Rightarrow> string \<Rightarrow> bool" where
  "can_create w s \<longleftrightarrow> s \<noteq> [] \<and> \<not> names_dir s \<and> \<not> is_dir w (resolve s) \<and> is_dir w (butlast (resolve s)) \<and>
     (butlast (resolve s) \<notin> denied w \<or> files w (resolve s) \<noteq> None)"

definition text_bytes :: "string \<Rightarrow> u8 list" where
  "text_bytes s = map (\<lambda>c. word_of_nat (of_char c)) s"

definition bytes_text :: "u8 list \<Rightarrow> string" where
  "bytes_text bs = map (\<lambda>b. char_of (unat b)) bs"

text \<open>\<open>fopen\<close> for writing, one \<open>fprintf\<close> and \<open>fclose\<close>; None if the file cannot be opened.\<close>

definition write_text :: "string \<Rightarrow> string \<Rightarrow> 'a os_scheme \<Rightarrow> 'a os_scheme option" where
  "write_text name s w =
     (if can_create w name then Some (w\<lparr>files := (files w)(resolve name \<mapsto> text_bytes s)\<rparr>) else None)"

text \<open>\<open>fopen\<close> for reading; the whole content of the file, None if it cannot be opened.\<close>

definition read_text :: "string \<Rightarrow> 'a os_scheme \<Rightarrow> string option" where
  "read_text name w = (if name = [] \<or> names_dir name then None else map_option bytes_text (files w (resolve name)))"

lemma bytes_text_text_bytes [simp]: "bytes_text (text_bytes s) = s"
proof -
  have "char_of (unat (word_of_nat (of_char c) :: u8)) = c" for c
  proof -
    have "of_char c < (256 :: nat)" by simp
    then have "unat (word_of_nat (of_char c) :: u8) = of_char c"
      by (simp add: unsigned_of_nat take_bit_nat_eq_self)
    then show ?thesis by (simp only: char_of_char)
  qed
  then show ?thesis by (simp add: bytes_text_def text_bytes_def comp_def)
qed

lemma split_slash_not_Nil [simp]: "split_slash s \<noteq> []"
  by (cases s) (auto split: list.splits)

lemma split_slash_append:
  "split_slash (s @ CHR ''/'' # t) = split_slash s @ split_slash t"
  by (induction s) (auto split: list.splits)

lemma split_slash_single: "CHR ''/'' \<notin> set s \<Longrightarrow> split_slash s = [s]"
  by (induction s) auto

text \<open>A name put after a directory path and a slash is an entry of that directory.\<close>

lemma resolve_entry:
  assumes "CHR ''/'' \<notin> set n" "n \<noteq> []" "n \<noteq> ''.''" "d \<noteq> []"
  shows "resolve (d @ CHR ''/'' # n) = resolve d @ [n]"
  using assms by (simp add: resolve_def split_slash_append split_slash_single)

end
