(* ===== verification/Lookup3.thy ===== *)
theory Lookup3
  imports Prelude
begin

unbundle bit_operations_syntax

text \<open>
  The hash functions of src/src/ccan/ccan/hash (hash.c, hash.h): Bob Jenkins' lookup3. A key in
  memory is the list of its bytes, an array of integers the list of its elements; \<open>be\<close> says
  whether the machine is big-endian (HAVE_BIG_ENDIAN), \<open>addr\<close> is the address of the key, which
  selects among the reading loops. The lemmas show that mixing loses nothing, that the reading
  loops agree, and which hash agrees with which.
\<close>

section \<open>Mixing\<close>

type_synonym abc = "u32 \<times> u32 \<times> u32"

definition rot :: "u32 \<Rightarrow> nat \<Rightarrow> u32" where
  "rot x k = push_bit k x OR drop_bit (32 - k) x"

text \<open>One line of the macro \<open>mix\<close>: \<open>x -= z; x ^= rot(z,k); z += y\<close>.\<close>

definition mix_line :: "nat \<Rightarrow> u32 \<Rightarrow> u32 \<Rightarrow> u32 \<Rightarrow> u32 \<times> u32" where
  "mix_line k x y z =
     (let x = x - z; x = x XOR rot z k; z = z + y in (x, z))"

definition mix :: "abc \<Rightarrow> abc" where
  "mix = (\<lambda>(a, b, c).
     let (a, c) = mix_line 4 a b c;
         (b, a) = mix_line 6 b c a;
         (c, b) = mix_line 8 c a b;
         (a, c) = mix_line 16 a b c;
         (b, a) = mix_line 19 b c a;
         (c, b) = mix_line 4 c a b
     in (a, b, c))"

text \<open>Half a line of the macro \<open>final\<close>: \<open>x ^= y; x -= rot(y,k)\<close>.\<close>

definition final_line :: "nat \<Rightarrow> u32 \<Rightarrow> u32 \<Rightarrow> u32" where
  "final_line k x y = (let x = x XOR y in x - rot y k)"

definition final :: "abc \<Rightarrow> abc" where
  "final = (\<lambda>(a, b, c).
     let c = final_line 14 c b;
         a = final_line 11 a c;
         b = final_line 25 b a;
         c = final_line 16 c b;
         a = final_line 4 a c;
         b = final_line 14 b a;
         c = final_line 24 c b
     in (a, b, c))"

text \<open>Both macros run backwards.\<close>

definition unmix_line :: "nat \<Rightarrow> u32 \<Rightarrow> u32 \<Rightarrow> u32 \<Rightarrow> u32 \<times> u32" where
  "unmix_line k x y z =
     (let z = z - y; x = x XOR rot z k; x = x + z in (x, z))"

definition unmix :: "abc \<Rightarrow> abc" where
  "unmix = (\<lambda>(a, b, c).
     let (c, b) = unmix_line 4 c a b;
         (b, a) = unmix_line 19 b c a;
         (a, c) = unmix_line 16 a b c;
         (c, b) = unmix_line 8 c a b;
         (b, a) = unmix_line 6 b c a;
         (a, c) = unmix_line 4 a b c
     in (a, b, c))"

definition unfinal_line :: "nat \<Rightarrow> u32 \<Rightarrow> u32 \<Rightarrow> u32" where
  "unfinal_line k x y = (let x = x + rot y k in x XOR y)"

definition unfinal :: "abc \<Rightarrow> abc" where
  "unfinal = (\<lambda>(a, b, c).
     let c = unfinal_line 24 c b;
         b = unfinal_line 14 b a;
         a = unfinal_line 4 a c;
         c = unfinal_line 16 c b;
         b = unfinal_line 25 b a;
         a = unfinal_line 11 a c;
         c = unfinal_line 14 c b
     in (a, b, c))"

lemma xor_cancel_right [simp]: "(x XOR y) XOR y = (x :: 'a :: len word)"
  by (simp add: xor.assoc)

lemma unmix_line_mix_line:
  "mix_line k x y z = (x', z') \<Longrightarrow> unmix_line k x' y z' = (x, z)"
  by (auto simp: mix_line_def unmix_line_def Let_def)

lemma mix_line_unmix_line:
  "unmix_line k x y z = (x', z') \<Longrightarrow> mix_line k x' y z' = (x, z)"
  by (auto simp: mix_line_def unmix_line_def Let_def)

lemma unfinal_final_line [simp]: "unfinal_line k (final_line k x y) y = x"
  by (simp add: final_line_def unfinal_line_def Let_def)

lemma final_unfinal_line [simp]: "final_line k (unfinal_line k x y) y = x"
  by (simp add: final_line_def unfinal_line_def Let_def)

lemma unmix_mix: "unmix (mix s) = s"
proof (cases s)
  case (fields a b c)
  obtain a1 c1 where m1: "mix_line 4 a b c = (a1, c1)" by fastforce
  obtain b2 a2 where m2: "mix_line 6 b c1 a1 = (b2, a2)" by fastforce
  obtain c3 b3 where m3: "mix_line 8 c1 a2 b2 = (c3, b3)" by fastforce
  obtain a4 c4 where m4: "mix_line 16 a2 b3 c3 = (a4, c4)" by fastforce
  obtain b5 a5 where m5: "mix_line 19 b3 c4 a4 = (b5, a5)" by fastforce
  obtain c6 b6 where m6: "mix_line 4 c4 a5 b5 = (c6, b6)" by fastforce
  note ms = m1 m2 m3 m4 m5 m6
  show ?thesis
    by (simp add: fields mix_def unmix_def ms ms [THEN unmix_line_mix_line])
qed

lemma mix_unmix: "mix (unmix s) = s"
proof (cases s)
  case (fields a b c)
  obtain c6 b6 where m6: "unmix_line 4 c a b = (c6, b6)" by fastforce
  obtain b5 a5 where m5: "unmix_line 19 b6 c6 a = (b5, a5)" by fastforce
  obtain a4 c4 where m4: "unmix_line 16 a5 b5 c6 = (a4, c4)" by fastforce
  obtain c3 b3 where m3: "unmix_line 8 c4 a4 b5 = (c3, b3)" by fastforce
  obtain b2 a2 where m2: "unmix_line 6 b3 c3 a4 = (b2, a2)" by fastforce
  obtain a1 c1 where m1: "unmix_line 4 a2 b2 c3 = (a1, c1)" by fastforce
  note ms = m1 m2 m3 m4 m5 m6
  show ?thesis
    by (simp add: fields mix_def unmix_def ms ms [THEN mix_line_unmix_line])
qed

lemma unfinal_final: "unfinal (final s) = s"
  by (cases s) (simp add: final_def unfinal_def Let_def)

lemma final_unfinal: "final (unfinal s) = s"
  by (cases s) (simp add: final_def unfinal_def Let_def)

section \<open>Arrays of 32-bit values, pointers\<close>

text \<open>
  \<open>hash_u32\<close>: the loop takes three elements at a time while more than three are left; the switch
  on the number left falls through from case 3 to case 1, and case 0 skips the final mixing.
\<close>

fun hash_u32_loop :: "u32 list \<Rightarrow> abc \<Rightarrow> u32 list \<times> abc" where
  "hash_u32_loop (k0 # k1 # k2 # k3 # ks) (a, b, c) =
     hash_u32_loop (k3 # ks) (mix (a + k0, b + k1, c + k2))"
| "hash_u32_loop ks s = (ks, s)"

fun hash_u32_last :: "u32 list \<Rightarrow> abc \<Rightarrow> abc" where
  "hash_u32_last [k0, k1, k2] (a, b, c) = hash_u32_last [k0, k1] (a, b, c + k2)"
| "hash_u32_last [k0, k1] (a, b, c) = hash_u32_last [k0] (a, b + k1, c)"
| "hash_u32_last [k0] (a, b, c) = final (a + k0, b, c)"
| "hash_u32_last _ s = s"

definition hash_u32 :: "u32 list \<Rightarrow> u32 \<Rightarrow> u32" where
  "hash_u32 k initval =
     (let i = 0xdeadbeef + push_bit 2 (word_of_nat (length k)) + initval;
          (ks, s) = hash_u32_loop k (i, i, i);
          (a, b, c) = hash_u32_last ks s
      in c)"

text \<open>
  \<open>hash_pointer\<close> on a 64-bit machine: the union reads the pointer as two 32-bit words in memory
  order, so the low word comes first exactly on a little-endian machine.
\<close>

definition hash_pointer :: "bool \<Rightarrow> ptr \<Rightarrow> u32 \<Rightarrow> u32" where
  "hash_pointer be p base =
     (let lo = ucast p; hi = ucast (drop_bit 32 p)
      in hash_u32 (if be then [hi, lo] else [lo, hi]) base)"

text \<open>\<open>hash_string\<close>: char is signed, and the loop stops at the terminating NUL.\<close>

fun hash_string_loop :: "u8 list \<Rightarrow> u32 \<Rightarrow> u32" where
  "hash_string_loop [] ret = ret"
| "hash_string_loop (ch # s) ret =
     (if ch = 0 then ret else hash_string_loop s (push_bit 5 ret - ret + scast ch))"

definition hash_string :: "u8 list \<Rightarrow> u32" where
  "hash_string s = hash_string_loop s 0"

section \<open>Byte strings\<close>

text \<open>
  The memory of the key is read as bytes (\<open>k8\<close>), as aligned 16-bit or as aligned 32-bit words,
  whose value depends on the endianness of the machine. All are widened to uint32_t.
\<close>

definition k8 :: "u8 list \<Rightarrow> nat \<Rightarrow> u32" where
  "k8 k i = ucast (k ! i)"

definition ld16 :: "bool \<Rightarrow> u8 list \<Rightarrow> nat \<Rightarrow> u32" where
  "ld16 be k i =
     (if be then push_bit 8 (k8 k (2 * i)) + k8 k (2 * i + 1)
      else k8 k (2 * i) + push_bit 8 (k8 k (2 * i + 1)))"

definition ld32 :: "bool \<Rightarrow> u8 list \<Rightarrow> nat \<Rightarrow> u32" where
  "ld32 be k i =
     (if be
      then push_bit 24 (k8 k (4 * i)) + push_bit 16 (k8 k (4 * i + 1))
           + push_bit 8 (k8 k (4 * i + 2)) + k8 k (4 * i + 3)
      else k8 k (4 * i) + push_bit 8 (k8 k (4 * i + 1))
           + push_bit 16 (k8 k (4 * i + 2)) + push_bit 24 (k8 k (4 * i + 3)))"

text \<open>
  The loop that all five reading branches share: while more than 12 bytes are left, add a block
  to the state, mix, and go on 12 bytes further. \<open>add\<close> is the body's way to read the block.
\<close>

function block_loop :: "(u8 list \<Rightarrow> abc \<Rightarrow> abc) \<Rightarrow> u8 list \<Rightarrow> abc \<Rightarrow> u8 list \<times> abc" where
  "block_loop add k s =
     (if length k > 12 then block_loop add (drop 12 k) (mix (add k s)) else (k, s))"
  by pat_completeness auto
termination
  by (relation "measure (\<lambda>(add, k, s). length k)") auto

declare block_loop.simps [simp del]

definition add_block32 :: "bool \<Rightarrow> u8 list \<Rightarrow> abc \<Rightarrow> abc" where
  "add_block32 be k = (\<lambda>(a, b, c). (a + ld32 be k 0, b + ld32 be k 1, c + ld32 be k 2))"

definition add_block16 :: "bool \<Rightarrow> u8 list \<Rightarrow> abc \<Rightarrow> abc" where
  "add_block16 be k = (\<lambda>(a, b, c).
     (a + (ld16 be k 0 + push_bit 16 (ld16 be k 1)),
      b + (ld16 be k 2 + push_bit 16 (ld16 be k 3)),
      c + (ld16 be k 4 + push_bit 16 (ld16 be k 5))))"

definition add_little8 :: "u8 list \<Rightarrow> abc \<Rightarrow> abc" where
  "add_little8 k = (\<lambda>(a, b, c).
     let a = a + k8 k 0; a = a + push_bit 8 (k8 k 1);
         a = a + push_bit 16 (k8 k 2); a = a + push_bit 24 (k8 k 3);
         b = b + k8 k 4; b = b + push_bit 8 (k8 k 5);
         b = b + push_bit 16 (k8 k 6); b = b + push_bit 24 (k8 k 7);
         c = c + k8 k 8; c = c + push_bit 8 (k8 k 9);
         c = c + push_bit 16 (k8 k 10); c = c + push_bit 24 (k8 k 11)
     in (a, b, c))"

definition add_big8 :: "u8 list \<Rightarrow> abc \<Rightarrow> abc" where
  "add_big8 k = (\<lambda>(a, b, c).
     let a = a + push_bit 24 (k8 k 0); a = a + push_bit 16 (k8 k 1);
         a = a + push_bit 8 (k8 k 2); a = a + k8 k 3;
         b = b + push_bit 24 (k8 k 4); b = b + push_bit 16 (k8 k 5);
         b = b + push_bit 8 (k8 k 6); b = b + k8 k 7;
         c = c + push_bit 24 (k8 k 8); c = c + push_bit 16 (k8 k 9);
         c = c + push_bit 8 (k8 k 10); c = c + k8 k 11
     in (a, b, c))"

text \<open>
  The switch on the number of bytes left, one equation branch per case label; a branch without
  \<open>break\<close> goes on at the next label.
\<close>

fun little_last32 :: "bool \<Rightarrow> u8 list \<Rightarrow> nat \<Rightarrow> abc \<Rightarrow> abc" where
  "little_last32 be k n (a, b, c) =
     (if n = 12 then (a + ld32 be k 0, b + ld32 be k 1, c + ld32 be k 2)
      else if n = 11 then little_last32 be k 10 (a, b, c + push_bit 16 (k8 k 10))
      else if n = 10 then little_last32 be k 9 (a, b, c + push_bit 8 (k8 k 9))
      else if n = 9 then little_last32 be k 8 (a, b, c + k8 k 8)
      else if n = 8 then (a + ld32 be k 0, b + ld32 be k 1, c)
      else if n = 7 then little_last32 be k 6 (a, b + push_bit 16 (k8 k 6), c)
      else if n = 6 then little_last32 be k 5 (a, b + push_bit 8 (k8 k 5), c)
      else if n = 5 then little_last32 be k 4 (a, b + k8 k 4, c)
      else if n = 4 then (a + ld32 be k 0, b, c)
      else if n = 3 then little_last32 be k 2 (a + push_bit 16 (k8 k 2), b, c)
      else if n = 2 then little_last32 be k 1 (a + push_bit 8 (k8 k 1), b, c)
      else if n = 1 then (a + k8 k 0, b, c)
      else (a, b, c))"

fun little_last16 :: "bool \<Rightarrow> u8 list \<Rightarrow> nat \<Rightarrow> abc \<Rightarrow> abc" where
  "little_last16 be k n (a, b, c) =
     (if n = 12 then (a + (ld16 be k 0 + push_bit 16 (ld16 be k 1)), b + (ld16 be k 2 + push_bit 16 (ld16 be k 3)), c + (ld16 be k 4 + push_bit 16 (ld16 be k 5)))
      else if n = 11 then little_last16 be k 10 (a, b, c + push_bit 16 (k8 k 10))
      else if n = 10 then (a + (ld16 be k 0 + push_bit 16 (ld16 be k 1)), b + (ld16 be k 2 + push_bit 16 (ld16 be k 3)), c + ld16 be k 4)
      else if n = 9 then little_last16 be k 8 (a, b, c + k8 k 8)
      else if n = 8 then (a + (ld16 be k 0 + push_bit 16 (ld16 be k 1)), b + (ld16 be k 2 + push_bit 16 (ld16 be k 3)), c)
      else if n = 7 then little_last16 be k 6 (a, b + push_bit 16 (k8 k 6), c)
      else if n = 6 then (a + (ld16 be k 0 + push_bit 16 (ld16 be k 1)), b + ld16 be k 2, c)
      else if n = 5 then little_last16 be k 4 (a, b + k8 k 4, c)
      else if n = 4 then (a + (ld16 be k 0 + push_bit 16 (ld16 be k 1)), b, c)
      else if n = 3 then little_last16 be k 2 (a + push_bit 16 (k8 k 2), b, c)
      else if n = 2 then (a + ld16 be k 0, b, c)
      else if n = 1 then (a + k8 k 0, b, c)
      else (a, b, c))"

fun little_last8 :: "u8 list \<Rightarrow> nat \<Rightarrow> abc \<Rightarrow> abc" where
  "little_last8 k n (a, b, c) =
     (if n = 12 then little_last8 k 11 (a, b, c + push_bit 24 (k8 k 11))
      else if n = 11 then little_last8 k 10 (a, b, c + push_bit 16 (k8 k 10))
      else if n = 10 then little_last8 k 9 (a, b, c + push_bit 8 (k8 k 9))
      else if n = 9 then little_last8 k 8 (a, b, c + k8 k 8)
      else if n = 8 then little_last8 k 7 (a, b + push_bit 24 (k8 k 7), c)
      else if n = 7 then little_last8 k 6 (a, b + push_bit 16 (k8 k 6), c)
      else if n = 6 then little_last8 k 5 (a, b + push_bit 8 (k8 k 5), c)
      else if n = 5 then little_last8 k 4 (a, b + k8 k 4, c)
      else if n = 4 then little_last8 k 3 (a + push_bit 24 (k8 k 3), b, c)
      else if n = 3 then little_last8 k 2 (a + push_bit 16 (k8 k 2), b, c)
      else if n = 2 then little_last8 k 1 (a + push_bit 8 (k8 k 1), b, c)
      else if n = 1 then (a + k8 k 0, b, c)
      else (a, b, c))"

fun big_last32 :: "bool \<Rightarrow> u8 list \<Rightarrow> nat \<Rightarrow> abc \<Rightarrow> abc" where
  "big_last32 be k n (a, b, c) =
     (if n = 12 then (a + ld32 be k 0, b + ld32 be k 1, c + ld32 be k 2)
      else if n = 11 then big_last32 be k 10 (a, b, c + push_bit 8 (k8 k 10))
      else if n = 10 then big_last32 be k 9 (a, b, c + push_bit 16 (k8 k 9))
      else if n = 9 then big_last32 be k 8 (a, b, c + push_bit 24 (k8 k 8))
      else if n = 8 then (a + ld32 be k 0, b + ld32 be k 1, c)
      else if n = 7 then big_last32 be k 6 (a, b + push_bit 8 (k8 k 6), c)
      else if n = 6 then big_last32 be k 5 (a, b + push_bit 16 (k8 k 5), c)
      else if n = 5 then big_last32 be k 4 (a, b + push_bit 24 (k8 k 4), c)
      else if n = 4 then (a + ld32 be k 0, b, c)
      else if n = 3 then big_last32 be k 2 (a + push_bit 8 (k8 k 2), b, c)
      else if n = 2 then big_last32 be k 1 (a + push_bit 16 (k8 k 1), b, c)
      else if n = 1 then (a + push_bit 24 (k8 k 0), b, c)
      else (a, b, c))"

fun big_last8 :: "u8 list \<Rightarrow> nat \<Rightarrow> abc \<Rightarrow> abc" where
  "big_last8 k n (a, b, c) =
     (if n = 12 then big_last8 k 11 (a, b, c + k8 k 11)
      else if n = 11 then big_last8 k 10 (a, b, c + push_bit 8 (k8 k 10))
      else if n = 10 then big_last8 k 9 (a, b, c + push_bit 16 (k8 k 9))
      else if n = 9 then big_last8 k 8 (a, b, c + push_bit 24 (k8 k 8))
      else if n = 8 then big_last8 k 7 (a, b + k8 k 7, c)
      else if n = 7 then big_last8 k 6 (a, b + push_bit 8 (k8 k 6), c)
      else if n = 6 then big_last8 k 5 (a, b + push_bit 16 (k8 k 5), c)
      else if n = 5 then big_last8 k 4 (a, b + push_bit 24 (k8 k 4), c)
      else if n = 4 then big_last8 k 3 (a + k8 k 3, b, c)
      else if n = 3 then big_last8 k 2 (a + push_bit 8 (k8 k 2), b, c)
      else if n = 2 then big_last8 k 1 (a + push_bit 16 (k8 k 1), b, c)
      else if n = 1 then (a + push_bit 24 (k8 k 0), b, c)
      else (a, b, c))"

declare little_last32.simps [simp del] little_last16.simps [simp del] little_last8.simps [simp del]
  big_last32.simps [simp del] big_last8.simps [simp del]

text \<open>
  \<open>hashlittle\<close> and \<open>hashbig\<close> return the hash and the new contents of \<open>*val2\<close>, which an empty key
  leaves as it was.
\<close>

definition hash_start :: "u8 list \<Rightarrow> u32 \<Rightarrow> abc" where
  "hash_start key val2 =
     (let i = 0xdeadbeef + word_of_nat (length key) + val2 in (i, i, i))"

definition hash_finish :: "(u8 list \<Rightarrow> nat \<Rightarrow> abc \<Rightarrow> abc) \<Rightarrow> u8 list \<times> abc \<Rightarrow> u32 \<Rightarrow> u32 \<times> u32" where
  "hash_finish last_block = (\<lambda>(k, a, b, c) val2.
     if length k = 0 then (c, val2)
     else let (a, b, c) = final (last_block k (length k) (a, b, c)) in (c, b))"

definition hashlittle :: "bool \<Rightarrow> ptr \<Rightarrow> u8 list \<Rightarrow> u32 \<Rightarrow> u32 \<times> u32" where
  "hashlittle be addr key val2 =
     (if \<not> be \<and> addr AND 0x3 = 0
      then hash_finish (little_last32 be) (block_loop (add_block32 be) key (hash_start key val2)) val2
      else if \<not> be \<and> addr AND 0x1 = 0
      then hash_finish (little_last16 be) (block_loop (add_block16 be) key (hash_start key val2)) val2
      else hash_finish little_last8 (block_loop add_little8 key (hash_start key val2)) val2)"

definition hashbig :: "bool \<Rightarrow> ptr \<Rightarrow> u8 list \<Rightarrow> u32 \<Rightarrow> u32 \<times> u32" where
  "hashbig be addr key val2 =
     (if be \<and> addr AND 0x3 = 0
      then hash_finish (big_last32 be) (block_loop (add_block32 be) key (hash_start key val2)) val2
      else hash_finish big_last8 (block_loop add_big8 key (hash_start key val2)) val2)"

section \<open>One reading of the key for all branches\<close>

text \<open>
  The specification: the key is padded with zero bytes to full words, and a block is three words
  read at the byte offsets 0, 4 and 8, in the byte order of the hash and not of the machine.
\<close>

definition byte_at :: "u8 list \<Rightarrow> nat \<Rightarrow> u32" where
  "byte_at k i = (if i < length k then ucast (k ! i) else 0)"

definition le_word :: "u8 list \<Rightarrow> nat \<Rightarrow> u32" where
  "le_word k i = byte_at k i + push_bit 8 (byte_at k (i + 1))
     + push_bit 16 (byte_at k (i + 2)) + push_bit 24 (byte_at k (i + 3))"

definition be_word :: "u8 list \<Rightarrow> nat \<Rightarrow> u32" where
  "be_word k i = push_bit 24 (byte_at k i) + push_bit 16 (byte_at k (i + 1))
     + push_bit 8 (byte_at k (i + 2)) + byte_at k (i + 3)"

definition add_words :: "(u8 list \<Rightarrow> nat \<Rightarrow> u32) \<Rightarrow> u8 list \<Rightarrow> abc \<Rightarrow> abc" where
  "add_words wd k = (\<lambda>(a, b, c). (a + wd k 0, b + wd k 4, c + wd k 8))"

definition lookup3 :: "(u8 list \<Rightarrow> nat \<Rightarrow> u32) \<Rightarrow> u8 list \<Rightarrow> u32 \<Rightarrow> u32 \<times> u32" where
  "lookup3 wd key val2 =
     hash_finish (\<lambda>k n. add_words wd k) (block_loop (add_words wd) key (hash_start key val2)) val2"

lemma block_loop_cong:
  assumes "\<And>k s. 12 < length k \<Longrightarrow> add k s = add' k s"
  shows "block_loop add k s = block_loop add' k s"
  using assms
proof (induction add k s rule: block_loop.induct)
  case (1 add k s)
  then show ?case
    by (simp add: block_loop.simps [of add k s] block_loop.simps [of add' k s])
qed

lemma block_loop_rest: "length (fst (block_loop add k s)) \<le> 12"
proof (induction add k s rule: block_loop.induct)
  case (1 add k s)
  then show ?case by (simp add: block_loop.simps [of add k s])
qed

lemma hash_finish_cong:
  assumes "length k \<le> 12"
    and "\<And>s. 0 < length k \<Longrightarrow> f k (length k) s = g k (length k) s"
  shows "hash_finish f (k, s) v = hash_finish g (k, s) v"
  using assms by (cases s) (auto simp: hash_finish_def split: prod.splits)

lemma hash_branch_eq:
  assumes "\<And>k s. 12 < length k \<Longrightarrow> add k s = add_words wd k s"
    and "\<And>k s. 0 < length k \<Longrightarrow> length k \<le> 12 \<Longrightarrow> tail k (length k) s = add_words wd k s"
  shows "hash_finish tail (block_loop add key (hash_start key v)) v = lookup3 wd key v"
proof -
  have "block_loop add key (hash_start key v) = block_loop (add_words wd) key (hash_start key v)"
    by (rule block_loop_cong) (rule assms(1))
  moreover obtain k s where "block_loop (add_words wd) key (hash_start key v) = (k, s)"
    by (rule prod.exhaust)
  moreover from this have "length k \<le> 12"
    by (metis block_loop_rest fst_conv)
  ultimately show ?thesis
    using assms(2) by (auto simp: lookup3_def intro!: hash_finish_cong)
qed


lemma ld32_at:
  "ld32 False k 0 = k8 k 0 + push_bit 8 (k8 k 1) + push_bit 16 (k8 k 2) + push_bit 24 (k8 k 3)"
  "ld32 False k (Suc 0) = k8 k 4 + push_bit 8 (k8 k 5) + push_bit 16 (k8 k 6) + push_bit 24 (k8 k 7)"
  "ld32 False k 2 = k8 k 8 + push_bit 8 (k8 k 9) + push_bit 16 (k8 k 10) + push_bit 24 (k8 k 11)"
  "ld32 True k 0 = push_bit 24 (k8 k 0) + push_bit 16 (k8 k 1) + push_bit 8 (k8 k 2) + k8 k 3"
  "ld32 True k (Suc 0) = push_bit 24 (k8 k 4) + push_bit 16 (k8 k 5) + push_bit 8 (k8 k 6) + k8 k 7"
  "ld32 True k 2 = push_bit 24 (k8 k 8) + push_bit 16 (k8 k 9) + push_bit 8 (k8 k 10) + k8 k 11"
  by (simp_all add: ld32_def eval_nat_numeral)

lemma ld16_at:
  "ld16 False k 0 = k8 k 0 + push_bit 8 (k8 k 1)"
  "ld16 False k (Suc 0) = k8 k 2 + push_bit 8 (k8 k 3)"
  "ld16 False k 2 = k8 k 4 + push_bit 8 (k8 k 5)"
  "ld16 False k 3 = k8 k 6 + push_bit 8 (k8 k 7)"
  "ld16 False k 4 = k8 k 8 + push_bit 8 (k8 k 9)"
  "ld16 False k 5 = k8 k 10 + push_bit 8 (k8 k 11)"
  by (simp_all add: ld16_def eval_nat_numeral)

lemma le_word_at:
  "le_word k 0 = byte_at k 0 + push_bit 8 (byte_at k 1) + push_bit 16 (byte_at k 2) + push_bit 24 (byte_at k 3)"
  "le_word k 4 = byte_at k 4 + push_bit 8 (byte_at k 5) + push_bit 16 (byte_at k 6) + push_bit 24 (byte_at k 7)"
  "le_word k 8 = byte_at k 8 + push_bit 8 (byte_at k 9) + push_bit 16 (byte_at k 10) + push_bit 24 (byte_at k 11)"
  by (simp_all add: le_word_def eval_nat_numeral)

lemma be_word_at:
  "be_word k 0 = push_bit 24 (byte_at k 0) + push_bit 16 (byte_at k 1) + push_bit 8 (byte_at k 2) + byte_at k 3"
  "be_word k 4 = push_bit 24 (byte_at k 4) + push_bit 16 (byte_at k 5) + push_bit 8 (byte_at k 6) + byte_at k 7"
  "be_word k 8 = push_bit 24 (byte_at k 8) + push_bit 16 (byte_at k 9) + push_bit 8 (byte_at k 10) + byte_at k 11"
  by (simp_all add: be_word_def eval_nat_numeral)

lemma k8_eq_byte_at: "i < length k \<Longrightarrow> k8 k i = byte_at k i"
  by (simp add: k8_def byte_at_def)

lemma byte_at_end: "length k \<le> i \<Longrightarrow> byte_at k i = 0"
  by (simp add: byte_at_def)

lemmas load_eqs = ld32_at ld16_at le_word_at be_word_at add_words_def k8_eq_byte_at byte_at_end
  push_bit_add add.assoc add.commute add.left_commute

lemma add_block_words:
  assumes "12 < length k"
  shows "add_block32 False k s = add_words le_word k s"
    and "add_block16 False k s = add_words le_word k s"
    and "add_little8 k s = add_words le_word k s"
    and "add_block32 True k s = add_words be_word k s"
    and "add_big8 k s = add_words be_word k s"
proof -
  have "k \<noteq> []" using assms by auto
  note long = assms this
  show "add_block32 False k s = add_words le_word k s" "add_block32 True k s = add_words be_word k s"
    using long by (cases s, simp add: add_block32_def load_eqs)+
  show "add_block16 False k s = add_words le_word k s"
    using long by (cases s) (simp add: add_block16_def load_eqs)
  show "add_little8 k s = add_words le_word k s"
    using long by (cases s) (simp add: add_little8_def load_eqs)
  show "add_big8 k s = add_words be_word k s"
    using long by (cases s) (simp add: add_big8_def load_eqs)
qed

lemma nat_le_12_cases:
  "0 < n \<Longrightarrow> n \<le> 12 \<Longrightarrow>
     n = (12 :: nat) \<or> n = 11 \<or> n = 10 \<or> n = 9 \<or> n = 8 \<or> n = 7 \<or> n = 6 \<or> n = 5 \<or> n = 4 \<or> n = 3
     \<or> n = 2 \<or> n = 1"
  by arith

lemma little_last32_words:
  assumes "length k = n" "0 < n" "n \<le> 12"
  shows "little_last32 False k n s = add_words le_word k s"
  using nat_le_12_cases [OF assms(2,3)] assms(1)
  by (cases s) (elim disjE; simp add: little_last32.simps load_eqs)

lemma little_last16_words:
  assumes "length k = n" "0 < n" "n \<le> 12"
  shows "little_last16 False k n s = add_words le_word k s"
  using nat_le_12_cases [OF assms(2,3)] assms(1)
  by (cases s) (elim disjE; simp add: little_last16.simps load_eqs)

lemma little_last8_words:
  assumes "length k = n" "0 < n" "n \<le> 12"
  shows "little_last8 k n s = add_words le_word k s"
  using nat_le_12_cases [OF assms(2,3)] assms(1)
  by (cases s) (elim disjE; simp add: little_last8.simps load_eqs)

lemma big_last32_words:
  assumes "length k = n" "0 < n" "n \<le> 12"
  shows "big_last32 True k n s = add_words be_word k s"
  using nat_le_12_cases [OF assms(2,3)] assms(1)
  by (cases s) (elim disjE; simp add: big_last32.simps load_eqs)

lemma big_last8_words:
  assumes "length k = n" "0 < n" "n \<le> 12"
  shows "big_last8 k n s = add_words be_word k s"
  using nat_le_12_cases [OF assms(2,3)] assms(1)
  by (cases s) (elim disjE; simp add: big_last8.simps load_eqs)
lemma hashlittle_eq: "hashlittle be addr key v = lookup3 le_word key v"
  unfolding hashlittle_def
  by (auto simp: add_block_words little_last32_words little_last16_words little_last8_words intro!: hash_branch_eq)
lemma hashbig_eq: "hashbig be addr key v = lookup3 be_word key v"
  unfolding hashbig_def
  by (auto simp: add_block_words big_last32_words big_last8_words intro!: hash_branch_eq)

section \<open>Arrays of words are their bytes in machine order\<close>

definition le_bytes :: "u32 \<Rightarrow> u8 list" where
  "le_bytes w = [ucast w, ucast (drop_bit 8 w), ucast (drop_bit 16 w), ucast (drop_bit 24 w)]"

definition be_bytes :: "u32 \<Rightarrow> u8 list" where
  "be_bytes w = rev (le_bytes w)"

lemma ucast_u8_u32: "(ucast (ucast (w :: u32) :: u8) :: u32) = take_bit 8 w"
  by (rule bit_word_eqI) (auto simp: bit_simps)

lemma bytes_sum:
  "take_bit 8 (w :: u32) + push_bit 8 (take_bit 8 (drop_bit 8 w))
     + push_bit 16 (take_bit 8 (drop_bit 16 w)) + push_bit 24 (take_bit 8 (drop_bit 24 w)) = w"
proof -
  have last: "take_bit 8 (drop_bit 24 w) = drop_bit 24 w"
    by (rule bit_word_eqI) (auto simp: bit_simps dest: bit_imp_le_length)
  have step: "push_bit n (take_bit 8 (drop_bit n w)) + push_bit (n + 8) (drop_bit (n + 8) w)
      = push_bit n (drop_bit n w)" for n
    using arg_cong [OF bits_ident [of 8 "drop_bit n w"], of "push_bit n"]
    by (simp add: push_bit_add add.commute)
  have "push_bit 8 (drop_bit 8 w) = push_bit 8 (take_bit 8 (drop_bit 8 w))
      + (push_bit 16 (take_bit 8 (drop_bit 16 w)) + push_bit 24 (drop_bit 24 w))"
    using step [of 8] step [of 16] by simp
  then show ?thesis
    using bits_ident [of 8 w] by (simp add: last add.assoc add.commute add.left_commute)
qed

lemma le_word_bytes [simp]:
  "le_word (le_bytes w @ bs) 0 = w" "le_word (le_bytes w @ bs) (4 + i) = le_word bs i"
  "le_word [] i = 0" "length (le_bytes w) = 4"
  by (simp_all add: le_word_def le_bytes_def byte_at_def ucast_u8_u32 bytes_sum nth_append
      add.commute [of i])

lemma be_word_bytes [simp]:
  "be_word (be_bytes w @ bs) 0 = w" "be_word (be_bytes w @ bs) (4 + i) = be_word bs i"
  "be_word [] i = 0" "length (be_bytes w) = 4"
  using bytes_sum [of w]
  by (simp_all add: be_word_def be_bytes_def le_bytes_def byte_at_def ucast_u8_u32 nth_append
      add.commute add.left_commute)

text \<open>\<open>enc\<close> lays a word out in memory and \<open>wd\<close> reads it back.\<close>

definition reads_back :: "(u8 list \<Rightarrow> nat \<Rightarrow> u32) \<Rightarrow> (u32 \<Rightarrow> u8 list) \<Rightarrow> bool" where
  "reads_back wd enc \<longleftrightarrow>
     (\<forall>w bs i. wd (enc w @ bs) 0 = w \<and> wd (enc w @ bs) (4 + i) = wd bs i \<and>
       wd [] i = 0 \<and> length (enc w) = 4)"

lemma reads_back_le: "reads_back le_word le_bytes"
  by (simp add: reads_back_def)

lemma reads_back_be: "reads_back be_word be_bytes"
  by (simp add: reads_back_def)

lemma reads_backD:
  assumes "reads_back wd enc"
  shows "wd (enc w @ bs) 0 = w" "wd (enc w @ bs) 4 = wd bs 0" "wd (enc w @ bs) 8 = wd bs 4"
    "wd [] i = 0" "length (enc w) = 4"
  using assms
  unfolding reads_back_def by (auto dest: spec [of _ 0] spec [of _ 4] simp: numeral_eq_Suc)

lemma length_words: "reads_back wd enc \<Longrightarrow> length (concat (map enc ks)) = 4 * length ks"
  by (induction ks) (simp_all add: reads_backD)

lemma words_eq_Nil: "reads_back wd enc \<Longrightarrow> concat (map enc ks) = [] \<longleftrightarrow> ks = []"
  using length_words [of wd enc ks] by (metis length_0_conv mult_eq_0_iff zero_neq_numeral)

lemma hash_u32_loop_blocks:
  assumes rb: "reads_back wd enc"
  shows "block_loop (add_words wd) (concat (map enc ks)) s =
    (case hash_u32_loop ks s of (r, s') \<Rightarrow> (concat (map enc r), s'))"
  by (induction ks s rule: hash_u32_loop.induct)
     (simp_all add: block_loop.simps [of _ "concat _"] length_words [OF rb] reads_backD [OF rb]
        add_words_def block_loop.simps split: prod.splits)

lemma hash_u32_loop_rest: "length (fst (hash_u32_loop ks s)) \<le> 3"
  by (induction ks s rule: hash_u32_loop.induct) simp_all

lemma length_le_3:
  "length r \<le> 3 \<Longrightarrow> r = [] \<or> (\<exists>x. r = [x]) \<or> (\<exists>x y. r = [x, y]) \<or> (\<exists>x y z. r = [x, y, z])"
  by (auto simp: le_Suc_eq numeral_3_eq_3 length_Suc_conv)

lemma hash_u32_last_words:
  assumes rb: "reads_back wd enc" and "length r \<le> 3"
  shows "hash_u32_last r (a, b, c) =
    (if r = [] then (a, b, c) else final (add_words wd (concat (map enc r)) (a, b, c)))"
proof -
  have z: "wd (enc w) 0 = w" "wd (enc w) 4 = 0" "wd (enc w) 8 = 0" for w
    using reads_backD(1-3) [OF rb, of w "[]"] reads_backD(4) [OF rb] by auto
  show ?thesis
    using length_le_3 [OF assms(2)] by (elim disjE exE) (simp_all add: add_words_def reads_backD [OF rb] z)
qed

lemma hash_u32_lookup3:
  assumes rb: "reads_back wd enc"
  shows "hash_u32 ks iv = fst (lookup3 wd (concat (map enc ks)) iv)"
proof -
  have i: "push_bit 2 (word_of_nat (length ks)) = (4 :: u32) * word_of_nat (length ks)"
    by (simp add: push_bit_eq_mult)
  define i where "i = 0xdeadbeef + push_bit 2 (word_of_nat (length ks)) + iv"
  obtain r a b c where l: "hash_u32_loop ks (i, i, i) = (r, a, b, c)"
    by (metis prod.exhaust)
  have r: "length r \<le> 3" using hash_u32_loop_rest [of ks "(i, i, i)"] l by simp
  have "hash_start (concat (map enc ks)) iv = (i, i, i)"
    by (simp add: hash_start_def i_def length_words [OF rb] i Let_def)
  with l r show ?thesis
    by (auto simp: hash_u32_def lookup3_def hash_u32_loop_blocks [OF rb] hash_finish_def
        hash_u32_last_words [OF rb] length_words [OF rb] i_def [symmetric]
        simp del: length_0_conv split: prod.splits)
qed

section \<open>Stable and native hashes\<close>

definition join64 :: "u32 \<Rightarrow> u32 \<Rightarrow> u64" where
  "join64 b c = push_bit 32 (ucast b) OR ucast c"

text \<open>
  The start value is computed in uint64_t and cut to uint32_t by the assignment.
\<close>

definition stable_start :: "u32 \<Rightarrow> u64 \<Rightarrow> abc" where
  "stable_start nbytes base =
     (let i = ucast (ucast (0xdeadbeef + nbytes :: u32) + drop_bit 32 base + base :: u64)
      in (i, i, i))"

fun stable64_loop :: "u64 list \<Rightarrow> abc \<Rightarrow> u64 list \<times> abc" where
  "stable64_loop (k0 # k1 # k2 # k3 # ks) (a, b, c) =
     (let (a, b, c) = mix (a + ucast k0, b + ucast (drop_bit 32 k0), c + ucast k1)
      in stable64_loop (k3 # ks)
           (mix (a + ucast (drop_bit 32 k1), b + ucast k2, c + ucast (drop_bit 32 k2))))"
| "stable64_loop ks s = (ks, s)"

definition hash64_stable_64 :: "u64 list \<Rightarrow> u64 \<Rightarrow> u64" where
  "hash64_stable_64 key base =
     (let (k, a, b, c) = stable64_loop key (stable_start (word_of_nat (length key) * 8) base)
      in case k of
           [] \<Rightarrow> ucast c
         | [k0] \<Rightarrow>
             (let (a, b, c) = final (a + ucast k0, b + ucast (drop_bit 32 k0), c) in join64 b c)
         | [k0, k1] \<Rightarrow>
             (let (a, b, c) = mix (a + ucast k0, b + ucast (drop_bit 32 k0), c + ucast k1);
                  (a, b, c) = final (a + ucast (drop_bit 32 k1), b, c)
              in join64 b c)
         | _ \<Rightarrow> (let (a, b, c) = final (a, b, c) in join64 b c))"

definition hash64_stable_32 :: "u32 list \<Rightarrow> u64 \<Rightarrow> u64" where
  "hash64_stable_32 key base =
     (let (k, a, b, c) = hash_u32_loop key (stable_start (word_of_nat (length key) * 4) base)
      in case k of
           [] \<Rightarrow> ucast c
         | [k0] \<Rightarrow> (let (a, b, c) = final (a + k0, b, c) in join64 b c)
         | [k0, k1] \<Rightarrow> (let (a, b, c) = final (a + k0, b + k1, c) in join64 b c)
         | _ \<Rightarrow> (let (a, b, c) = final (a, b, c) in join64 b c))"

fun stable16_loop :: "u16 list \<Rightarrow> abc \<Rightarrow> u16 list \<times> abc" where
  "stable16_loop (k0 # k1 # k2 # k3 # k4 # k5 # k6 # ks) (a, b, c) =
     stable16_loop (k6 # ks)
       (mix (a + (ucast k0 + push_bit 16 (ucast k1)),
             b + (ucast k2 + push_bit 16 (ucast k3)),
             c + (ucast k4 + push_bit 16 (ucast k5))))"
| "stable16_loop ks s = (ks, s)"

fun stable16_last :: "u16 list \<Rightarrow> abc \<Rightarrow> abc" where
  "stable16_last [k0, k1, k2, k3, k4] (a, b, c) = stable16_last [k0, k1, k2, k3] (a, b, c + ucast k4)"
| "stable16_last [k0, k1, k2, k3] (a, b, c) = stable16_last [k0, k1, k2] (a, b + push_bit 16 (ucast k3), c)"
| "stable16_last [k0, k1, k2] (a, b, c) = stable16_last [k0, k1] (a, b + ucast k2, c)"
| "stable16_last [k0, k1] (a, b, c) = stable16_last [k0] (a + push_bit 16 (ucast k1), b, c)"
| "stable16_last [k0] (a, b, c) = (a + ucast k0, b, c)"
| "stable16_last _ s = s"

definition hash64_stable_16 :: "u16 list \<Rightarrow> u64 \<Rightarrow> u64" where
  "hash64_stable_16 key base =
     (let (k, a, b, c) = stable16_loop key (stable_start (word_of_nat (length key) * 2) base)
      in if k = [] then ucast c
         else let (a, b, c) = final (stable16_last k (a, b, c)) in join64 b c)"

definition hash64_stable_8 :: "bool \<Rightarrow> ptr \<Rightarrow> u8 list \<Rightarrow> u64 \<Rightarrow> u64" where
  "hash64_stable_8 be addr key base =
     (let b32 = ucast (base + drop_bit 32 base);
          (lower, b32) = hashlittle be addr key b32
      in join64 b32 lower)"

definition hash_any :: "bool \<Rightarrow> ptr \<Rightarrow> u8 list \<Rightarrow> u32 \<Rightarrow> u32" where
  "hash_any be addr key base =
     (if be then fst (hashbig be addr key base) else fst (hashlittle be addr key base))"

definition hash_stable_64 :: "u64 list \<Rightarrow> u32 \<Rightarrow> u32" where
  "hash_stable_64 key base = ucast (hash64_stable_64 key (ucast base))"

definition hash_stable_32 :: "u32 list \<Rightarrow> u32 \<Rightarrow> u32" where
  "hash_stable_32 key base = ucast (hash64_stable_32 key (ucast base))"

definition hash_stable_16 :: "u16 list \<Rightarrow> u32 \<Rightarrow> u32" where
  "hash_stable_16 key base = ucast (hash64_stable_16 key (ucast base))"

definition hash_stable_8 :: "bool \<Rightarrow> ptr \<Rightarrow> u8 list \<Rightarrow> u32 \<Rightarrow> u32" where
  "hash_stable_8 be addr key base = fst (hashlittle be addr key base)"

definition hash64_any :: "bool \<Rightarrow> ptr \<Rightarrow> u8 list \<Rightarrow> u64 \<Rightarrow> u64" where
  "hash64_any be addr key base =
     (let b32 = ucast (base + drop_bit 32 base);
          (lower, b32) = (if be then hashbig be addr key b32 else hashlittle be addr key b32)
      in join64 b32 lower)"



lemma ucast_add_down: "(ucast (x + y :: u64) :: u32) = ucast x + ucast y"
proof (transfer, simp)
  fix x y :: int
  have "take_bit 32 (take_bit 64 x + take_bit 64 y)
      = take_bit 32 (take_bit 32 (take_bit 64 x) + take_bit 32 (take_bit 64 y))"
    by (simp only: take_bit_add)
  then show "take_bit 32 (x + y) = take_bit 32 (take_bit 64 x + take_bit 64 y)"
    by (simp add: take_bit_add)
qed

lemma ucast_up_down: "(ucast (ucast (x :: u32) :: u64) :: u32) = x"
  by (rule bit_word_eqI) (auto simp: bit_simps dest: bit_imp_le_length)

lemma stable_start_eq:
  "stable_start nbytes base =
     (let i = 0xdeadbeef + nbytes + ucast (base + drop_bit 32 base) in (i, i, i))"
  by (simp add: stable_start_def Let_def ucast_add_down ucast_up_down add.assoc add.commute add.left_commute)

lemma stable_start_words:
  assumes rb: "reads_back wd enc"
  shows "stable_start (word_of_nat (length key) * 4) base =
    hash_start (concat (map enc key)) (ucast (base + drop_bit 32 base))"
  by (simp add: stable_start_eq hash_start_def length_words [OF rb] mult.commute)

lemma hash_u32_loop_length: "length (fst (hash_u32_loop ks s)) mod 3 = length ks mod 3"
  by (induction ks s rule: hash_u32_loop.induct) (auto simp: mod_Suc)


lemma hash64_stable_32_eq:
  assumes "length key mod 3 \<noteq> 0"
  shows "hash64_stable_32 key base = hash64_stable_8 be addr (concat (map le_bytes key)) base"
proof -
  define v :: u32 where "v = ucast (base + drop_bit 32 base)"
  define key' where "key' = concat (map le_bytes key)"
  obtain r a b c where l: "hash_u32_loop key (hash_start key' v) = (r, a, b, c)"
    by (metis prod.exhaust)
  have "length r mod 3 \<noteq> 0" "length r \<le> 3"
    using hash_u32_loop_length [of key "hash_start key' v"] hash_u32_loop_rest [of key "hash_start key' v"]
      l assms by simp_all
  then have r: "(\<exists>x. r = [x]) \<or> (\<exists>x y. r = [x, y])"
    using length_le_3 [of r] by auto
  then have last: "hash_u32_last r (a, b, c) = final (add_words le_word (concat (map le_bytes r)) (a, b, c))"
    and ne: "r \<noteq> []" using hash_u32_last_words [OF reads_back_le, of r a b c] by auto
  obtain a' b' c' where f: "hash_u32_last r (a, b, c) = (a', b', c')"
    by (metis prod.exhaust)
  have "final (add_words le_word (concat (map le_bytes r)) (a, b, c)) = (a', b', c')" "length r \<noteq> 0"
    using last f ne by simp_all
  then have "hash64_stable_8 be addr key' base = join64 b' c'"
    using l hash_u32_loop_blocks [OF reads_back_le, of key "hash_start key' v"]
    by (simp add: hash64_stable_8_def hashlittle_eq lookup3_def v_def [symmetric] hash_finish_def
        key'_def [symmetric] length_words [OF reads_back_le] del: length_0_conv) simp
  moreover have "hash64_stable_32 key base = join64 b' c'"
    using r l f by (auto simp: hash64_stable_32_def stable_start_words [OF reads_back_le]
        v_def [symmetric] key'_def [symmetric])
  ultimately show ?thesis by (simp add: key'_def)
qed

fun mix_all :: "u32 list \<Rightarrow> abc \<Rightarrow> abc" where
  "mix_all (k0 # k1 # k2 # ks) (a, b, c) = mix_all ks (mix (a + k0, b + k1, c + k2))"
| "mix_all ks s = s"

lemma hash_u32_loop_append3:
  "length xs mod 3 = 0 \<Longrightarrow> hash_u32_loop (xs @ [y0, y1, y2]) s = ([y0, y1, y2], mix_all xs s)"
proof (induction xs s rule: mix_all.induct)
  case (1 k0 k1 k2 ks a b c)
  obtain k3 r where "ks @ [y0, y1, y2] = k3 # r" by (cases ks) auto
  with 1 show ?case by (simp add: mod_Suc split: if_splits)
qed simp_all

lemma hash64_stable_32_drops:
  assumes "length xs mod 3 = 0"
  shows "hash64_stable_32 (xs @ [y0, y1, y2]) base = hash64_stable_32 (xs @ [z0, z1, z2]) base"
  by (simp add: hash64_stable_32_def hash_u32_loop_append3 [OF assms])

section \<open>Stable hashes of 64-bit and 16-bit elements\<close>

text \<open>The bytes of a 64-bit word, and of a pointer, in memory order.\<close>

definition le_bytes64 :: "u64 \<Rightarrow> u8 list" where
  "le_bytes64 w = le_bytes (ucast w) @ le_bytes (ucast (drop_bit 32 w))"

definition be_bytes64 :: "u64 \<Rightarrow> u8 list" where
  "be_bytes64 w = rev (le_bytes64 w)"

definition halves :: "u64 \<Rightarrow> u32 list" where
  "halves w = [ucast w, ucast (drop_bit 32 w)]"

lemma le_bytes64_halves: "concat (map le_bytes64 ks) = concat (map le_bytes (concat (map halves ks)))"
  by (induction ks) (simp_all add: le_bytes64_def halves_def)

lemma be_bytes64_halves: "be_bytes64 w = concat (map be_bytes (rev (halves w)))"
  by (simp add: be_bytes64_def le_bytes64_def be_bytes_def halves_def)

lemma length_halves: "length (concat (map halves ks)) = 2 * length ks"
  by (induction ks) (simp_all add: halves_def)

text \<open>The loop over 64-bit elements does two rounds of the loop over their halves.\<close>

lemma stable64_loop_halves:
  assumes "stable64_loop ks s = (r, t)"
  shows "length r \<le> 3 \<and> hash_u32_loop (concat (map halves ks)) s = hash_u32_loop (concat (map halves r)) t"
  using assms
  by (induction ks s arbitrary: r t rule: stable64_loop.induct)
     (auto simp: halves_def Let_def split: prod.splits)

lemma stable64_loop_length: "length (fst (stable64_loop ks s)) mod 3 = length ks mod 3"
  by (induction ks s rule: stable64_loop.induct) (auto simp: mod_Suc Let_def split: prod.splits)

lemma join64_low: "(ucast (join64 b c) :: u32) = c"
  by (rule bit_word_eqI) (auto simp: join64_def bit_simps dest: bit_imp_le_length)

lemma drop_high: "drop_bit 32 (ucast (x :: u32) :: u64) = 0"
  by (rule bit_word_eqI) (auto simp: bit_simps dest: bit_imp_le_length)

lemma mod_3_mult_2: "(n * 2) mod 3 \<noteq> 0" if "n mod 3 \<noteq> 0" for n :: nat
  using that by presburger

lemma hash64_stable_64_eq_32:
  assumes "length key mod 3 \<noteq> 0"
  shows "hash64_stable_64 key base = hash64_stable_32 (concat (map halves key)) base"
proof -
  define s where "s = stable_start (word_of_nat (length key) * 8) base"
  obtain r t where l: "stable64_loop key s = (r, t)" by (rule prod.exhaust)
  obtain a b c where t: "t = (a, b, c)" by (rule prod_cases3)
  have "length r mod 3 \<noteq> 0" "length r \<le> 3"
    using stable64_loop_halves [OF l] stable64_loop_length [of key s] l assms by simp_all
  then have "(\<exists>x. r = [x]) \<or> (\<exists>x y. r = [x, y])" using length_le_3 [of r] by auto
  moreover have "stable_start (word_of_nat (length (concat (map halves key))) * 4) base = s"
    by (simp add: s_def length_halves mult.commute)
  ultimately show ?thesis
    using stable64_loop_halves [OF l] l t
    by (auto simp: hash64_stable_64_def hash64_stable_32_def s_def [symmetric] halves_def
        split: prod.splits)
qed

lemma stable64_loop_3: "stable64_loop [y0, y1, y2] s = ([y0, y1, y2], s)"
  by (cases s) simp

lemma stable64_loop_6: "\<exists>t. \<forall>y0 y1 y2. stable64_loop [k0, k1, k2, y0, y1, y2] s = ([y0, y1, y2], t)"
proof -
  obtain a b c where "s = (a, b, c)" by (rule prod_cases3)
  moreover obtain x y z where "mix (a + ucast k0, b + ucast (drop_bit 32 k0), c + ucast k1) = (x, y, z)"
    by (rule prod_cases3)
  ultimately show ?thesis by (simp add: stable64_loop_3 del: split_paired_Ex)
qed

lemma stable64_loop_append3:
  "length xs mod 3 = 0 \<Longrightarrow> \<exists>t. \<forall>y0 y1 y2. stable64_loop (xs @ [y0, y1, y2]) s = ([y0, y1, y2], t)"
proof (induction xs s rule: stable64_loop.induct)
  case (1 k0 k1 k2 k3 ks a b c)
  obtain x y z where "mix (a + ucast k0, b + ucast (drop_bit 32 k0), c + ucast k1) = (x, y, z)"
    by (rule prod_cases3)
  with 1 show ?case by (simp add: mod_Suc split: if_splits)
qed (simp_all add: mod_Suc stable64_loop_3 stable64_loop_6 del: split_paired_Ex)

definition le_bytes16 :: "u16 \<Rightarrow> u8 list" where
  "le_bytes16 w = [ucast w, ucast (drop_bit 8 w)]"

lemma bytes16_sum: "(ucast (ucast (w :: u16) :: u8) :: u32) + push_bit 8 (ucast (ucast (drop_bit 8 w) :: u8)) = ucast w"
proof -
  have "(ucast (ucast w :: u8) :: u32) = take_bit 8 (ucast w)"
    "(ucast (ucast (drop_bit 8 w) :: u8) :: u32) = drop_bit 8 (ucast w)"
    by (rule bit_word_eqI; auto simp: bit_simps dest: bit_imp_le_length)+
  then show ?thesis using bits_ident [of 8 "ucast w :: u32"] by (simp add: add.commute)
qed

lemma le_word_bytes16:
  "le_word (le_bytes16 w @ le_bytes16 x @ bs) 0 = ucast w + push_bit 16 (ucast x)"
  "le_word (le_bytes16 w @ le_bytes16 x @ bs) (4 + i) = le_word bs i"
  "le_word (le_bytes16 w) 0 = ucast w"
  "le_word (le_bytes16 w) (4 + i) = 0"
  by (simp_all add: le_word_def le_bytes16_def byte_at_def nth_append add.commute [of i]
      bytes16_sum [symmetric] push_bit_add)

lemma length_le_bytes16: "length (concat (map le_bytes16 ks)) = 2 * length ks"
  by (induction ks) (simp_all add: le_bytes16_def)

lemma le_word_bytes16_at:
  "le_word (le_bytes16 w @ le_bytes16 x @ bs) 4 = le_word bs 0"
  "le_word (le_bytes16 w @ le_bytes16 x @ bs) 8 = le_word bs 4"
  "le_word (le_bytes16 w @ le_bytes16 x) 0 = ucast w + push_bit 16 (ucast x)"
  "le_word (le_bytes16 w @ le_bytes16 x) 4 = 0"
  "le_word (le_bytes16 w @ le_bytes16 x) 8 = 0"
  "le_word (le_bytes16 w) 4 = 0"
  "le_word (le_bytes16 w) 8 = 0"
  using le_word_bytes16(2) [of w x bs 0] le_word_bytes16(2) [of w x bs 4]
    le_word_bytes16(1) [of w x "[]"] le_word_bytes16(2) [of w x "[]" 0]
    le_word_bytes16(2) [of w x "[]" 4] le_word_bytes16(4) [of w 0] le_word_bytes16(4) [of w 4]
  by simp_all

lemma stable16_loop_blocks:
  "block_loop (add_words le_word) (concat (map le_bytes16 ks)) s =
     (case stable16_loop ks s of (r, s') \<Rightarrow> (concat (map le_bytes16 r), s'))"
proof (induction ks s rule: stable16_loop.induct)
  case (1 k0 k1 k2 k3 k4 k5 k6 ks a b c)
  let ?k = "concat (map le_bytes16 (k0 # k1 # k2 # k3 # k4 # k5 # k6 # ks))"
  have "12 < length ?k" by (simp add: length_le_bytes16 le_bytes16_def)
  moreover have "drop 12 ?k = concat (map le_bytes16 (k6 # ks))" by (simp add: le_bytes16_def)
  moreover have "add_words le_word ?k (a, b, c) =
      (a + (ucast k0 + push_bit 16 (ucast k1)), b + (ucast k2 + push_bit 16 (ucast k3)),
       c + (ucast k4 + push_bit 16 (ucast k5)))"
    by (simp add: add_words_def le_word_bytes16 le_word_bytes16_at)
  ultimately show ?case using 1 by (simp only: block_loop.simps [of _ ?k] stable16_loop.simps if_True)
qed (simp_all add: block_loop.simps le_bytes16_def)

lemma add_7_mod_6: "(7 + n) mod 6 = Suc n mod 6"
  by presburger

lemma stable16_loop_length:
  "length (fst (stable16_loop ks s)) mod 6 = length ks mod 6 \<and> length (fst (stable16_loop ks s)) \<le> 6"
  by (induction ks s rule: stable16_loop.induct) (simp_all add: add_7_mod_6)

lemma stable16_last_words:
  assumes "r \<noteq> []" "length r \<le> 5"
  shows "stable16_last r s = add_words le_word (concat (map le_bytes16 r)) s"
proof -
  from assms consider k0 where "r = [k0]" | k0 k1 where "r = [k0, k1]"
    | k0 k1 k2 where "r = [k0, k1, k2]" | k0 k1 k2 k3 where "r = [k0, k1, k2, k3]"
    | k0 k1 k2 k3 k4 where "r = [k0, k1, k2, k3, k4]"
    by (auto simp: numeral_eq_Suc le_Suc_eq length_Suc_conv)
  then show ?thesis
    by cases (cases s; simp add: add_words_def le_word_bytes16 le_word_bytes16_at add.assoc add.commute)+
qed

lemma hash64_stable_16_eq:
  assumes "length key mod 6 \<noteq> 0"
  shows "hash64_stable_16 key base = hash64_stable_8 be addr (concat (map le_bytes16 key)) base"
proof -
  define v :: u32 where "v = ucast (base + drop_bit 32 base)"
  define key' where "key' = concat (map le_bytes16 key)"
  obtain r a b c where l: "stable16_loop key (hash_start key' v) = (r, a, b, c)"
    by (metis prod.exhaust)
  have "length r mod 6 \<noteq> 0" "length r \<le> 6"
    using stable16_loop_length [of key "hash_start key' v"] l assms by simp_all
  then have r: "r \<noteq> []" "length r \<le> 5" by (auto dest: le_neq_implies_less)
  obtain a' b' c' where f: "final (stable16_last r (a, b, c)) = (a', b', c')"
    by (metis prod.exhaust)
  have start: "stable_start (word_of_nat (length key) * 2) base = hash_start key' v"
    by (simp add: stable_start_eq hash_start_def key'_def v_def length_le_bytes16 mult.commute)
  have "hash64_stable_8 be addr key' base = join64 b' c'"
    using l r f stable16_loop_blocks [of key "hash_start key' v"]
    by (simp add: hash64_stable_8_def hashlittle_eq lookup3_def v_def [symmetric] hash_finish_def
        key'_def [symmetric] length_le_bytes16 stable16_last_words del: length_0_conv) simp
  moreover have "hash64_stable_16 key base = join64 b' c'"
    using r l f by (simp add: hash64_stable_16_def start)
  ultimately show ?thesis by (simp add: key'_def)
qed

lemma length_ge_6:
  assumes "6 \<le> length xs"
  obtains k0 k1 k2 k3 k4 k5 r where "xs = k0 # k1 # k2 # k3 # k4 # k5 # r"
  using assms by (auto simp: numeral_eq_Suc Suc_le_length_iff)

lemma length_6:
  assumes "length xs = 6"
  obtains k0 k1 k2 k3 k4 k5 where "xs = [k0, k1, k2, k3, k4, k5]"
  using assms by (auto simp: numeral_eq_Suc length_Suc_conv)

lemma stable16_loop_append6:
  "length xs mod 6 = 0 \<Longrightarrow> \<exists>t. \<forall>ys. length ys = 6 \<longrightarrow> stable16_loop (xs @ ys) s = (ys, t)"
proof (induction "length xs" arbitrary: xs s rule: less_induct)
  case less
  obtain a b c where s: "s = (a, b, c)" by (rule prod_cases3)
  show ?case
  proof (cases xs)
    case Nil
    have "stable16_loop ys s = (ys, s)" if "length ys = 6" for ys
      by (rule length_6 [OF that]) (simp add: s)
    with Nil show ?thesis by (intro exI [of _ s]) simp
  next
    case (Cons x0 xs')
    have "6 \<le> length xs" using less(2) Cons by (cases "length xs < 6") auto
    then obtain k0 k1 k2 k3 k4 k5 r where xs: "xs = k0 # k1 # k2 # k3 # k4 # k5 # r"
      by (rule length_ge_6)
    have mod6: "length r mod 6 = 0" using less(2) xs by simp
    have shorter: "length r < length xs" by (simp add: xs)
    obtain t where t: "\<forall>ys. length ys = 6 \<longrightarrow> stable16_loop (r @ ys)
        (mix (a + (ucast k0 + push_bit 16 (ucast k1)), b + (ucast k2 + push_bit 16 (ucast k3)),
              c + (ucast k4 + push_bit 16 (ucast k5)))) = (ys, t)"
      using less(1) [OF shorter mod6] by blast
    have "stable16_loop (xs @ ys) s = (ys, t)" if ys: "length ys = 6" for ys
    proof -
      obtain y r' where r': "r @ ys = y # r'" using ys by (cases "r @ ys") auto
      have "stable16_loop (xs @ ys) s = stable16_loop (r @ ys)
        (mix (a + (ucast k0 + push_bit 16 (ucast k1)), b + (ucast k2 + push_bit 16 (ucast k3)),
              c + (ucast k4 + push_bit 16 (ucast k5))))"
        by (simp add: xs s r')
      with t ys show ?thesis by simp
    qed
    then show ?thesis by blast
  qed
qed

lemma stable16_last_6: "length ys = 6 \<Longrightarrow> stable16_last ys s = s"
  by (erule length_6) simp

lemma hash64_stable_64_drops:
  assumes "length xs mod 3 = 0"
  shows "hash64_stable_64 (xs @ [y0, y1, y2]) base = hash64_stable_64 (xs @ [z0, z1, z2]) base"
proof -
  obtain t where "\<forall>y0 y1 y2. stable64_loop (xs @ [y0, y1, y2])
      (stable_start (8 * (3 + word_of_nat (length xs))) base) = ([y0, y1, y2], t)"
    using stable64_loop_append3 [OF assms] by blast
  then show ?thesis by (simp add: hash64_stable_64_def algebra_simps)
qed

lemma hash64_stable_16_drops:
  assumes "length xs mod 6 = 0" "length ys = 6" "length zs = 6"
  shows "hash64_stable_16 (xs @ ys) base = hash64_stable_16 (xs @ zs) base"
proof -
  obtain t where "\<forall>ys. length ys = 6 \<longrightarrow> stable16_loop (xs @ ys)
      (stable_start (word_of_nat (length xs + 6) * 2) base) = (ys, t)"
    using stable16_loop_append6 [OF assms(1)] by blast
  moreover have "ys \<noteq> []" "zs \<noteq> []" using assms by auto
  ultimately show ?thesis
    using assms by (cases t) (simp add: hash64_stable_16_def stable16_last_6)
qed

section \<open>Properties of the hash functions\<close>

text \<open>C22. The two mixing macros of lookup3 lose no information: each is a bijection on the three
  32-bit words of the state.\<close>

theorem mixing_bijective: "bij mix \<and> bij final"
proof
  show "bij mix"
    by (rule o_bij [of unmix]) (simp_all add: fun_eq_iff unmix_mix mix_unmix)
  show "bij final"
    by (rule o_bij [of unfinal]) (simp_all add: fun_eq_iff unfinal_final final_unfinal)
qed

text \<open>C21. \<open>hashlittle\<close> computes the same pair on every machine and for every alignment of the key:
  its three reading loops (32-bit, 16-bit and 8-bit loads, with the fall-through switches) all
  implement lookup3 over the key read as little-endian words padded with zeros, and no byte after
  the key contributes.\<close>

theorem hashlittle_is_lookup3: "hashlittle be addr key v = lookup3 le_word key v"
  by (rule hashlittle_eq)

text \<open>C23. The same for \<open>hashbig\<close>, with the key read as big-endian words.\<close>

theorem hashbig_is_lookup3: "hashbig be addr key v = lookup3 be_word key v"
  by (rule hashbig_eq)

text \<open>\<open>hash_u32\<close> of an array agrees with \<open>hashlittle\<close> on the bytes a little-endian machine keeps
  the array in, and with \<open>hashbig\<close> on those of a big-endian machine, as the comment above it says;
  hence on either machine it is \<open>hash_any\<close> of its own memory.\<close>

theorem hash_u32_is_hash_any:
  "hash_u32 ks iv = hash_any False addr (concat (map le_bytes ks)) iv \<and>
   hash_u32 ks iv = hash_any True addr (concat (map be_bytes ks)) iv"
  by (simp_all add: hash_any_def hashlittle_eq hashbig_eq hash_u32_lookup3 [OF reads_back_le, symmetric]
      hash_u32_lookup3 [OF reads_back_be, symmetric])

text \<open>\<open>hash_pointer\<close> is \<open>hash_any\<close> of the eight bytes of the pointer, on machines of either
  endianness: both branches of the function give the same hash.\<close>

theorem hash_pointer_is_hash_any:
  "hash_pointer be p base = hash_any be addr (if be then be_bytes64 p else le_bytes64 p) base"
  using hash_u32_lookup3 [OF reads_back_le, of "halves p" base]
    hash_u32_lookup3 [OF reads_back_be, of "rev (halves p)" base]
  by (simp add: hash_pointer_def Let_def hash_any_def hashlittle_eq hashbig_eq be_bytes64_halves
      le_bytes64_halves [of "[p]", simplified] halves_def)

text \<open>On arrays of 32-bit values whose length is not a multiple of three, the stable hash is the
  stable hash of the little-endian bytes, on every machine.\<close>

theorem stable_32_is_stable_8:
  assumes "length key mod 3 \<noteq> 0"
  shows "hash64_stable_32 key base = hash64_stable_8 be addr (concat (map le_bytes key)) base"
  by (rule hash64_stable_32_eq [OF assms])

text \<open>The same for arrays of 64-bit values, whose loop does two rounds of mixing at a time.\<close>

theorem stable_64_is_stable_8:
  assumes "length key mod 3 \<noteq> 0"
  shows "hash64_stable_64 key base = hash64_stable_8 be addr (concat (map le_bytes64 key)) base"
proof -
  have "length (concat (map halves key)) mod 3 \<noteq> 0"
    using mod_3_mult_2 [OF assms] by (simp add: length_halves mult.commute)
  from hash64_stable_32_eq [OF this, of base be addr] show ?thesis
    by (simp only: hash64_stable_64_eq_32 [OF assms] le_bytes64_halves)
qed

text \<open>The same for arrays of 16-bit values whose length is not a multiple of six.\<close>

theorem stable_16_is_stable_8:
  assumes "length key mod 6 \<noteq> 0"
  shows "hash64_stable_16 key base = hash64_stable_8 be addr (concat (map le_bytes16 key)) base"
  by (rule hash64_stable_16_eq [OF assms])

text \<open>C34. The stable hashes of arrays of 64-bit, 32-bit and 16-bit values are the stable hash of the
  little-endian bytes of the array, on every machine and at every address, if its length is not
  a multiple of three (of six for 16-bit values).\<close>

theorem stable_hashes_agree:
  assumes "length ks32 mod 3 \<noteq> 0" "length ks64 mod 3 \<noteq> 0" "length ks16 mod 6 \<noteq> 0"
  shows "hash64_stable_32 ks32 base = hash64_stable_8 be addr (concat (map le_bytes ks32)) base \<and>
    hash64_stable_64 ks64 base = hash64_stable_8 be addr (concat (map le_bytes64 ks64)) base \<and>
    hash64_stable_16 ks16 base = hash64_stable_8 be addr (concat (map le_bytes16 ks16)) base"
  using stable_32_is_stable_8 [OF assms(1)] stable_64_is_stable_8 [OF assms(2)] stable_16_is_stable_8 [OF assms(3)] by blast

theorem stable_hashes_agree_witness:
  "hash64_stable_32 [1, 2, 3, 4] 7 = hash64_stable_8 True 1 (concat (map le_bytes [1, 2, 3, 4])) 7 \<and>
   hash64_stable_64 [1, 2] 7 = hash64_stable_8 True 1 (concat (map le_bytes64 [1, 2])) 7 \<and>
   hash64_stable_16 [1, 2, 3, 4, 5, 6, 7] 7 = hash64_stable_8 True 1 (concat (map le_bytes16 [1, 2, 3, 4, 5, 6, 7])) 7"
  by (rule stable_hashes_agree) simp_all

text \<open>C35. At the other lengths the last elements do not reach the stable hash: the switches have no
  case 3 (no case 6 for 16-bit values), although the loops leave that many elements, so any two
  arrays of such a length that differ only at the end have the same hash.\<close>

theorem stable_hashes_ignore_the_end:
  assumes "length xs mod 3 = 0" "length ws mod 3 = 0" "length hs mod 6 = 0" "length ys = 6" "length zs = 6"
  shows "hash64_stable_32 (xs @ [x0, x1, x2]) base = hash64_stable_32 (xs @ [x0', x1', x2']) base \<and>
    hash64_stable_64 (ws @ [w0, w1, w2]) base = hash64_stable_64 (ws @ [w0', w1', w2']) base \<and>
    hash64_stable_16 (hs @ ys) base = hash64_stable_16 (hs @ zs) base"
  using hash64_stable_32_drops [OF assms(1)] hash64_stable_64_drops [OF assms(2)]
    hash64_stable_16_drops [OF assms(3-5)]
  by blast

theorem stable_hashes_ignore_the_end_witness:
  "hash64_stable_32 ([] @ [1, 2, 3]) 0 = hash64_stable_32 ([] @ [4, 5, 6]) 0 \<and>
   hash64_stable_64 ([] @ [1, 2, 3]) 0 = hash64_stable_64 ([] @ [4, 5, 6]) 0 \<and>
   hash64_stable_16 ([] @ [1, 2, 3, 4, 5, 6]) 0 = hash64_stable_16 ([] @ [6, 5, 4, 3, 2, 1]) 0"
  by (rule stable_hashes_ignore_the_end) simp_all

text \<open>The 32-bit hash of a byte string for external use is the low half of the 64-bit one started
  from the same base, and the two native hashes stand in the same relation.\<close>

theorem hash_32_is_low_half:
  "hash_stable_8 be addr key base = ucast (hash64_stable_8 be addr key (ucast base)) \<and>
   hash_any be addr key base = ucast (hash64_any be addr key (ucast base))"
  by (simp_all add: hash_stable_8_def hash64_stable_8_def hash_any_def hash64_any_def join64_low Let_def
      ucast_add_down ucast_up_down drop_high split: prod.splits)

end
