(* ===== verification/Htable.thy ===== *)
theory Htable
  imports Prelude
begin

unbundle bit_operations_syntax

text \<open>
  The hash table of pointers of src/src/ccan/ccan/htable (htable.c, htable.h): open addressing
  with linear probing in one array of words, where the bits all stored pointers share hold bits
  of the hash instead. Words, masks and hashes are 64-bit words; the counters and the offsets,
  which the code keeps below \<open>2 ^ 31\<close>, are naturals. The callbacks \<open>rehash\<close> and \<open>cmp\<close> are
  arguments, since what they return depends on the memory the pointers point to; they give None
  on a pointer that cannot be read. None as the result of an operation is a call that has no
  defined result: an index out of the table, a failed assert, an overflowing shift, or a loop
  that never ends.
\<close>

section \<open>The table\<close>

text \<open>
  \<open>ht->table\<close> points to the field \<open>perfect_bit\<close> of the table itself until the first insertion, and
  to an array from calloc afterwards.
\<close>

datatype buckets = Perfect_bit | Array "u64 list"

record htable =
  ht_bits :: nat
  ht_elems :: nat
  ht_deleted :: nat
  ht_max :: nat
  ht_max_with_deleted :: nat
  ht_common_mask :: u64
  ht_common_bits :: u64
  ht_perfect_bit :: u64
  ht_table :: buckets

type_synonym rehash = "ptr \<Rightarrow> u64 option"
type_synonym compare = "ptr \<Rightarrow> bool option"

definition HTABLE_DELETED :: u64 where
  "HTABLE_DELETED = 0x1"

definition HTABLE_INITIALIZER :: htable where
  "HTABLE_INITIALIZER =
     \<lparr>ht_bits = 0, ht_elems = 0, ht_deleted = 0, ht_max = 0, ht_max_with_deleted = 0,
      ht_common_mask = -1, ht_common_bits = 0, ht_perfect_bit = 0, ht_table = Perfect_bit\<rparr>"

definition htable_init :: htable where
  "htable_init = HTABLE_INITIALIZER"

definition htable_clear :: "htable \<Rightarrow> htable" where
  "htable_clear ht = htable_init"

text \<open>Reading and writing \<open>ht->table[i]\<close>.\<close>

definition table_get :: "htable \<Rightarrow> nat \<Rightarrow> u64 option" where
  "table_get ht i =
     (case ht_table ht of
        Perfect_bit \<Rightarrow> if i = 0 then Some (ht_perfect_bit ht) else None
      | Array xs \<Rightarrow> if i < length xs then Some (xs ! i) else None)"

definition table_set :: "htable \<Rightarrow> nat \<Rightarrow> u64 \<Rightarrow> htable option" where
  "table_set ht i e =
     (case ht_table ht of
        Perfect_bit \<Rightarrow> if i = 0 then Some (ht\<lparr>ht_perfect_bit := e\<rparr>) else None
      | Array xs \<Rightarrow> if i < length xs then Some (ht\<lparr>ht_table := Array (xs[i := e])\<rparr>) else None)"

section \<open>Entries\<close>

definition get_extra_ptr_bits :: "htable \<Rightarrow> u64 \<Rightarrow> u64" where
  "get_extra_ptr_bits ht e = e AND ht_common_mask ht"

definition get_raw_ptr :: "htable \<Rightarrow> u64 \<Rightarrow> ptr" where
  "get_raw_ptr ht e = (e AND NOT (ht_common_mask ht)) OR ht_common_bits ht"

definition make_hval :: "htable \<Rightarrow> ptr \<Rightarrow> u64 \<Rightarrow> u64" where
  "make_hval ht p extra = (p AND NOT (ht_common_mask ht)) OR extra"

definition entry_is_valid :: "u64 \<Rightarrow> bool" where
  "entry_is_valid e \<longleftrightarrow> e > HTABLE_DELETED"

definition get_hash_ptr_bits :: "htable \<Rightarrow> u64 \<Rightarrow> u64" where
  "get_hash_ptr_bits ht hash =
     (hash XOR drop_bit (ht_bits ht) hash) AND ht_common_mask ht AND NOT (ht_perfect_bit ht)"

definition hash_bucket :: "htable \<Rightarrow> u64 \<Rightarrow> nat" where
  "hash_bucket ht h = unat (h AND (push_bit (ht_bits ht) 1 - 1))"

text \<open>\<open>(i + 1) & ((1 << ht->bits) - 1)\<close>.\<close>

definition next_off :: "htable \<Rightarrow> nat \<Rightarrow> nat" where
  "next_off ht i = (i + 1) AND (push_bit (ht_bits ht) 1 - 1)"

section \<open>Lookup\<close>

text \<open>
  \<open>htable_val\<close> walks from \<open>i->off\<close> to the next entry whose extra bits are those wanted, and stops
  with NULL at an empty bucket; the new \<open>i->off\<close> is part of the result.
\<close>

partial_function (option) htable_val_loop :: "htable \<Rightarrow> u64 \<Rightarrow> nat \<Rightarrow> u64 \<Rightarrow> (ptr \<times> nat) option" where
  "htable_val_loop ht perfect off h2 =
     do { e \<leftarrow> table_get ht off;
          if e = 0 then Some (NULL, off)
          else if e \<noteq> HTABLE_DELETED \<and> get_extra_ptr_bits ht e = h2
               then Some (get_raw_ptr ht e, off)
               else htable_val_loop ht perfect (next_off ht off) (h2 AND NOT perfect) }"

definition htable_val :: "htable \<Rightarrow> nat \<Rightarrow> u64 \<Rightarrow> u64 \<Rightarrow> (ptr \<times> nat) option" where
  "htable_val ht off hash perfect =
     htable_val_loop ht perfect off (get_hash_ptr_bits ht hash OR perfect)"

definition htable_firstval :: "htable \<Rightarrow> u64 \<Rightarrow> (ptr \<times> nat) option" where
  "htable_firstval ht hash = htable_val ht (hash_bucket ht hash) hash (ht_perfect_bit ht)"

definition htable_nextval :: "htable \<Rightarrow> nat \<Rightarrow> u64 \<Rightarrow> (ptr \<times> nat) option" where
  "htable_nextval ht off hash = htable_val ht (next_off ht off) hash 0"

text \<open>The loop of \<open>htable_get\<close>: \<open>for (c = firstval; c; c = nextval) if (cmp(c, ptr)) return c\<close>.\<close>

partial_function (option) htable_get_loop ::
  "htable \<Rightarrow> u64 \<Rightarrow> compare \<Rightarrow> ptr \<Rightarrow> nat \<Rightarrow> ptr option" where
  "htable_get_loop ht h cmp c off =
     (if c = NULL then Some NULL
      else do { found \<leftarrow> cmp c;
                if found then Some c
                else do { (c, off) \<leftarrow> htable_nextval ht off h;
                          htable_get_loop ht h cmp c off } })"

definition htable_get :: "htable \<Rightarrow> u64 \<Rightarrow> compare \<Rightarrow> ptr option" where
  "htable_get ht h cmp =
     do { (c, off) \<leftarrow> htable_firstval ht h; htable_get_loop ht h cmp c off }"

text \<open>
  \<open>htable_first\<close> and \<open>htable_next\<close> share their loop: from offset \<open>off\<close> to the next valid entry.
\<close>

partial_function (option) htable_scan :: "htable \<Rightarrow> nat \<Rightarrow> (ptr \<times> nat) option" where
  "htable_scan ht off =
     (if off < 2 ^ ht_bits ht
      then do { e \<leftarrow> table_get ht off;
                if entry_is_valid e then Some (get_raw_ptr ht e, off)
                else htable_scan ht (off + 1) }
      else Some (NULL, off))"

definition htable_first :: "htable \<Rightarrow> (ptr \<times> nat) option" where
  "htable_first ht = htable_scan ht 0"

definition htable_next :: "htable \<Rightarrow> nat \<Rightarrow> (ptr \<times> nat) option" where
  "htable_next ht off = htable_scan ht (off + 1)"

section \<open>Insertion\<close>

partial_function (option) ht_add_loop :: "htable \<Rightarrow> nat \<Rightarrow> u64 \<Rightarrow> (nat \<times> u64) option" where
  "ht_add_loop ht i perfect =
     do { e \<leftarrow> table_get ht i;
          if entry_is_valid e then ht_add_loop ht (next_off ht i) 0 else Some (i, perfect) }"

definition ht_add :: "htable \<Rightarrow> ptr \<Rightarrow> u64 \<Rightarrow> htable option" where
  "ht_add ht new h =
     do { (i, perfect) \<leftarrow> ht_add_loop ht (hash_bucket ht h) (ht_perfect_bit ht);
          table_set ht i (make_hval ht new (get_hash_ptr_bits ht h OR perfect)) }"

text \<open>
  \<open>double_table\<close>: \<open>calloc_ok\<close> is whether calloc finds the memory. \<open>1 << (ht->bits + 1)\<close> is a shift
  of an int, which overflows from 31 on.
\<close>

definition lowest_bit :: "u64 \<Rightarrow> u64 option" where
  "lowest_bit m = map_option (\<lambda>i. push_bit i 1) (find (\<lambda>i. m AND push_bit i 1 \<noteq> 0) [0..<64])"

definition regain_perfect_bit :: "htable \<Rightarrow> htable" where
  "regain_perfect_bit ht =
     (if ht_perfect_bit ht = 0 \<and> ht_common_mask ht \<noteq> 0
      then case lowest_bit (ht_common_mask ht) of
             None \<Rightarrow> ht
           | Some b \<Rightarrow> ht\<lparr>ht_perfect_bit := b\<rparr>
      else ht)"

fun readd_entries :: "rehash \<Rightarrow> u64 list \<Rightarrow> htable \<Rightarrow> htable option" where
  "readd_entries rehash [] ht = Some ht"
| "readd_entries rehash (e # old) ht =
     (if entry_is_valid e
      then let p = get_raw_ptr ht e
           in do { h \<leftarrow> rehash p; ht \<leftarrow> ht_add ht p h; readd_entries rehash old ht }
      else readd_entries rehash old ht)"

definition double_table :: "rehash \<Rightarrow> bool \<Rightarrow> htable \<Rightarrow> (bool \<times> htable) option" where
  "double_table rehash calloc_ok ht =
     (if ht_bits ht + 1 \<ge> 31 then None
      else if \<not> calloc_ok then Some (False, ht)
      else let oldtable = ht_table ht;
               bits = ht_bits ht + 1;
               ht = ht\<lparr>ht_table := Array (replicate (2 ^ bits) 0), ht_bits := bits,
                       ht_max := 3 * 2 ^ bits div 4,
                       ht_max_with_deleted := 9 * 2 ^ bits div 10\<rparr>;
               ht = regain_perfect_bit ht
           in do { ht \<leftarrow> (case oldtable of Perfect_bit \<Rightarrow> Some ht
                            | Array old \<Rightarrow> readd_entries rehash old ht);
                   Some (True, ht\<lparr>ht_deleted := 0\<rparr>) })"

text \<open>
  \<open>rehash_table\<close>: the walk starts at the first empty bucket (running off the table if there is
  none), goes round once, empties the deleted buckets and moves the entries that are not in
  their home bucket.
\<close>

partial_function (option) first_empty :: "htable \<Rightarrow> nat \<Rightarrow> nat option" where
  "first_empty ht start =
     do { e \<leftarrow> table_get ht start;
          if e \<noteq> 0 then first_empty ht (start + 1) else Some start }"

definition rehash_bucket :: "rehash \<Rightarrow> nat \<Rightarrow> htable \<Rightarrow> htable option" where
  "rehash_bucket rehash h ht =
     do { e \<leftarrow> table_get ht h;
          if e = 0 then Some ht
          else if e = HTABLE_DELETED then table_set ht h 0
          else if e AND ht_perfect_bit ht = 0
          then let p = get_raw_ptr ht e
               in do { ht \<leftarrow> table_set ht h 0; k \<leftarrow> rehash p; ht_add ht p k }
          else Some ht }"

fun rehash_buckets :: "rehash \<Rightarrow> nat \<Rightarrow> nat list \<Rightarrow> htable \<Rightarrow> htable option" where
  "rehash_buckets rehash start [] ht = Some ht"
| "rehash_buckets rehash start (i # is) ht =
     do { ht \<leftarrow> rehash_bucket rehash ((i + start) AND (push_bit (ht_bits ht) 1 - 1)) ht;
          rehash_buckets rehash start is ht }"

definition rehash_table :: "rehash \<Rightarrow> htable \<Rightarrow> htable option" where
  "rehash_table rehash ht =
     do { start \<leftarrow> first_empty ht 0;
          ht \<leftarrow> rehash_buckets rehash start [0..<2 ^ ht_bits ht] ht;
          Some (ht\<lparr>ht_deleted := 0\<rparr>) }"

text \<open>
  \<open>update_common\<close>: the first pointer reveals its highest bit (bit 0 if it has no other); a later
  one takes the bits it does not share out of the mask and puts them into the stored entries.
\<close>

definition reveal_bit :: "ptr \<Rightarrow> nat" where
  "reveal_bit p =
     (case find (\<lambda>i. p AND push_bit i 1 \<noteq> 0) (rev [1..<64]) of None \<Rightarrow> 0 | Some i \<Rightarrow> i)"

definition update_entry :: "u64 \<Rightarrow> u64 \<Rightarrow> u64 \<Rightarrow> u64" where
  "update_entry maskdiff bitsdiff e =
     (if \<not> entry_is_valid e then e else (e AND NOT maskdiff) OR bitsdiff)"

definition update_common :: "htable \<Rightarrow> ptr \<Rightarrow> htable" where
  "update_common ht p =
     (if ht_elems ht = 0
      then let mask = NOT (push_bit (reveal_bit p) 1)
           in ht\<lparr>ht_common_mask := mask, ht_common_bits := p AND mask, ht_perfect_bit := 1\<rparr>
      else let maskdiff = ht_common_bits ht XOR (p AND ht_common_mask ht);
               bitsdiff = ht_common_bits ht AND maskdiff;
               ht = (case ht_table ht of
                       Perfect_bit \<Rightarrow>
                         ht\<lparr>ht_perfect_bit := update_entry maskdiff bitsdiff (ht_perfect_bit ht)\<rparr>
                     | Array xs \<Rightarrow>
                         ht\<lparr>ht_table := Array (map (update_entry maskdiff bitsdiff) xs)\<rparr>)
           in ht\<lparr>ht_common_mask := ht_common_mask ht AND NOT maskdiff,
                 ht_common_bits := ht_common_bits ht AND NOT maskdiff,
                 ht_perfect_bit := ht_perfect_bit ht AND NOT maskdiff\<rparr>)"

definition htable_add :: "rehash \<Rightarrow> bool \<Rightarrow> htable \<Rightarrow> u64 \<Rightarrow> ptr \<Rightarrow> (bool \<times> htable) option" where
  "htable_add rehash calloc_ok ht hash p =
     do { (grown, ht) \<leftarrow> (if ht_elems ht + 1 > ht_max ht then double_table rehash calloc_ok ht
                            else Some (True, ht));
          if \<not> grown then Some (False, ht)
          else do {
            ht \<leftarrow> (if ht_elems ht + 1 + ht_deleted ht > ht_max_with_deleted ht
                    then rehash_table rehash ht else Some ht);
            if p = NULL then None
            else let ht = (if p AND ht_common_mask ht \<noteq> ht_common_bits ht
                           then update_common ht p else ht)
                 in do { ht \<leftarrow> ht_add ht p hash;
                         Some (True, ht\<lparr>ht_elems := ht_elems ht + 1\<rparr>) } } }"

section \<open>Deletion\<close>

text \<open>\<open>ht->elems--\<close> comes first; the table has an entry here, so the counter is not 0 in a table
  that counts its entries.\<close>

definition htable_delval :: "htable \<Rightarrow> nat \<Rightarrow> htable option" where
  "htable_delval ht off =
     (if off < 2 ^ ht_bits ht
      then do { e \<leftarrow> table_get ht off;
                if entry_is_valid e
                then do { ht \<leftarrow> table_set (ht\<lparr>ht_elems := ht_elems ht - 1\<rparr>) off HTABLE_DELETED;
                          Some (ht\<lparr>ht_deleted := ht_deleted ht + 1\<rparr>) }
                else None }
      else None)"

partial_function (option) htable_del_loop ::
  "htable \<Rightarrow> u64 \<Rightarrow> ptr \<Rightarrow> ptr \<Rightarrow> nat \<Rightarrow> (bool \<times> htable) option" where
  "htable_del_loop ht h p c off =
     (if c = NULL then Some (False, ht)
      else if c = p then do { ht \<leftarrow> htable_delval ht off; Some (True, ht) }
      else do { (c, off) \<leftarrow> htable_nextval ht off h; htable_del_loop ht h p c off })"

definition htable_del :: "htable \<Rightarrow> u64 \<Rightarrow> ptr \<Rightarrow> (bool \<times> htable) option" where
  "htable_del ht h p =
     do { (c, off) \<leftarrow> htable_firstval ht h; htable_del_loop ht h p c off }"

text \<open>The loops are executable by their equations.\<close>

declare htable_val_loop.simps [code] htable_get_loop.simps [code] htable_scan.simps [code]
  ht_add_loop.simps [code] first_empty.simps [code] htable_del_loop.simps [code]

end
