(* ===== verification/Ptr_Bag.thy ===== *)
theory Ptr_Bag
  imports Prelude
begin

text \<open>
  The interface between the hash table and the code that keeps its requests in one: a container
  of pointers with callbacks, and what its client proves from the laws alone: under one key per
  pointer, the container is a map from keys to pointers.
\<close>

section \<open>A container of pointers\<close>

text \<open>
  \<open>inv rh t\<close> is the provider's invariant under the hash callback \<open>rh\<close>, \<open>bag t\<close> the pointers in it,
  \<open>good\<close> the pointers that may go in, \<open>limit\<close> how many. A lookup with a comparison that holds of
  pointers of the searched hash only returns one of those it holds of, and NULL if there is none.
\<close>

locale ptr_bag =
  fixes inv :: "(ptr \<Rightarrow> u64 option) \<Rightarrow> 't \<Rightarrow> bool"
    and bag :: "'t \<Rightarrow> ptr multiset"
    and good :: "ptr \<Rightarrow> bool"
    and limit :: nat
    and empty :: 't
    and add :: "(ptr \<Rightarrow> u64 option) \<Rightarrow> bool \<Rightarrow> 't \<Rightarrow> u64 \<Rightarrow> ptr \<Rightarrow> (bool \<times> 't) option"
    and get :: "'t \<Rightarrow> u64 \<Rightarrow> (ptr \<Rightarrow> bool option) \<Rightarrow> ptr option"
    and del :: "'t \<Rightarrow> u64 \<Rightarrow> ptr \<Rightarrow> (bool \<times> 't) option"
  assumes empty_law: "inv rh empty \<and> bag empty = {#}"
    and cong_law: "inv rh t \<Longrightarrow> (\<And>p. p \<in># bag t \<Longrightarrow> rh' p = rh p) \<Longrightarrow> inv rh' t"
    and hashed_law: "inv rh t \<Longrightarrow> p \<in># bag t \<Longrightarrow> p \<noteq> NULL \<and> rh p \<noteq> None"
    and add_law: "inv rh t \<Longrightarrow> good p \<Longrightarrow> size (bag t) < limit \<Longrightarrow> rh p = Some h \<Longrightarrow>
      \<exists>t'. add rh True t h p = Some (True, t') \<and> inv rh t' \<and> bag t' = add_mset p (bag t)"
    and get_law: "inv rh t \<Longrightarrow> (\<And>p. p \<in># bag t \<Longrightarrow> cmp p \<noteq> None) \<Longrightarrow>
      (\<And>p. p \<in># bag t \<Longrightarrow> cmp p = Some True \<Longrightarrow> rh p = Some h) \<Longrightarrow>
      \<exists>r. get t h cmp = Some r \<and>
        (if \<exists>p. p \<in># bag t \<and> cmp p = Some True then r \<in># bag t \<and> cmp r = Some True else r = NULL)"
    and del_law: "inv rh t \<Longrightarrow> p \<in># bag t \<Longrightarrow> rh p = Some h \<Longrightarrow>
      \<exists>t'. del t h p = Some (True, t') \<and> inv rh t' \<and> bag t' = bag t - {#p#}"
begin

text \<open>
  \<open>maps hk key t m\<close>: the pointers in \<open>t\<close> are the values of the map \<open>m\<close>, each once, each under the
  key that \<open>key\<close> reads from the memory it points to; the callback hashes that key with \<open>hk\<close>.
\<close>

definition maps :: "('k \<Rightarrow> u64) \<Rightarrow> (ptr \<Rightarrow> 'k option) \<Rightarrow> 't \<Rightarrow> ('k \<rightharpoonup> ptr) \<Rightarrow> bool" where
  "maps hk key t m \<longleftrightarrow> inv (\<lambda>p. map_option hk (key p)) t \<and>
     (\<forall>p. count (bag t) p = (if p \<in> ran m then 1 else 0)) \<and> (\<forall>k p. m k = Some p \<longrightarrow> key p = Some k)"

lemma mapsD:
  assumes "maps hk key t m"
  shows "inv (\<lambda>p. map_option hk (key p)) t" "m k = Some p \<Longrightarrow> key p = Some k"
    "p \<in># bag t \<longleftrightarrow> p \<in> ran m"
  using assms unfolding maps_def by (simp_all) (metis count_eq_zero_iff zero_neq_one)

lemma maps_key:
  assumes "maps hk key t m" "p \<in># bag t"
  shows "\<exists>k. m k = Some p \<and> key p = Some k"
proof -
  obtain k where "m k = Some p" using mapsD(3) [OF assms(1)] assms(2) by (auto simp: ran_def)
  then show ?thesis using mapsD(2) [OF assms(1)] by blast
qed

lemma maps_not_NULL:
  assumes "maps hk key t m" "m k = Some p"
  shows "p \<noteq> NULL"
proof -
  have "p \<in># bag t" using mapsD(3) [OF assms(1)] assms(2) by (auto simp: ran_def)
  then show ?thesis using hashed_law [OF mapsD(1) [OF assms(1)]] by blast
qed

lemma maps_empty: "maps hk key empty Map.empty"
  using empty_law by (simp add: maps_def)

lemma maps_cong:
  assumes m: "maps hk key t m" and key': "\<And>p. p \<in> ran m \<Longrightarrow> key' p = key p"
  shows "maps hk key' t m"
proof -
  have "inv (\<lambda>p. map_option hk (key' p)) t"
  proof (rule cong_law [OF mapsD(1) [OF m]])
    fix p
    assume "p \<in># bag t"
    then show "map_option hk (key' p) = map_option hk (key p)" using mapsD(3) [OF m] key' by simp
  qed
  moreover have "key' p = Some k" if "m k = Some p" for k p
    using mapsD(2) [OF m that] key' [of p] that by (auto simp: ran_def)
  ultimately show ?thesis using m by (simp add: maps_def)
qed

lemma get_maps:
  assumes m: "maps hk key t m"
  shows "get t (hk k) (\<lambda>p. map_option (\<lambda>x. x = k) (key p)) = Some (case m k of None \<Rightarrow> NULL | Some p \<Rightarrow> p)"
proof -
  let ?cmp = "\<lambda>p. map_option (\<lambda>x. x = k) (key p)"
  have known: "\<exists>x. m x = Some p \<and> key p = Some x" if "p \<in># bag t" for p
    using maps_key [OF m that] .
  have "\<exists>r. get t (hk k) ?cmp = Some r \<and>
      (if \<exists>p. p \<in># bag t \<and> ?cmp p = Some True then r \<in># bag t \<and> ?cmp r = Some True else r = NULL)"
  proof (rule get_law)
    show "inv (\<lambda>p. map_option hk (key p)) t" by (rule mapsD(1) [OF m])
  qed (use known in fastforce)+
  then obtain r where r: "get t (hk k) ?cmp = Some r"
    "if \<exists>p. p \<in># bag t \<and> ?cmp p = Some True then r \<in># bag t \<and> ?cmp r = Some True else r = NULL"
    by blast
  show ?thesis
  proof (cases "m k")
    case None
    then have "\<not> (\<exists>p. p \<in># bag t \<and> ?cmp p = Some True)" using known by fastforce
    with r None show ?thesis by simp
  next
    case (Some p)
    then have "p \<in># bag t" "key p = Some k" using mapsD(2,3) [OF m] by (auto simp: ran_def)
    then have "r \<in># bag t" "?cmp r = Some True" using r(2) by (auto split: if_splits)
    then have "m k = Some r" using known [of r] by auto
    with r(1) Some show ?thesis by simp
  qed
qed

lemma add_maps:
  assumes m: "maps hk key t m" and "m k = None" "p \<notin> ran m" "good p" "size (bag t) < limit"
    and key': "key' p = Some k" "\<And>q. q \<in> ran m \<Longrightarrow> key' q = key q"
  shows "\<exists>t'. add (\<lambda>p. map_option hk (key' p)) True t (hk k) p = Some (True, t') \<and>
    maps hk key' t' (m(k \<mapsto> p)) \<and> bag t' = add_mset p (bag t)"
proof -
  have "maps hk key' t m" using maps_cong [OF m] key'(2) by blast
  then have "inv (\<lambda>p. map_option hk (key' p)) t" by (simp add: maps_def)
  from add_law [OF this assms(4,5), of "hk k"] key'(1) obtain t' where t':
    "add (\<lambda>p. map_option hk (key' p)) True t (hk k) p = Some (True, t')"
    "inv (\<lambda>p. map_option hk (key' p)) t'" "bag t' = add_mset p (bag t)" by auto
  have "ran (m(k \<mapsto> p)) = insert p (ran m)" using assms(2) by simp
  then have "maps hk key' t' (m(k \<mapsto> p))"
    using \<open>maps hk key' t m\<close> t' assms(3) key'(1) by (auto simp: maps_def)
  with t' show ?thesis by blast
qed

lemma del_maps:
  assumes m: "maps hk key t m" and p: "m k = Some p"
  shows "\<exists>t'. del t (hk k) p = Some (True, t') \<and> maps hk key t' (m(k := None)) \<and> bag t' = bag t - {#p#}"
proof -
  have in_t: "p \<in># bag t" "key p = Some k" using mapsD(2,3) [OF m] p by (auto simp: ran_def)
  from del_law [OF mapsD(1) [OF m] in_t(1), of "hk k"] in_t(2) obtain t' where t':
    "del t (hk k) p = Some (True, t')" "inv (\<lambda>p. map_option hk (key p)) t'" "bag t' = bag t - {#p#}"
    by auto
  have ran: "q \<in> ran (m(k := None)) \<longleftrightarrow> q \<in> ran m \<and> q \<noteq> p" for q
  proof
    assume "q \<in> ran (m(k := None))"
    then obtain x where "x \<noteq> k" "m x = Some q" by (auto simp: ran_def split: if_splits)
    then show "q \<in> ran m \<and> q \<noteq> p"
      using mapsD(2) [OF m, of x q] mapsD(2) [OF m p] by (auto intro: ranI)
  next
    assume q: "q \<in> ran m \<and> q \<noteq> p"
    then obtain x where "m x = Some q" by (auto simp: ran_def)
    with q p have "(m(k := None)) x = Some q" by auto
    then show "q \<in> ran (m(k := None))" by (rule ranI)
  qed
  have "count (bag t') q = (if q \<in> ran (m(k := None)) then 1 else 0)" for q
    using m t'(3) unfolding ran by (auto simp: maps_def)
  moreover have "key q = Some x" if "(m(k := None)) x = Some q" for x q
    using mapsD(2) [OF m] that by (auto split: if_splits)
  ultimately have "maps hk key t' (m(k := None))" using t'(2) by (simp add: maps_def)
  with t' show ?thesis by blast
qed

end

end
