(* ===== verification/Htable_Inv.thy ===== *)
theory Htable_Inv
  imports Htable Ptr_Bag
begin

unbundle bit_operations_syntax

text \<open>
  Correctness of the hash table. \<open>ptrs\<close> is the multiset of pointers a table holds, \<open>ht_inv\<close> the
  invariant: every entry can be turned back into its pointer, carries the bits of its hash, and
  is reached from its home bucket without meeting an empty one; the counters bound the number of
  buckets in use, so a search always ends.
\<close>

section \<open>Words as sets of bits\<close>

lemma word_gt_1: "1 < w \<longleftrightarrow> (\<exists>k>0. bit w k)" for w :: u64
proof
  assume "1 < w"
  show "\<exists>k>0. bit w k"
  proof (rule ccontr)
    assume low: "\<not> ?thesis"
    then have high: "\<not> bit w n" if "n > 0" for n using that by blast
    have "bit w n \<longleftrightarrow> bit (if bit w 0 then 1 else 0 :: u64) n" for n
      using high [of n] by (cases "n = 0") (simp_all add: bit_1_iff)
    then have "w = (if bit w 0 then 1 else 0)"
      by (intro bit_word_eqI) blast
    with \<open>1 < w\<close> show False by (cases "bit w 0") simp_all
  qed
next
  assume "\<exists>k>0. bit w k"
  then have "w \<noteq> 0" "w \<noteq> 1" by (auto simp: bit_1_iff)
  then show "1 < w" by (metis linorder_neqE word_less_1)
qed

lemma and_not_0_bits: "a AND NOT b = 0 \<longleftrightarrow> (\<forall>k. bit a k \<longrightarrow> bit b k)" for a b :: u64
proof
  assume "a AND NOT b = 0"
  then have diff: "\<not> bit (a AND NOT b) k" for k by simp
  show "\<forall>k. bit a k \<longrightarrow> bit b k"
  proof (intro allI impI)
    fix k
    assume "bit a k"
    then have "k < 64" using bit_imp_le_length [of a k] by simp
    with diff [of k] \<open>bit a k\<close> show "bit b k" by (simp add: bit_simps)
  qed
next
  assume "\<forall>k. bit a k \<longrightarrow> bit b k"
  then show "a AND NOT b = 0"
    by (intro bit_word_eqI) (simp add: bit_simps)
qed

section \<open>Entries\<close>

text \<open>The bits that all pointers share, and the perfect bit, are bits that the entries do not store.\<close>

definition masks_ok :: "htable \<Rightarrow> bool" where
  "masks_ok ht \<longleftrightarrow> ht_common_bits ht AND NOT (ht_common_mask ht) = 0
     \<and> ht_perfect_bit ht AND NOT (ht_common_mask ht) = 0"

lemma masks_ok_bits:
  "masks_ok ht \<longleftrightarrow>
     (\<forall>k. bit (ht_common_bits ht) k \<longrightarrow> bit (ht_common_mask ht) k) \<and>
     (\<forall>k. bit (ht_perfect_bit ht) k \<longrightarrow> bit (ht_common_mask ht) k)"
  by (simp add: masks_ok_def and_not_0_bits)

text \<open>
  A stored word is good in bucket \<open>i\<close> if its pointer has a hash, its spare bits are those of the hash
  and tell whether \<open>i\<close> is the home bucket, and the bits it keeps of the pointer make it
  different from the two marks 0 and 1.
\<close>

definition entry_ok :: "rehash \<Rightarrow> htable \<Rightarrow> nat \<Rightarrow> u64 \<Rightarrow> bool" where
  "entry_ok rh ht i e \<longleftrightarrow>
     (case rh (get_raw_ptr ht e) of
        None \<Rightarrow> False
      | Some h \<Rightarrow> get_extra_ptr_bits ht e
                   = get_hash_ptr_bits ht h OR (if hash_bucket ht h = i then ht_perfect_bit ht else 0))
     \<and> 1 < e AND NOT (ht_common_mask ht)"

definition home :: "rehash \<Rightarrow> htable \<Rightarrow> u64 \<Rightarrow> nat" where
  "home rh ht e = hash_bucket ht (the (rh (get_raw_ptr ht e)))"

lemma entry_okD:
  assumes "entry_ok rh ht i e"
  shows "rh (get_raw_ptr ht e) = Some (the (rh (get_raw_ptr ht e)))"
    and "get_extra_ptr_bits ht e = get_hash_ptr_bits ht (the (rh (get_raw_ptr ht e)))
           OR (if home rh ht e = i then ht_perfect_bit ht else 0)"
    and "1 < e AND NOT (ht_common_mask ht)"
  using assms by (auto simp: entry_ok_def home_def split: option.splits)

lemma kept_bits_valid: "1 < e AND NOT m \<Longrightarrow> entry_is_valid e" for e :: u64
  unfolding entry_is_valid_def HTABLE_DELETED_def word_gt_1 by (auto simp: bit_simps)

lemma hash_bucket_less: "hash_bucket ht h < 2 ^ ht_bits ht"
  by (simp add: hash_bucket_def)

lemma home_less: "home rh ht e < 2 ^ ht_bits ht"
  by (simp add: home_def hash_bucket_less)

lemma get_hash_ptr_bits_bit:
  "bit (get_hash_ptr_bits ht h) k \<longleftrightarrow>
     (bit h k \<noteq> bit h (ht_bits ht + k)) \<and> bit (ht_common_mask ht) k \<and> \<not> bit (ht_perfect_bit ht) k"
  by (auto simp: get_hash_ptr_bits_def bit_simps dest: bit_imp_le_length)

text \<open>What \<open>make_hval\<close> packs, the accessors unpack.\<close>

lemma make_hval_roundtrip:
  assumes "p AND ht_common_mask ht = ht_common_bits ht" "extra AND NOT (ht_common_mask ht) = 0"
  shows "get_raw_ptr ht (make_hval ht p extra) = p"
    and "get_extra_ptr_bits ht (make_hval ht p extra) = extra"
    and "make_hval ht p extra AND NOT (ht_common_mask ht) = p AND NOT (ht_common_mask ht)"
  using assms unfolding get_raw_ptr_def get_extra_ptr_bits_def make_hval_def
  by (simp_all add: bit_eq_iff bit_simps) blast+

lemma new_entry_ok:
  assumes "masks_ok ht" "p AND ht_common_mask ht = ht_common_bits ht"
    "1 < p AND NOT (ht_common_mask ht)" "rh p = Some h"
    "e = make_hval ht p (get_hash_ptr_bits ht h OR (if hash_bucket ht h = i then ht_perfect_bit ht else 0))"
  shows "entry_ok rh ht i e" "get_raw_ptr ht e = p" "home rh ht e = hash_bucket ht h"
proof -
  let ?x = "get_hash_ptr_bits ht h OR (if hash_bucket ht h = i then ht_perfect_bit ht else 0)"
  have "?x AND NOT (ht_common_mask ht) = 0"
    using assms(1) by (auto simp: masks_ok_bits bit_eq_iff bit_simps get_hash_ptr_bits_bit)
  note e = make_hval_roundtrip [OF assms(2) this]
  show "entry_ok rh ht i e" "get_raw_ptr ht e = p" "home rh ht e = hash_bucket ht h"
    using e assms(3-5) by (simp_all add: entry_ok_def home_def)
qed

text \<open>An entry is in its home bucket exactly if it has the perfect bit, where there is one.\<close>

lemma perfect_iff_home:
  assumes "entry_ok rh ht i e" "masks_ok ht" "ht_perfect_bit ht \<noteq> 0"
  shows "e AND ht_perfect_bit ht \<noteq> 0 \<longleftrightarrow> home rh ht e = i"
proof -
  have "e AND ht_perfect_bit ht = get_extra_ptr_bits ht e AND ht_perfect_bit ht"
    using assms(2) unfolding get_extra_ptr_bits_def masks_ok_bits
    by (intro bit_word_eqI) (auto simp: bit_simps)
  also have "\<dots> = (if home rh ht e = i then ht_perfect_bit ht else 0)"
    unfolding entry_okD(2) [OF assms(1)]
    by (intro bit_word_eqI) (auto simp: bit_simps get_hash_ptr_bits_bit)
  finally show ?thesis using assms(3) by simp
qed

lemma raw_ptr_common:
  assumes "masks_ok ht"
  shows "get_raw_ptr ht e AND ht_common_mask ht = ht_common_bits ht"
    and "get_raw_ptr ht e AND NOT (ht_common_mask ht) = e AND NOT (ht_common_mask ht)"
  using assms unfolding get_raw_ptr_def masks_ok_bits
  by (auto intro!: bit_word_eqI simp: bit_simps)

section \<open>Searching\<close>

text \<open>The buckets of either kind of table; the table of a fresh hash table is one empty bucket.\<close>

definition slots :: "htable \<Rightarrow> u64 list" where
  "slots ht = (case ht_table ht of Perfect_bit \<Rightarrow> [ht_perfect_bit ht] | Array xs \<Rightarrow> xs)"

abbreviation (input) size_of :: "htable \<Rightarrow> nat" where "size_of ht \<equiv> 2 ^ ht_bits ht"

text \<open>The bucket \<open>k\<close> steps after bucket \<open>b\<close>.\<close>

definition slot :: "htable \<Rightarrow> nat \<Rightarrow> nat \<Rightarrow> u64" where
  "slot ht b k = slots ht ! ((b + k) mod size_of ht)"

lemma table_get_slots: "table_get ht i = (if i < length (slots ht) then Some (slots ht ! i) else None)"
  by (simp add: table_get_def slots_def split: buckets.splits)

lemma table_get_slot: "length (slots ht) = size_of ht \<Longrightarrow> table_get ht ((b + k) mod size_of ht) = Some (slot ht b k)"
  by (simp add: table_get_slots slot_def)

lemma next_off_mod: "next_off ht ((b + k) mod size_of ht) = (b + Suc k) mod size_of ht"
  unfolding next_off_def by (simp add: mod_simps)

lemma hash_bucket_mod [simp]: "hash_bucket ht h mod size_of ht = hash_bucket ht h"
  by (simp add: hash_bucket_less)

text \<open>\<open>free_at ht b d\<close>: the first empty bucket from \<open>b\<close> on is \<open>d\<close> steps away.\<close>

definition free_at :: "htable \<Rightarrow> nat \<Rightarrow> nat \<Rightarrow> bool" where
  "free_at ht b d \<longleftrightarrow> d < size_of ht \<and> slot ht b d = 0 \<and> (\<forall>k<d. slot ht b k \<noteq> 0)"

lemma slot_dist: "b < size_of ht \<Longrightarrow> i < size_of ht \<Longrightarrow> slot ht b (dist (size_of ht) b i) = slots ht ! i"
  by (simp add: slot_def add_dist)

lemma first_step:
  assumes "i < size_of ht" "b < size_of ht" "P (slots ht ! i)"
  obtains d where "d < size_of ht" "P (slot ht b d)" "\<forall>k<d. \<not> P (slot ht b k)"
proof -
  let ?d = "LEAST k. P (slot ht b k)"
  have P: "P (slot ht b (dist (size_of ht) b i))"
    using assms by (simp add: slot_dist)
  then have "P (slot ht b ?d)" by (rule LeastI)
  moreover have "?d \<le> dist (size_of ht) b i" using P by (rule Least_le)
  then have "?d < size_of ht" using dist_less [of "size_of ht" b i] by (simp del: dist_less)
  moreover have "\<forall>k < ?d. \<not> P (slot ht b k)" using not_less_Least by blast
  ultimately show thesis using that by blast
qed

lemma free_atE:
  assumes "\<exists>i < size_of ht. slots ht ! i = 0" "b < size_of ht"
  obtains d where "free_at ht b d"
  using assms first_step [of _ ht b "\<lambda>e. e = 0"] unfolding free_at_def by metis

text \<open>A hit is a bucket at which \<open>htable_val\<close> stops for the hash \<open>h\<close>.\<close>

definition hit :: "htable \<Rightarrow> u64 \<Rightarrow> nat \<Rightarrow> bool" where
  "hit ht h j \<longleftrightarrow> slot ht (hash_bucket ht h) j \<noteq> HTABLE_DELETED \<and>
     get_extra_ptr_bits ht (slot ht (hash_bucket ht h) j)
       = get_hash_ptr_bits ht h OR (if j = 0 then ht_perfect_bit ht else 0)"

definition candidate :: "htable \<Rightarrow> u64 \<Rightarrow> nat \<Rightarrow> nat \<Rightarrow> ptr \<times> nat" where
  "candidate ht h d k =
     (let b = hash_bucket ht h in
      case find (hit ht h) [k..<d] of
        None \<Rightarrow> (NULL, (b + d) mod size_of ht)
      | Some j \<Rightarrow> (get_raw_ptr ht (slot ht b j), (b + j) mod size_of ht))"

lemma htable_val_loop_hits:
  assumes sized: "length (slots ht) = size_of ht" and free: "free_at ht (hash_bucket ht h) d"
    and "k \<le> d" "h2 = get_hash_ptr_bits ht h OR (if k = 0 then ht_perfect_bit ht else 0)"
    "h2 AND NOT perfect = get_hash_ptr_bits ht h"
  shows "htable_val_loop ht perfect ((hash_bucket ht h + k) mod size_of ht) h2
    = Some (candidate ht h d k)"
  using assms(3-)
proof (induction "d - k" arbitrary: k h2)
  case 0
  then show ?case
    using free by (subst htable_val_loop.simps)
      (simp add: table_get_slot [OF sized] free_at_def candidate_def Let_def)
next
  case (Suc x)
  let ?b = "hash_bucket ht h"
  have more: "k < d" "x = d - Suc k" using Suc.hyps(2) by auto
  have nz: "slot ht ?b k \<noteq> 0" using free more by (simp add: free_at_def)
  have rest: "htable_val_loop ht perfect ((?b + Suc k) mod size_of ht) (get_hash_ptr_bits ht h)
      = Some (candidate ht h d (Suc k))"
  proof (rule Suc.hyps(1))
    show "get_hash_ptr_bits ht h AND NOT perfect = get_hash_ptr_bits ht h"
      unfolding Suc.prems(3) [symmetric] by (simp add: and.assoc)
  qed (use more in simp_all)
  show ?case
  proof (cases "hit ht h k")
    case True
    then show ?thesis
      using nz more Suc.prems(2) by (subst htable_val_loop.simps)
        (simp add: table_get_slot [OF sized] candidate_def hit_def find_upt_step [of _ k d] Let_def)
  next
    case False
    have "htable_val_loop ht perfect ((?b + k) mod size_of ht) h2
        = htable_val_loop ht perfect ((?b + Suc k) mod size_of ht) (h2 AND NOT perfect)"
      using nz False Suc.prems(2) by (subst htable_val_loop.simps)
        (auto simp: table_get_slot [OF sized] hit_def next_off_mod)
    also have "\<dots> = Some (candidate ht h d (Suc k))"
      using rest Suc.prems(3) by simp
    also have "candidate ht h d (Suc k) = candidate ht h d k"
      using False more by (simp add: candidate_def find_upt_step [of _ k d] Let_def)
    finally show ?thesis .
  qed
qed

lemma hash_bits_perfect:
  "(get_hash_ptr_bits ht h OR ht_perfect_bit ht) AND NOT (ht_perfect_bit ht) = get_hash_ptr_bits ht h"
  by (rule bit_word_eqI) (auto simp: bit_simps get_hash_ptr_bits_bit)

lemma htable_firstval_candidate:
  assumes "length (slots ht) = size_of ht" "free_at ht (hash_bucket ht h) d"
  shows "htable_firstval ht h = Some (candidate ht h d 0)"
  using htable_val_loop_hits [OF assms, of 0 "get_hash_ptr_bits ht h OR ht_perfect_bit ht" "ht_perfect_bit ht"]
  by (simp add: htable_firstval_def htable_val_def hash_bits_perfect)

lemma htable_nextval_candidate:
  assumes "length (slots ht) = size_of ht" "free_at ht (hash_bucket ht h) d" "j < d"
  shows "htable_nextval ht ((hash_bucket ht h + j) mod size_of ht) h = Some (candidate ht h d (Suc j))"
  using htable_val_loop_hits [OF assms(1,2), of "Suc j" "get_hash_ptr_bits ht h" 0] assms(3)
  by (simp add: htable_nextval_def htable_val_def next_off_mod [of ht _ j, simplified])

text \<open>
  Both loops over the candidates, \<open>htable_get\<close> and \<open>htable_del\<close>, stop at the first hit that
  satisfies their test.
\<close>

definition entry_at :: "htable \<Rightarrow> u64 \<Rightarrow> nat \<Rightarrow> ptr" where
  "entry_at ht h j = get_raw_ptr ht (slot ht (hash_bucket ht h) j)"

definition first_hit :: "htable \<Rightarrow> u64 \<Rightarrow> (ptr \<Rightarrow> bool) \<Rightarrow> nat \<Rightarrow> nat \<Rightarrow> nat option" where
  "first_hit ht h P d k = find (\<lambda>j. hit ht h j \<and> P (entry_at ht h j)) [k..<d]"

lemma candidate_cases:
  obtains (stop) "candidate ht h d k = (NULL, (hash_bucket ht h + d) mod size_of ht)"
      "first_hit ht h P d k = None"
  | (hit) j where "candidate ht h d k = (entry_at ht h j, (hash_bucket ht h + j) mod size_of ht)"
      "k \<le> j" "j < d" "hit ht h j"
      "first_hit ht h P d k = (if P (entry_at ht h j) then Some j else first_hit ht h P d (Suc j))"
proof (cases "find (hit ht h) [k..<d]")
  case None
  then have "candidate ht h d k = (NULL, (hash_bucket ht h + d) mod size_of ht)"
    by (simp add: candidate_def)
  moreover from None have "first_hit ht h P d k = None"
    by (simp add: first_hit_def find_upt_None_iff)
  ultimately show ?thesis by (rule stop)
next
  case (Some j)
  then have j: "k \<le> j" "j < d" "hit ht h j" "\<And>i. k \<le> i \<Longrightarrow> i < j \<Longrightarrow> \<not> hit ht h i"
    by (auto simp: find_upt_Some_iff)
  have "first_hit ht h P d k = first_hit ht h P d j"
    unfolding first_hit_def by (rule find_upt_skip) (use j in auto)
  with j Some show ?thesis
    by (intro hit [of j])
      (simp_all add: candidate_def Let_def entry_at_def first_hit_def find_upt_step [of _ j d])
qed

lemma htable_get_loop_first_hit:
  assumes "length (slots ht) = size_of ht" "free_at ht (hash_bucket ht h) d"
    and ok: "\<And>j. j < d \<Longrightarrow> hit ht h j \<Longrightarrow> entry_at ht h j \<noteq> NULL \<and> cmp (entry_at ht h j) \<noteq> None"
  shows "(case candidate ht h d k of (c, off) \<Rightarrow> htable_get_loop ht h cmp c off)
    = Some (case first_hit ht h (\<lambda>c. cmp c = Some True) d k of None \<Rightarrow> NULL | Some j \<Rightarrow> entry_at ht h j)"
proof (induction "d - k" arbitrary: k rule: less_induct)
  case less
  show ?case
  proof (cases rule: candidate_cases [where ht = ht and h = h and d = d and k = k and P = "\<lambda>c. cmp c = Some True"])
    case stop
    then show ?thesis by (simp add: htable_get_loop.simps)
  next
    case (hit j)
    have "entry_at ht h j \<noteq> NULL" "cmp (entry_at ht h j) \<noteq> None" using ok hit by blast+
    moreover have "d - Suc j < d - k" using hit by simp
    note less.hyps [OF this]
    ultimately show ?thesis
      using hit by (cases "cmp (entry_at ht h j)")
        (auto simp: htable_get_loop.simps [of _ _ _ "entry_at ht h j"]
          htable_nextval_candidate [OF assms(1,2)] split: prod.splits)
  qed
qed

lemma htable_get_first_hit:
  assumes "length (slots ht) = size_of ht" "free_at ht (hash_bucket ht h) d"
    and "\<And>j. j < d \<Longrightarrow> hit ht h j \<Longrightarrow> entry_at ht h j \<noteq> NULL \<and> cmp (entry_at ht h j) \<noteq> None"
  shows "htable_get ht h cmp
    = Some (case first_hit ht h (\<lambda>c. cmp c = Some True) d 0 of None \<Rightarrow> NULL | Some j \<Rightarrow> entry_at ht h j)"
  using htable_get_loop_first_hit [OF assms, of 0]
  by (simp add: htable_get_def htable_firstval_candidate [OF assms(1,2)])

lemma htable_del_loop_first_hit:
  assumes "length (slots ht) = size_of ht" "free_at ht (hash_bucket ht h) d"
    and ok: "\<And>j. j < d \<Longrightarrow> hit ht h j \<Longrightarrow> entry_at ht h j \<noteq> NULL"
  shows "(case candidate ht h d k of (c, off) \<Rightarrow> htable_del_loop ht h p c off)
    = (case first_hit ht h (\<lambda>c. c = p) d k of
         None \<Rightarrow> Some (False, ht)
       | Some j \<Rightarrow> map_option (Pair True) (htable_delval ht ((hash_bucket ht h + j) mod size_of ht)))"
proof (induction "d - k" arbitrary: k rule: less_induct)
  case less
  show ?case
  proof (cases rule: candidate_cases [where ht = ht and h = h and d = d and k = k and P = "\<lambda>c. c = p"])
    case stop
    then show ?thesis by (simp add: htable_del_loop.simps)
  next
    case (hit j)
    have "entry_at ht h j \<noteq> NULL" using ok hit by blast
    moreover have "d - Suc j < d - k" using hit by simp
    note less.hyps [OF this]
    ultimately show ?thesis
      using hit by (auto simp: htable_del_loop.simps [of _ _ _ "entry_at ht h j"]
          htable_nextval_candidate [OF assms(1,2)] map_option_case split: prod.splits option.splits)
  qed
qed

lemma htable_del_first_hit:
  assumes "length (slots ht) = size_of ht" "free_at ht (hash_bucket ht h) d"
    and "\<And>j. j < d \<Longrightarrow> hit ht h j \<Longrightarrow> entry_at ht h j \<noteq> NULL"
  shows "htable_del ht h p = (case first_hit ht h (\<lambda>c. c = p) d 0 of
      None \<Rightarrow> Some (False, ht)
    | Some j \<Rightarrow> map_option (Pair True) (htable_delval ht ((hash_bucket ht h + j) mod size_of ht)))"
  using htable_del_loop_first_hit [OF assms, of p 0]
  by (simp add: htable_del_def htable_firstval_candidate [OF assms(1,2)])

section \<open>The invariant\<close>

text \<open>The counters and the array do not affect how words are packed.\<close>

lemma same_packing [simp]:
  "get_raw_ptr (ht\<lparr>ht_table := t\<rparr>) = get_raw_ptr ht" "get_raw_ptr (ht\<lparr>ht_elems := n\<rparr>) = get_raw_ptr ht"
  "get_raw_ptr (ht\<lparr>ht_deleted := n\<rparr>) = get_raw_ptr ht"
  "get_extra_ptr_bits (ht\<lparr>ht_table := t\<rparr>) = get_extra_ptr_bits ht"
  "get_extra_ptr_bits (ht\<lparr>ht_elems := n\<rparr>) = get_extra_ptr_bits ht"
  "get_extra_ptr_bits (ht\<lparr>ht_deleted := n\<rparr>) = get_extra_ptr_bits ht"
  "get_hash_ptr_bits (ht\<lparr>ht_table := t\<rparr>) = get_hash_ptr_bits ht"
  "get_hash_ptr_bits (ht\<lparr>ht_elems := n\<rparr>) = get_hash_ptr_bits ht"
  "get_hash_ptr_bits (ht\<lparr>ht_deleted := n\<rparr>) = get_hash_ptr_bits ht"
  "hash_bucket (ht\<lparr>ht_table := t\<rparr>) = hash_bucket ht" "hash_bucket (ht\<lparr>ht_elems := n\<rparr>) = hash_bucket ht"
  "hash_bucket (ht\<lparr>ht_deleted := n\<rparr>) = hash_bucket ht"
  by (simp_all add: fun_eq_iff get_raw_ptr_def get_extra_ptr_bits_def get_hash_ptr_bits_def hash_bucket_def)

lemma same_entries [simp]:
  "home rh (ht\<lparr>ht_table := t\<rparr>) = home rh ht" "home rh (ht\<lparr>ht_elems := n\<rparr>) = home rh ht"
  "home rh (ht\<lparr>ht_deleted := n\<rparr>) = home rh ht"
  "entry_ok rh (ht\<lparr>ht_table := t\<rparr>) = entry_ok rh ht" "entry_ok rh (ht\<lparr>ht_elems := n\<rparr>) = entry_ok rh ht"
  "entry_ok rh (ht\<lparr>ht_deleted := n\<rparr>) = entry_ok rh ht"
  "masks_ok (ht\<lparr>ht_table := t\<rparr>) = masks_ok ht" "masks_ok (ht\<lparr>ht_elems := n\<rparr>) = masks_ok ht"
  "masks_ok (ht\<lparr>ht_deleted := n\<rparr>) = masks_ok ht"
  by (simp_all add: fun_eq_iff home_def entry_ok_def masks_ok_def split: option.split)

lemma slots_simps [simp]:
  "slots (ht\<lparr>ht_table := Array xs\<rparr>) = xs" "slots (ht\<lparr>ht_elems := n\<rparr>) = slots ht"
  "slots (ht\<lparr>ht_deleted := n\<rparr>) = slots ht" "ht_table ht = Array xs \<Longrightarrow> slots ht = xs"
  "slot (ht\<lparr>ht_elems := n\<rparr>) = slot ht" "slot (ht\<lparr>ht_deleted := n\<rparr>) = slot ht"
  by (simp_all add: fun_eq_iff slot_def slots_def split: buckets.split)

text \<open>\<open>chain ht b i\<close>: no empty bucket on the way from bucket \<open>b\<close> to bucket \<open>i\<close>.\<close>

definition chain :: "htable \<Rightarrow> nat \<Rightarrow> nat \<Rightarrow> bool" where
  "chain ht b i \<longleftrightarrow> (\<forall>k < dist (size_of ht) b i. slot ht b k \<noteq> 0)"

definition slots_ok :: "rehash \<Rightarrow> htable \<Rightarrow> bool" where
  "slots_ok rh ht \<longleftrightarrow> length (slots ht) = size_of ht \<and> masks_ok ht \<and>
     (\<forall>i < size_of ht. entry_is_valid (slots ht ! i) \<longrightarrow>
        entry_ok rh ht i (slots ht ! i) \<and> chain ht (home rh ht (slots ht ! i)) i)"

definition ptrs_of :: "htable \<Rightarrow> u64 list \<Rightarrow> ptr multiset" where
  "ptrs_of ht xs = image_mset (get_raw_ptr ht) (filter_mset entry_is_valid (mset xs))"

definition ptrs :: "htable \<Rightarrow> ptr multiset" where
  "ptrs ht = ptrs_of ht (slots ht)"

text \<open>How many buckets hold the mark of a deleted entry.\<close>

definition marks :: "u64 list \<Rightarrow> nat" where
  "marks xs = count (mset xs) HTABLE_DELETED"

definition ht_inv :: "rehash \<Rightarrow> htable \<Rightarrow> bool" where
  "ht_inv rh ht \<longleftrightarrow> slots_ok rh ht \<and>
     (case ht_table ht of
        Perfect_bit \<Rightarrow> ht = htable_init
      | Array xs \<Rightarrow> 1 \<le> ht_bits ht \<and> ht_bits ht \<le> 30 \<and> ht_max ht = 3 * size_of ht div 4
          \<and> ht_max_with_deleted ht = 9 * size_of ht div 10) \<and>
     ht_elems ht = size (ptrs ht) \<and> ht_elems ht \<le> ht_max ht \<and>
     marks (slots ht) \<le> ht_deleted ht \<and> ht_elems ht + ht_deleted ht \<le> ht_max_with_deleted ht"

lemma entry_cases: "entry_is_valid e \<longleftrightarrow> e \<noteq> 0 \<and> e \<noteq> HTABLE_DELETED"
proof (cases "e = 0 \<or> e = 1")
  case False
  then have "1 < e" by (metis linorder_neqE word_less_1)
  with False show ?thesis by (simp add: entry_is_valid_def HTABLE_DELETED_def)
qed (auto simp: entry_is_valid_def HTABLE_DELETED_def)

lemma not_valid_marks [simp]: "\<not> entry_is_valid 0" "\<not> entry_is_valid HTABLE_DELETED"
  by (simp_all add: entry_cases)

lemma HTABLE_DELETED_nonzero [simp]: "HTABLE_DELETED \<noteq> 0"
  by (simp add: HTABLE_DELETED_def)

lemma size_slots: "length xs = size (ptrs_of ht xs) + marks xs + count (mset xs) 0"
  by (induction xs) (auto simp: ptrs_of_def marks_def entry_cases)

lemma exists_empty:
  assumes "size (ptrs_of ht xs) + marks xs < length xs"
  shows "\<exists>i < length xs. xs ! i = 0"
proof -
  have "0 < count (mset xs) 0" using assms size_slots [of xs ht] by simp
  then show ?thesis by (simp add: in_set_conv_nth)
qed

lemma exists_not_valid:
  assumes "size (ptrs_of ht xs) < length xs"
  shows "\<exists>i < length xs. \<not> entry_is_valid (xs ! i)"
proof (rule ccontr)
  assume "\<not> ?thesis"
  then have "filter entry_is_valid xs = xs" by (auto simp: filter_id_conv in_set_conv_nth)
  then have "size (ptrs_of ht xs) = length xs"
    unfolding ptrs_of_def by (metis mset_filter size_image_mset size_mset)
  with assms show False by simp
qed

text \<open>Writing one bucket.\<close>

lemma ptrs_of_update:
  assumes "i < length xs"
  shows "ptrs_of ht (xs[i := e]) =
    (if entry_is_valid e then {#get_raw_ptr ht e#} else {#}) +
    (ptrs_of ht xs - (if entry_is_valid (xs ! i) then {#get_raw_ptr ht (xs ! i)#} else {#}))"
  using assms by (auto simp: ptrs_of_def mset_update image_mset_Diff)

lemma marks_update:
  assumes "i < length xs"
  shows "marks (xs[i := e]) = marks xs - (if xs ! i = HTABLE_DELETED then 1 else 0)
    + (if e = HTABLE_DELETED then 1 else 0)"
  using assms by (auto simp: marks_def mset_update)

section \<open>Lookup finds exactly what is stored\<close>

lemma slots_okD:
  assumes "slots_ok rh ht" "i < size_of ht" "entry_is_valid (slots ht ! i)"
  shows "entry_ok rh ht i (slots ht ! i)" "chain ht (home rh ht (slots ht ! i)) i"
  using assms by (auto simp: slots_ok_def)

lemma in_ptrs_iff:
  assumes "length (slots ht) = size_of ht"
  shows "p \<in># ptrs ht \<longleftrightarrow>
    (\<exists>i < size_of ht. entry_is_valid (slots ht ! i) \<and> get_raw_ptr ht (slots ht ! i) = p)"
  using assms by (force simp: ptrs_def ptrs_of_def in_set_conv_nth)

lemma entry_not_NULL:
  assumes "slots_ok rh ht" "p \<in># ptrs ht"
  shows "p \<noteq> NULL" "\<exists>h. rh p = Some h"
proof -
  have len: "length (slots ht) = size_of ht" and masks: "masks_ok ht" using assms(1) by (auto simp: slots_ok_def)
  obtain i where i: "i < size_of ht" "entry_is_valid (slots ht ! i)" "get_raw_ptr ht (slots ht ! i) = p"
    using assms(2) in_ptrs_iff [OF len] by blast
  then have ok: "entry_ok rh ht i (slots ht ! i)" using slots_okD [OF assms(1)] by blast
  then have "1 < p AND NOT (ht_common_mask ht)"
    using raw_ptr_common(2) [OF masks, of "slots ht ! i"] i(3) entry_okD(3) by simp
  then show "p \<noteq> NULL" by auto
  show "\<exists>h. rh p = Some h" using entry_okD(1) [OF ok] i(3) by auto
qed

lemma hit_in_ptrs:
  assumes "slots_ok rh ht" "free_at ht (hash_bucket ht h) d" "j < d" "hit ht h j"
  shows "entry_at ht h j \<in># ptrs ht"
proof -
  have len: "length (slots ht) = size_of ht" using assms(1) by (simp add: slots_ok_def)
  have "entry_is_valid (slot ht (hash_bucket ht h) j)"
    using assms by (simp add: entry_cases free_at_def hit_def)
  then show ?thesis
    unfolding in_ptrs_iff [OF len] entry_at_def slot_def
    by (intro exI [of _ "(hash_bucket ht h + j) mod size_of ht"]) simp
qed

lemma ptrs_hit:
  assumes "slots_ok rh ht" "free_at ht (hash_bucket ht h) d" "p \<in># ptrs ht" "rh p = Some h"
  shows "\<exists>j < d. hit ht h j \<and> entry_at ht h j = p"
proof -
  let ?b = "hash_bucket ht h"
  have len: "length (slots ht) = size_of ht" using assms(1) by (simp add: slots_ok_def)
  obtain i where i: "i < size_of ht" "entry_is_valid (slots ht ! i)" "get_raw_ptr ht (slots ht ! i) = p"
    using assms(3) in_ptrs_iff [OF len] by blast
  define j where "j = dist (size_of ht) ?b i"
  have slot: "slot ht ?b j = slots ht ! i" using i(1) by (simp add: j_def slot_dist hash_bucket_less)
  have home: "home rh ht (slots ht ! i) = ?b" using i(3) assms(4) by (simp add: home_def)
  note ok = slots_okD [OF assms(1) i(1,2)]
  have "slot ht ?b k \<noteq> 0" if "k \<le> j" for k
    using ok(2) slot i(2) that by (cases "k = j") (auto simp: chain_def home j_def [symmetric])
  then have "j < d" using assms(2) by (metis free_at_def linorder_not_less)
  moreover have "j = 0 \<longleftrightarrow> ?b = i" using i(1) by (simp add: j_def dist_eq_0 hash_bucket_less)
  then have "hit ht h j"
    using entry_okD(2) [OF ok(1)] i assms(4) by (simp add: hit_def slot home entry_cases)
  ultimately show ?thesis using i(3) by (auto simp: entry_at_def slot)
qed

lemma first_hit_Some:
  "first_hit ht h P d 0 = Some j \<Longrightarrow> j < d \<and> hit ht h j \<and> P (entry_at ht h j)"
  by (simp add: first_hit_def find_upt_Some_iff)

lemma first_hit_None:
  "first_hit ht h P d 0 = None \<longleftrightarrow> (\<forall>j < d. hit ht h j \<longrightarrow> \<not> P (entry_at ht h j))"
  by (auto simp: first_hit_def find_upt_None_iff)

lemma htable_get_slots_ok:
  assumes ok: "slots_ok rh ht" and "\<exists>i < size_of ht. slots ht ! i = 0"
    and cmp: "\<And>p. p \<in># ptrs ht \<Longrightarrow> cmp p \<noteq> None"
  shows "\<exists>r. htable_get ht h cmp = Some r \<and> (r \<noteq> NULL \<longrightarrow> r \<in># ptrs ht \<and> cmp r = Some True) \<and>
    (r = NULL \<longrightarrow> (\<forall>p \<in># ptrs ht. rh p = Some h \<longrightarrow> cmp p = Some False))"
proof -
  let ?P = "\<lambda>c. cmp c = Some True"
  have len: "length (slots ht) = size_of ht" using ok by (simp add: slots_ok_def)
  obtain d where d: "free_at ht (hash_bucket ht h) d"
    using free_atE [OF assms(2) hash_bucket_less] .
  define r where "r = (case first_hit ht h ?P d 0 of None \<Rightarrow> NULL | Some j \<Rightarrow> entry_at ht h j)"
  have get: "htable_get ht h cmp = Some r"
    unfolding r_def using hit_in_ptrs [OF ok d] entry_not_NULL(1) [OF ok] cmp
    by (intro htable_get_first_hit [OF len d]) blast
  show ?thesis
  proof (intro exI [of _ r] conjI get impI)
    assume "r \<noteq> NULL"
    then obtain j where "first_hit ht h ?P d 0 = Some j" "r = entry_at ht h j"
      by (auto simp: r_def split: option.splits)
    then show "r \<in># ptrs ht" "cmp r = Some True"
      using first_hit_Some [of ht h ?P d j] hit_in_ptrs [OF ok d] by simp_all
  next
    assume "r = NULL"
    then have "first_hit ht h ?P d 0 = None"
      using first_hit_Some [of ht h ?P d] hit_in_ptrs [OF ok d] entry_not_NULL(1) [OF ok]
      by (fastforce simp: r_def split: option.splits)
    then show "\<forall>p \<in># ptrs ht. rh p = Some h \<longrightarrow> cmp p = Some False"
      using ptrs_hit [OF ok d] cmp by (auto simp: first_hit_None) (metis (full_types))
  qed
qed

section \<open>Deletion\<close>

lemma chain_mono:
  assumes "chain ht b i" "ht_bits ht' = ht_bits ht"
    and "\<And>k. k < size_of ht \<Longrightarrow> slots ht ! k \<noteq> 0 \<Longrightarrow> slots ht' ! k \<noteq> 0"
  shows "chain ht' b i"
  using assms by (auto simp: chain_def slot_def)

text \<open>A bucket may be given another non-zero word that is a good entry there, or a mark.\<close>

lemma slots_ok_update:
  assumes "slots_ok rh ht" "i < size_of ht" "e \<noteq> 0"
    and "entry_is_valid e \<Longrightarrow> entry_ok rh ht i e \<and> chain ht (home rh ht e) i"
  shows "slots_ok rh (ht\<lparr>ht_table := Array ((slots ht)[i := e])\<rparr>)"
proof -
  let ?ht = "ht\<lparr>ht_table := Array ((slots ht)[i := e])\<rparr>"
  have len: "length (slots ht) = size_of ht" using assms(1) by (simp add: slots_ok_def)
  have nz: "k < size_of ht \<Longrightarrow> slots ht ! k \<noteq> 0 \<Longrightarrow> slots ?ht ! k \<noteq> 0" for k
    using assms(3) len by (cases "k = i") simp_all
  have "entry_ok rh ht k (slots ?ht ! k) \<and> chain ?ht (home rh ht (slots ?ht ! k)) k"
    if "k < size_of ht" "entry_is_valid (slots ?ht ! k)" for k
  proof (cases "k = i")
    case True
    with that assms(4) len show ?thesis
      using chain_mono [where ht = ht and ht' = ?ht and b = "home rh ht e" and i = i, OF _ _ nz] by simp
  next
    case False
    with that slots_okD [OF assms(1), of k] show ?thesis
      using chain_mono [where ht = ht and ht' = ?ht and b = "home rh ht (slots ht ! k)" and i = k, OF _ _ nz] by simp
  qed
  with assms(1) len show ?thesis by (simp add: slots_ok_def)
qed

lemma htable_delval_slots_ok:
  assumes ok: "slots_ok rh ht" and tab: "ht_table ht = Array xs"
    and i: "i < size_of ht" "entry_is_valid (xs ! i)" "get_raw_ptr ht (xs ! i) = p"
  obtains ys where "htable_delval ht i
      = Some (ht\<lparr>ht_elems := ht_elems ht - 1, ht_deleted := ht_deleted ht + 1, ht_table := Array ys\<rparr>)"
    and "length ys = length xs" "ptrs_of ht ys = ptrs_of ht xs - {#p#}" "p \<in># ptrs_of ht xs"
    and "marks ys = marks xs + 1" "slots_ok rh (ht\<lparr>ht_table := Array ys\<rparr>)"
proof
  have len: "length xs = size_of ht" using ok tab by (simp add: slots_ok_def)
  let ?ys = "xs[i := HTABLE_DELETED]"
  show "htable_delval ht i
      = Some (ht\<lparr>ht_elems := ht_elems ht - 1, ht_deleted := ht_deleted ht + 1, ht_table := Array ?ys\<rparr>)"
    using i len tab by (simp add: htable_delval_def table_get_def table_set_def)
  show "length ?ys = length xs" by simp
  show "ptrs_of ht ?ys = ptrs_of ht xs - {#p#}"
    using i len by (simp add: ptrs_of_update)
  have "xs ! i \<in> set xs" using i(1) len by simp
  then show "p \<in># ptrs_of ht xs" using i by (auto simp: ptrs_of_def)
  show "marks ?ys = marks xs + 1" using i len by (auto simp: marks_update)
  show "slots_ok rh (ht\<lparr>ht_table := Array ?ys\<rparr>)"
    using slots_ok_update [OF ok i(1), of HTABLE_DELETED] tab by simp
qed

section \<open>Insertion\<close>

lemma ht_add_loop_step:
  assumes len: "length (slots ht) = size_of ht" and "d < size_of ht"
    and free: "\<not> entry_is_valid (slot ht b d)" "\<forall>k<d. entry_is_valid (slot ht b k)" and "k \<le> d"
  shows "ht_add_loop ht ((b + k) mod size_of ht) (if k = 0 then perfect else 0)
    = Some ((b + d) mod size_of ht, if d = 0 then perfect else 0)"
  using \<open>k \<le> d\<close>
proof (induction "d - k" arbitrary: k)
  case 0
  then show ?case
    using free by (subst ht_add_loop.simps) (simp add: table_get_slot [OF len])
next
  case (Suc x)
  then have "ht_add_loop ht ((b + Suc k) mod size_of ht) 0
      = Some ((b + d) mod size_of ht, if d = 0 then perfect else 0)"
    using Suc.hyps(1) [of "Suc k"] by auto
  then show ?case
    using free Suc.hyps(2) by (subst ht_add_loop.simps) (simp add: table_get_slot [OF len] next_off_mod)
qed

lemma ht_add_free:
  assumes tab: "ht_table ht = Array xs" and len: "length xs = size_of ht"
    and d: "d < size_of ht" "\<not> entry_is_valid (slot ht (hash_bucket ht h) d)"
      "\<forall>k<d. entry_is_valid (slot ht (hash_bucket ht h) k)"
    and i: "i = (hash_bucket ht h + d) mod size_of ht"
  shows "ht_add ht p h = Some (ht\<lparr>ht_table := Array (xs[i := make_hval ht p
      (get_hash_ptr_bits ht h OR (if hash_bucket ht h = i then ht_perfect_bit ht else 0))])\<rparr>)"
proof -
  have "length (slots ht) = size_of ht" using tab len by simp
  from ht_add_loop_step [OF this d, of 0 "ht_perfect_bit ht"]
  have "ht_add_loop ht (hash_bucket ht h) (ht_perfect_bit ht) = Some (i, if d = 0 then ht_perfect_bit ht else 0)"
    by (simp add: i)
  moreover have "d = 0 \<longleftrightarrow> hash_bucket ht h = i"
    using dist_add [OF hash_bucket_less d(1), of h] dist_self [OF hash_bucket_less, of ht h]
      hash_bucket_less [of ht h] by (auto simp: i)
  ultimately show ?thesis
    using len by (simp add: ht_add_def table_set_def tab i)
qed

text \<open>The pointer goes to the first bucket from its home that holds no entry.\<close>

lemma ht_addE:
  assumes tab: "ht_table ht = Array xs" and len: "length xs = size_of ht" and masks: "masks_ok ht"
    and p: "p AND ht_common_mask ht = ht_common_bits ht" "1 < p AND NOT (ht_common_mask ht)" "rh p = Some h"
    and room: "f < size_of ht" "\<not> entry_is_valid (xs ! f)"
  obtains i e where "ht_add ht p h = Some (ht\<lparr>ht_table := Array (xs[i := e])\<rparr>)"
    and "i < size_of ht" "\<not> entry_is_valid (xs ! i)"
    and "dist (size_of ht) (hash_bucket ht h) i \<le> dist (size_of ht) (hash_bucket ht h) f"
    and "\<forall>k < dist (size_of ht) (hash_bucket ht h) i. entry_is_valid (slot ht (hash_bucket ht h) k)"
    and "entry_ok rh ht i e" "get_raw_ptr ht e = p" "home rh ht e = hash_bucket ht h" "entry_is_valid e"
proof -
  let ?b = "hash_bucket ht h" and ?n = "size_of ht"
  note b = hash_bucket_less [of ht h]
  have free: "\<exists>d. \<not> entry_is_valid (slot ht ?b d) \<and> d \<le> dist ?n ?b f"
    using room tab by (intro exI [of _ "dist ?n ?b f"]) (simp add: slot_dist b)
  define d where "d = (LEAST d. \<not> entry_is_valid (slot ht ?b d) \<and> d \<le> dist ?n ?b f)"
  have d: "\<not> entry_is_valid (slot ht ?b d)" "d \<le> dist ?n ?b f"
    using LeastI_ex [OF free] by (simp_all add: d_def)
  have before: "\<forall>k<d. entry_is_valid (slot ht ?b k)"
    using not_less_Least d(2) unfolding d_def by (metis (mono_tags, lifting) d_def dual_order.trans order.strict_implies_order)
  have less: "d < ?n" using d(2) dist_less [of ?n ?b f] by (simp del: dist_less)
  define i where "i = (?b + d) mod ?n"
  have i: "i < ?n" "dist ?n ?b i = d" using dist_add [OF b less] by (simp_all add: i_def)
  define e where "e = make_hval ht p (get_hash_ptr_bits ht h OR (if ?b = i then ht_perfect_bit ht else 0))"
  note new = new_entry_ok [where rh = rh and ht = ht and i = i, OF masks p e_def]
  show thesis
  proof (rule that [OF _ i(1)])
    show "ht_add ht p h = Some (ht\<lparr>ht_table := Array (xs[i := e])\<rparr>)"
      unfolding e_def by (rule ht_add_free [OF tab len less d(1) before i_def])
    show "\<not> entry_is_valid (xs ! i)"
      using d(1) tab by (simp add: slot_def i_def)
  qed (use new i d before kept_bits_valid [OF entry_okD(3) [OF new(1)]] in simp_all)
qed

lemma ht_add_slots_ok:
  assumes ok: "slots_ok rh ht" and tab: "ht_table ht = Array xs"
    and p: "p AND ht_common_mask ht = ht_common_bits ht" "1 < p AND NOT (ht_common_mask ht)" "rh p = Some h"
    and room: "size (ptrs ht) < size_of ht"
  obtains ys where "ht_add ht p h = Some (ht\<lparr>ht_table := Array ys\<rparr>)"
    and "length ys = length xs" "ptrs_of ht ys = add_mset p (ptrs_of ht xs)" "marks ys \<le> marks xs"
    and "slots_ok rh (ht\<lparr>ht_table := Array ys\<rparr>)"
proof -
  have len: "length xs = size_of ht" and masks: "masks_ok ht" using ok tab by (auto simp: slots_ok_def)
  obtain f where f: "f < size_of ht" "\<not> entry_is_valid (xs ! f)"
    using exists_not_valid [of ht xs] room len tab by (auto simp: ptrs_def)
  obtain i e where add: "ht_add ht p h = Some (ht\<lparr>ht_table := Array (xs[i := e])\<rparr>)"
    and i: "i < size_of ht" "\<not> entry_is_valid (xs ! i)"
    and before: "\<forall>k < dist (size_of ht) (hash_bucket ht h) i. entry_is_valid (slot ht (hash_bucket ht h) k)"
    and e: "entry_ok rh ht i e" "get_raw_ptr ht e = p" "home rh ht e = hash_bucket ht h" "entry_is_valid e"
    by (rule ht_addE [where rh = rh and ht = ht and f = f, OF tab len masks p f])
  show thesis
  proof (rule that [OF add])
    show "ptrs_of ht (xs[i := e]) = add_mset p (ptrs_of ht xs)"
      using i e len by (simp add: ptrs_of_update)
    show "marks (xs[i := e]) \<le> marks xs"
      using i e len by (auto simp: marks_update)
    have "chain ht (hash_bucket ht h) i"
      using before by (auto simp: chain_def entry_cases)
    then show "slots_ok rh (ht\<lparr>ht_table := Array (xs[i := e])\<rparr>)"
      using slots_ok_update [OF ok i(1), of e] e tab by (simp add: entry_cases)
  qed simp
qed

section \<open>Rehashing in place\<close>

text \<open>
  The state of the sweep of \<open>rehash_table\<close> before its step \<open>m\<close>, in positions relative to the
  empty bucket \<open>s\<close> where it starts: entries are past their home and not before \<open>s\<close>; those in the
  part already swept are reached from their home, and no mark is left there.
\<close>

definition sweep_ok :: "rehash \<Rightarrow> htable \<Rightarrow> nat \<Rightarrow> nat \<Rightarrow> bool" where
  "sweep_ok rh ht s m \<longleftrightarrow> length (slots ht) = size_of ht \<and> masks_ok ht \<and> s < size_of ht \<and> slots ht ! s = 0 \<and>
     (\<forall>k < size_of ht. entry_is_valid (slot ht s k) \<longrightarrow>
        entry_ok rh ht ((s + k) mod size_of ht) (slot ht s k) \<and>
        0 < dist (size_of ht) s (home rh ht (slot ht s k)) \<and>
        dist (size_of ht) s (home rh ht (slot ht s k)) \<le> k \<and>
        (k < m \<longrightarrow> (\<forall>l < k. dist (size_of ht) s (home rh ht (slot ht s k)) \<le> l \<longrightarrow> slot ht s l \<noteq> 0))) \<and>
     (\<forall>k < m. k < size_of ht \<longrightarrow> slot ht s k \<noteq> HTABLE_DELETED)"

lemma slot_update:
  assumes "length (slots ht) = size_of ht" "s < size_of ht" "k < size_of ht" "m < size_of ht"
  shows "slot (ht\<lparr>ht_table := Array ((slots ht)[(s + m) mod size_of ht := e])\<rparr>) s k
    = (if k = m then e else slot ht s k)"
  using assms add_mod_inj [OF assms(2,3,4)] by (auto simp: slot_def)

lemma sweep_start:
  assumes "slots_ok rh ht" "s < size_of ht" "slots ht ! s = 0"
  shows "sweep_ok rh ht s 0"
proof -
  have "entry_ok rh ht ((s + k) mod size_of ht) (slot ht s k) \<and>
      0 < dist (size_of ht) s (home rh ht (slot ht s k)) \<and>
      dist (size_of ht) s (home rh ht (slot ht s k)) \<le> k"
    if k: "k < size_of ht" and valid: "entry_is_valid (slot ht s k)" for k
  proof -
    let ?n = "size_of ht" and ?i = "(s + k) mod size_of ht" and ?b = "home rh ht (slot ht s k)"
    have i: "?i < ?n" "dist ?n s ?i = k" using dist_add [OF assms(2) k] by simp_all
    have ok: "entry_ok rh ht ?i (slot ht s k)" "chain ht ?b ?i"
      using slots_okD [OF assms(1) i(1)] valid by (simp_all add: slot_def)
    have b: "?b < ?n" by (rule home_less)
    have "?i \<noteq> s" using valid assms(3) by (auto simp: slot_def entry_cases)
    have no_s: "\<not> dist ?n ?b s < dist ?n ?b ?i"
      using ok(2) slot_dist [OF b assms(2)] assms(3) by (auto simp: chain_def)
    have "dist ?n s ?b \<le> k"
    proof (rule ccontr)
      assume "\<not> ?thesis"
      then have "dist ?n ?b s \<le> dist ?n ?b ?i"
        using dist_wraps [OF assms(2) b i(1)] i(2) by simp
      with no_s have "dist ?n ?b s = dist ?n ?b ?i" by simp
      with \<open>?i \<noteq> s\<close> show False using dist_inj [OF b assms(2) i(1)] by simp
    qed
    moreover have "dist ?n s ?b \<noteq> 0"
    proof
      assume "dist ?n s ?b = 0"
      then have "?b = s" using dist_eq_0 [OF assms(2) b] by simp
      then show False
        using no_s \<open>?i \<noteq> s\<close> dist_eq_0 [OF assms(2) i(1)] dist_self [OF assms(2)] by simp
    qed
    ultimately show ?thesis using ok(1) by simp
  qed
  with assms show ?thesis by (simp add: sweep_ok_def slots_ok_def)
qed

lemma sweep_end:
  assumes "sweep_ok rh ht s (size_of ht)"
  shows "slots_ok rh ht" "marks (slots ht) = 0"
proof -
  let ?n = "size_of ht"
  have s: "s < ?n" and len: "length (slots ht) = ?n" using assms by (auto simp: sweep_ok_def)
  have "entry_ok rh ht i (slots ht ! i) \<and> chain ht (home rh ht (slots ht ! i)) i"
    if i: "i < ?n" and valid: "entry_is_valid (slots ht ! i)" for i
  proof -
    define k where "k = dist ?n s i"
    let ?b = "home rh ht (slots ht ! i)"
    have b: "?b < ?n" by (rule home_less)
    have k: "k < ?n" "slot ht s k = slots ht ! i" "(s + k) mod ?n = i"
      using s i by (simp_all add: k_def slot_dist add_dist)
    have ok: "entry_ok rh ht i (slots ht ! i)" "dist ?n s ?b \<le> k"
      "\<forall>l < k. dist ?n s ?b \<le> l \<longrightarrow> slot ht s l \<noteq> 0"
      using assms k valid by (auto simp: sweep_ok_def)
    have "slot ht ?b t \<noteq> 0" if "t < dist ?n ?b i" for t
    proof -
      have "t < k - dist ?n s ?b"
        using that dist_between [OF s b i] ok(2) by (simp add: k_def)
      then have "slot ht s (dist ?n s ?b + t) \<noteq> 0" using ok(3) by simp
      moreover have "(s + (dist ?n s ?b + t)) mod ?n = (?b + t) mod ?n"
        using add_mod_via [OF s b, of "dist ?n s ?b + t"] by simp
      ultimately show ?thesis by (simp add: slot_def)
    qed
    with ok(1) show ?thesis by (simp add: chain_def)
  qed
  with assms show "slots_ok rh ht" by (simp add: slots_ok_def sweep_ok_def)
  have "slots ht ! i \<noteq> HTABLE_DELETED" if "i < ?n" for i
    using assms that dist_less [of ?n s i] slot_dist [OF s that]
    unfolding sweep_ok_def by (metis zero_less_numeral zero_less_power)
  then have "HTABLE_DELETED \<notin> set (slots ht)" using len by (metis in_set_conv_nth)
  then show "marks (slots ht) = 0" by (simp add: marks_def)
qed

text \<open>Clearing the bucket the sweep is at.\<close>

lemma sweep_clear:
  assumes ok: "sweep_ok rh ht s m" and m: "m < size_of ht"
  shows "sweep_ok rh (ht\<lparr>ht_table := Array ((slots ht)[(s + m) mod size_of ht := 0])\<rparr>) s (Suc m)"
proof -
  let ?ht = "ht\<lparr>ht_table := Array ((slots ht)[(s + m) mod size_of ht := 0])\<rparr>"
  have s: "s < size_of ht" and len: "length (slots ht) = size_of ht" using ok by (auto simp: sweep_ok_def)
  have slot: "slot ?ht s k = (if k = m then 0 else slot ht s k)" if "k < size_of ht" for k
    by (rule slot_update [OF len s that m])
  have "slots ?ht ! s = 0"
    using ok len s by (cases "(s + m) mod size_of ht = s") (auto simp: sweep_ok_def)
  with ok show ?thesis
    unfolding sweep_ok_def by (auto simp: slot less_Suc_eq)
qed

text \<open>Putting an entry back between its home and the bucket the sweep is at.\<close>

lemma sweep_put:
  assumes ok: "sweep_ok rh ht s (Suc m)" and m: "m < size_of ht"
    and l: "l \<le> m" "entry_ok rh ht ((s + l) mod size_of ht) e" "entry_is_valid e"
    and hr: "0 < dist (size_of ht) s (home rh ht e)" "dist (size_of ht) s (home rh ht e) \<le> l"
    and before: "\<forall>k < l. dist (size_of ht) s (home rh ht e) \<le> k \<longrightarrow> slot ht s k \<noteq> 0"
  shows "sweep_ok rh (ht\<lparr>ht_table := Array ((slots ht)[(s + l) mod size_of ht := e])\<rparr>) s (Suc m)"
proof -
  let ?ht = "ht\<lparr>ht_table := Array ((slots ht)[(s + l) mod size_of ht := e])\<rparr>"
  have s: "s < size_of ht" and len: "length (slots ht) = size_of ht" using ok by (auto simp: sweep_ok_def)
  have "l < size_of ht" using l(1) m by simp
  note slot = slot_update [OF len s _ this, of _ e]
  have "(s + l) mod size_of ht \<noteq> s"
    using add_mod_inj [OF s \<open>l < size_of ht\<close>, of 0] hr s by simp
  then have "slots ?ht ! s = 0" using ok by (simp add: sweep_ok_def)
  moreover have "e \<noteq> 0" "e \<noteq> HTABLE_DELETED" using l(3) by (auto simp: entry_cases)
  ultimately show ?thesis
    using ok l hr before m unfolding sweep_ok_def by (auto simp: slot)
qed

text \<open>The sweep finds an entry that is not in its home bucket: it is taken out and added again.\<close>

lemma rehash_bucket_moves:
  assumes ok: "sweep_ok rh ht s m" and m: "m < size_of ht" and tab: "ht_table ht = Array xs"
    and move: "entry_is_valid (slot ht s m)" "slot ht s m AND ht_perfect_bit ht = 0"
  obtains ys where "rehash_bucket rh ((s + m) mod size_of ht) ht = Some (ht\<lparr>ht_table := Array ys\<rparr>)"
    and "sweep_ok rh (ht\<lparr>ht_table := Array ys\<rparr>) s (Suc m)" "ptrs_of ht ys = ptrs_of ht xs"
proof -
  let ?n = "size_of ht" and ?i = "(s + m) mod size_of ht" and ?e = "slot ht s m"
  have s: "s < ?n" and len: "length xs = ?n" and masks: "masks_ok ht"
    using ok tab by (auto simp: sweep_ok_def)
  have xs: "xs ! ?i = ?e" "?i < ?n" using tab by (simp_all add: slot_def)
  note get = table_get_slot [of ht s m] and clear = sweep_clear [OF ok m]
  define zs where "zs = xs[?i := 0]"
  let ?ht = "ht\<lparr>ht_table := Array zs\<rparr>" and ?p = "get_raw_ptr ht ?e" and ?b = "home rh ht ?e"
  have e: "entry_ok rh ht ?i ?e" "0 < dist ?n s ?b" "dist ?n s ?b \<le> m"
    using ok m move by (simp_all add: sweep_ok_def)
  obtain h where h: "rh ?p = Some h" "?b = hash_bucket ht h"
    using entry_okD(1) [OF e(1)] by (simp add: home_def)
  have p: "?p AND ht_common_mask ?ht = ht_common_bits ?ht" "1 < ?p AND NOT (ht_common_mask ?ht)"
    using raw_ptr_common [OF masks, of ?e] entry_okD(3) [OF e(1)] by simp_all
  have zs: "length zs = size_of ?ht" "?i < size_of ?ht" "\<not> entry_is_valid (zs ! ?i)"
    using len by (simp_all add: zs_def)
  have clear': "sweep_ok rh ?ht s (Suc m)" using clear tab by (simp add: zs_def)
  obtain i e' where add: "ht_add ?ht ?p h = Some (?ht\<lparr>ht_table := Array (zs[i := e'])\<rparr>)"
    and i: "i < ?n" "\<not> entry_is_valid (zs ! i)" "dist ?n ?b i \<le> dist ?n ?b ?i"
    and before: "\<forall>k < dist ?n ?b i. entry_is_valid (slot ?ht ?b k)"
    and e': "entry_ok rh ht i e'" "get_raw_ptr ht e' = ?p" "home rh ht e' = ?b" "entry_is_valid e'"
    by (rule ht_addE [where rh = rh and ht = ?ht and p = ?p and h = h and f = ?i, OF _ zs(1) _ p h(1) zs(2,3)])
      (use masks h(2) in simp_all)
  have b: "?b < ?n" by (rule home_less)
  define l where "l = dist ?n s i"
  have to_i: "dist ?n ?b ?i = m - dist ?n s ?b"
    using dist_between [OF s b xs(2)] dist_add [OF s m] e(3) by simp
  have "dist ?n s ((?b + dist ?n ?b i) mod ?n) = dist ?n s ?b + dist ?n ?b i"
    using i(3) to_i e(3) m by (intro dist_plus [OF s b]) simp
  then have l: "l = dist ?n s ?b + dist ?n ?b i" "l \<le> m" "(s + l) mod ?n = i"
    using add_dist [OF b i(1)] add_dist [OF s i(1)] i(3) to_i e(3) by (simp_all add: l_def)
  have full: "slot ?ht s k \<noteq> 0" if "k < l" "dist ?n s ?b \<le> k" for k
  proof -
    have "(s + k) mod ?n = (?b + (k - dist ?n s ?b)) mod ?n"
      by (rule add_mod_via [OF s b that(2)])
    then have "slot ?ht s k = slot ?ht ?b (k - dist ?n s ?b)" by (simp add: slot_def)
    moreover have "k - dist ?n s ?b < dist ?n ?b i" using that l(1) by simp
    ultimately show ?thesis using before by (auto simp: entry_cases)
  qed
  have "sweep_ok rh (?ht\<lparr>ht_table := Array ((slots ?ht)[(s + l) mod size_of ?ht := e'])\<rparr>) s (Suc m)"
    using e' e(2) l m full by (intro sweep_put [OF clear']) simp_all
  moreover have "ptrs_of ht (zs[i := e']) = ptrs_of ht xs"
  proof -
    have "?p \<in># ptrs_of ht xs"
      using xs len move(1) nth_mem [of ?i xs] by (auto simp: ptrs_of_def)
    then show ?thesis using i e' zs(1) xs len move(1) by (simp add: ptrs_of_update zs_def)
  qed
  moreover have "rehash_bucket rh ?i ht = Some (ht\<lparr>ht_table := Array (zs[i := e'])\<rparr>)"
    using move get len tab h add
    by (simp add: rehash_bucket_def entry_cases table_set_def zs_def)
  ultimately show thesis using l(3) by (intro that [of "zs[i := e']"]) simp_all
qed

lemma rehash_bucket_sweep:
  assumes ok: "sweep_ok rh ht s m" and m: "m < size_of ht" and tab: "ht_table ht = Array xs"
  obtains ys where "rehash_bucket rh ((s + m) mod size_of ht) ht = Some (ht\<lparr>ht_table := Array ys\<rparr>)"
    and "sweep_ok rh (ht\<lparr>ht_table := Array ys\<rparr>) s (Suc m)" "ptrs_of ht ys = ptrs_of ht xs"
proof -
  let ?n = "size_of ht" and ?i = "(s + m) mod size_of ht" and ?e = "slot ht s m"
  have s: "s < ?n" and len: "length xs = ?n" and masks: "masks_ok ht"
    using ok tab by (auto simp: sweep_ok_def)
  have xs: "xs ! ?i = ?e" "?i < ?n" using tab by (simp_all add: slot_def)
  have same: "ht\<lparr>ht_table := Array xs\<rparr> = ht" using tab by simp
  note get = table_get_slot [of ht s m] and clear = sweep_clear [OF ok m]
  consider (empty) "?e = 0" | (mark) "?e = HTABLE_DELETED"
    | (stay) "entry_is_valid ?e" "?e AND ht_perfect_bit ht \<noteq> 0"
    | (move) "entry_is_valid ?e" "?e AND ht_perfect_bit ht = 0"
    by (auto simp: entry_cases)
  then show thesis
  proof cases
    case empty
    then show ?thesis
      using ok get len tab
      by (intro that [of xs]) (simp_all add: rehash_bucket_def same sweep_ok_def less_Suc_eq)
  next
    case mark
    then show ?thesis
      using get len tab xs clear
      by (intro that [of "xs[?i := 0]"])
        (simp_all add: rehash_bucket_def table_set_def ptrs_of_update)
  next
    case stay
    have e: "entry_ok rh ht ?i ?e" using ok m stay by (simp add: sweep_ok_def)
    moreover have "ht_perfect_bit ht \<noteq> 0" using stay(2) by auto
    ultimately have "home rh ht ?e = ?i" using perfect_iff_home [OF _ masks] stay(2) by blast
    then have "dist ?n s (home rh ht ?e) = m" using dist_add [OF s m] by simp
    then have "sweep_ok rh ht s (Suc m)"
      using ok stay by (auto simp: sweep_ok_def less_Suc_eq entry_cases)
    then show ?thesis
      using stay get len tab
      by (intro that [of xs]) (simp_all add: rehash_bucket_def same entry_cases)
  next
    case move
    from rehash_bucket_moves [OF ok m tab this] show ?thesis using that by blast
  qed
qed

lemma rehash_buckets_sweep:
  assumes "sweep_ok rh ht s m" "m \<le> size_of ht" "ht_table ht = Array xs"
  obtains ys where "rehash_buckets rh s [m..<size_of ht] ht = Some (ht\<lparr>ht_table := Array ys\<rparr>)"
    and "sweep_ok rh (ht\<lparr>ht_table := Array ys\<rparr>) s (size_of ht)" "ptrs_of ht ys = ptrs_of ht xs"
  using assms
proof (induction "size_of ht - m" arbitrary: ht xs m thesis)
  case 0
  have same: "ht\<lparr>ht_table := Array xs\<rparr> = ht" using 0(5) by simp
  show ?case using 0(1,3,4) by (intro 0(2) [of xs]) (simp_all add: same)
next
  case (Suc x)
  then have m: "m < size_of ht" by simp
  obtain zs where zs: "rehash_bucket rh ((s + m) mod size_of ht) ht = Some (ht\<lparr>ht_table := Array zs\<rparr>)"
    "sweep_ok rh (ht\<lparr>ht_table := Array zs\<rparr>) s (Suc m)" "ptrs_of ht zs = ptrs_of ht xs"
    by (rule rehash_bucket_sweep [OF Suc.prems(2) m Suc.prems(4)])
  obtain ys where ys: "rehash_buckets rh s [Suc m..<size_of ht] (ht\<lparr>ht_table := Array zs\<rparr>)
      = Some (ht\<lparr>ht_table := Array ys\<rparr>)"
    "sweep_ok rh (ht\<lparr>ht_table := Array ys\<rparr>) s (size_of ht)"
    "ptrs_of ht ys = ptrs_of ht zs"
    by (rule Suc.hyps(1) [of "ht\<lparr>ht_table := Array zs\<rparr>" "Suc m" zs])
      (use Suc.hyps(2) zs m in \<open>simp_all add: ptrs_of_def\<close>)
  have "rehash_buckets rh s [m..<size_of ht] ht = Some (ht\<lparr>ht_table := Array ys\<rparr>)"
    using m zs(1) ys(1) by (simp add: upt_conv_Cons add.commute)
  with ys zs show ?case by (intro Suc.prems(1) [of ys]) simp_all
qed

lemma first_empty_least:
  assumes "j < length (slots ht)" "slots ht ! j = 0" "i \<le> j" "\<forall>k < j. slots ht ! k \<noteq> 0"
  shows "first_empty ht i = Some j"
  using assms(3)
proof (induction "j - i" arbitrary: i)
  case 0
  then show ?case using assms by (subst first_empty.simps) (simp add: table_get_slots)
next
  case (Suc x)
  then have "first_empty ht (Suc i) = Some j" by simp
  then show ?case
    using assms Suc.hyps(2) by (subst first_empty.simps) (simp add: table_get_slots)
qed

lemma rehash_table_ok:
  assumes "slots_ok rh ht" "ht_table ht = Array xs" "\<exists>i < size_of ht. slots ht ! i = 0"
  obtains ys where "rehash_table rh ht = Some (ht\<lparr>ht_table := Array ys, ht_deleted := 0\<rparr>)"
    and "slots_ok rh (ht\<lparr>ht_table := Array ys\<rparr>)" "ptrs_of ht ys = ptrs_of ht xs" "marks ys = 0"
proof -
  have len: "length (slots ht) = size_of ht" using assms(1) by (simp add: slots_ok_def)
  define s where "s = (LEAST i. slots ht ! i = 0)"
  obtain i where i: "i < size_of ht" "slots ht ! i = 0" using assms(3) by blast
  have "s \<le> i" unfolding s_def using i(2) by (rule Least_le)
  moreover have "slots ht ! s = 0" unfolding s_def using i(2) by (rule LeastI)
  moreover have "\<forall>k < s. slots ht ! k \<noteq> 0" unfolding s_def using not_less_Least by blast
  ultimately have s: "slots ht ! s = 0" "s < size_of ht" "\<forall>k < s. slots ht ! k \<noteq> 0"
    using i(1) by simp_all
  have first: "first_empty ht 0 = Some s"
    using s len by (intro first_empty_least) simp_all
  obtain ys where ys: "rehash_buckets rh s [0..<size_of ht] ht = Some (ht\<lparr>ht_table := Array ys\<rparr>)"
    "sweep_ok rh (ht\<lparr>ht_table := Array ys\<rparr>) s (size_of ht)" "ptrs_of ht ys = ptrs_of ht xs"
    by (rule rehash_buckets_sweep [OF sweep_start [OF assms(1) s(2,1)] _ assms(2)]) simp
  show thesis
    using sweep_end [of rh "ht\<lparr>ht_table := Array ys\<rparr>" s] ys first
    by (intro that [of ys]) (simp_all add: rehash_table_def)
qed

section \<open>Doubling\<close>

lemma lowest_bit_in: "lowest_bit m = Some b \<Longrightarrow> b AND NOT m = 0"
  unfolding and_not_0_bits lowest_bit_def
  by (auto simp: find_upt_Some_iff and_exp_eq_0 bit_exp_iff)

lemma regain_perfect_bit_simps [simp]:
  "ht_bits (regain_perfect_bit ht) = ht_bits ht" "ht_elems (regain_perfect_bit ht) = ht_elems ht"
  "ht_deleted (regain_perfect_bit ht) = ht_deleted ht" "ht_max (regain_perfect_bit ht) = ht_max ht"
  "ht_max_with_deleted (regain_perfect_bit ht) = ht_max_with_deleted ht"
  "ht_common_mask (regain_perfect_bit ht) = ht_common_mask ht"
  "ht_common_bits (regain_perfect_bit ht) = ht_common_bits ht"
  "ht_table (regain_perfect_bit ht) = ht_table ht"
  by (simp_all add: regain_perfect_bit_def split: option.split)

lemma regain_perfect_bit_masks: "masks_ok ht \<Longrightarrow> masks_ok (regain_perfect_bit ht)"
  using lowest_bit_in [of "ht_common_mask ht"]
  by (auto simp: masks_ok_def regain_perfect_bit_def split: option.split)

lemma ptrs_of_cong:
  "ht_common_mask ht' = ht_common_mask ht \<Longrightarrow> ht_common_bits ht' = ht_common_bits ht \<Longrightarrow>
     ptrs_of ht' = ptrs_of ht"
proof -
  assume "ht_common_mask ht' = ht_common_mask ht" "ht_common_bits ht' = ht_common_bits ht"
  then have "get_raw_ptr ht' = get_raw_ptr ht" by (simp add: fun_eq_iff get_raw_ptr_def)
  then show ?thesis by (intro ext) (simp add: ptrs_of_def)
qed

lemma ptrs_of_Cons:
  "ptrs_of ht (e # es) = (if entry_is_valid e then add_mset (get_raw_ptr ht e) (ptrs_of ht es) else ptrs_of ht es)"
  by (simp add: ptrs_of_def)

lemma readd_entries_ok:
  assumes "slots_ok rh ht" "ht_table ht = Array xs"
    and "\<forall>e \<in> set old. entry_is_valid e \<longrightarrow>
      1 < e AND NOT (ht_common_mask ht) \<and> rh (get_raw_ptr ht e) \<noteq> None"
    and "size (ptrs_of ht xs) + size (ptrs_of ht old) \<le> size_of ht"
  shows "\<exists>ys. readd_entries rh old ht = Some (ht\<lparr>ht_table := Array ys\<rparr>) \<and>
    slots_ok rh (ht\<lparr>ht_table := Array ys\<rparr>) \<and> ptrs_of ht ys = ptrs_of ht xs + ptrs_of ht old \<and>
    marks ys \<le> marks xs"
  using assms
proof (induction old arbitrary: ht xs)
  case Nil
  have same: "ht\<lparr>ht_table := Array xs\<rparr> = ht" using Nil(2) by simp
  show ?case
    using Nil(1) by (intro exI [of _ xs]) (simp add: same ptrs_of_def)
next
  case (Cons e old)
  have masks: "masks_ok ht" using Cons.prems(1) by (simp add: slots_ok_def)
  show ?case
  proof (cases "entry_is_valid e")
    case False
    then show ?thesis
      using Cons.IH [OF Cons.prems(1,2)] Cons.prems(3,4) by (simp add: ptrs_of_Cons)
  next
    case True
    let ?p = "get_raw_ptr ht e"
    obtain h where h: "rh ?p = Some h" using Cons.prems(3) True by auto
    have p: "?p AND ht_common_mask ht = ht_common_bits ht" "1 < ?p AND NOT (ht_common_mask ht)"
      using raw_ptr_common [OF masks, of e] Cons.prems(3) True by simp_all
    have room: "size (ptrs ht) < size_of ht"
      using Cons.prems(2,4) True by (simp add: ptrs_def ptrs_of_Cons)
    obtain zs where zs: "ht_add ht ?p h = Some (ht\<lparr>ht_table := Array zs\<rparr>)"
      "ptrs_of ht zs = add_mset ?p (ptrs_of ht xs)" "marks zs \<le> marks xs"
      "slots_ok rh (ht\<lparr>ht_table := Array zs\<rparr>)"
      by (rule ht_add_slots_ok [OF Cons.prems(1,2) p h room])
    let ?ht = "ht\<lparr>ht_table := Array zs\<rparr>"
    have cong: "ptrs_of ?ht = ptrs_of ht" by (rule ptrs_of_cong) simp_all
    have "\<exists>ys. readd_entries rh old ?ht = Some (?ht\<lparr>ht_table := Array ys\<rparr>) \<and>
        slots_ok rh (?ht\<lparr>ht_table := Array ys\<rparr>) \<and> ptrs_of ?ht ys = ptrs_of ?ht zs + ptrs_of ?ht old \<and>
        marks ys \<le> marks zs"
      by (rule Cons.IH [OF zs(4)])
        (use Cons.prems(3,4) zs(2) True cong in \<open>simp_all add: ptrs_of_Cons\<close>)
    with True zs h cong show ?thesis by (auto simp: ptrs_of_Cons)
  qed
qed

lemma ptrs_of_empty: "ptrs_of ht (replicate n 0) = {#}" "marks (replicate n 0) = 0"
  by (induction n) (simp_all add: ptrs_of_def marks_def HTABLE_DELETED_def)

text \<open>The table \<open>double_table\<close> starts to fill.\<close>

definition doubled :: "htable \<Rightarrow> htable" where
  "doubled ht = regain_perfect_bit
     (ht\<lparr>ht_table := Array (replicate (2 ^ (ht_bits ht + 1)) 0), ht_bits := ht_bits ht + 1,
         ht_max := 3 * 2 ^ (ht_bits ht + 1) div 4,
         ht_max_with_deleted := 9 * 2 ^ (ht_bits ht + 1) div 10\<rparr>)"

lemma doubled_simps:
  "ht_bits (doubled ht) = ht_bits ht + 1" "ht_table (doubled ht) = Array (replicate (2 ^ (ht_bits ht + 1)) 0)"
  "ht_common_mask (doubled ht) = ht_common_mask ht" "ht_common_bits (doubled ht) = ht_common_bits ht"
  "ht_elems (doubled ht) = ht_elems ht" "ht_max (doubled ht) = 3 * 2 ^ (ht_bits ht + 1) div 4"
  "ht_max_with_deleted (doubled ht) = 9 * 2 ^ (ht_bits ht + 1) div 10"
  by (simp_all add: doubled_def)

lemma doubled_ok: "masks_ok ht \<Longrightarrow> slots_ok rh (doubled ht)"
proof -
  assume "masks_ok ht"
  then have "masks_ok (doubled ht)"
    unfolding doubled_def by (intro regain_perfect_bit_masks) (simp add: masks_ok_def)
  moreover have "slots (doubled ht) = replicate (2 ^ (ht_bits ht + 1)) 0"
    by (simp add: doubled_simps)
  ultimately show ?thesis by (simp add: slots_ok_def doubled_simps)
qed

lemma double_table_ok:
  assumes ok: "slots_ok rh ht" and "ht_table ht = Perfect_bit \<longrightarrow> ht = htable_init" and "ht_bits ht < 30"
  obtains ys where "double_table rh True ht = Some (True, (doubled ht)\<lparr>ht_table := Array ys, ht_deleted := 0\<rparr>)"
    and "slots_ok rh ((doubled ht)\<lparr>ht_table := Array ys\<rparr>)" "ptrs_of ht ys = ptrs ht" "marks ys = 0"
proof -
  have masks: "masks_ok ht" and len: "length (slots ht) = size_of ht" using ok by (auto simp: slots_ok_def)
  have cong: "ptrs_of (doubled ht) = ptrs_of ht" "get_raw_ptr (doubled ht) = get_raw_ptr ht"
    by (rule ptrs_of_cong; simp add: doubled_simps) (simp add: fun_eq_iff doubled_simps get_raw_ptr_def)
  have unfold: "double_table rh True ht = do { ht' \<leftarrow> (case ht_table ht of Perfect_bit \<Rightarrow> Some (doubled ht)
      | Array old \<Rightarrow> readd_entries rh old (doubled ht)); Some (True, ht'\<lparr>ht_deleted := 0\<rparr>) }"
    using assms(3) by (simp add: double_table_def doubled_def Let_def split: buckets.split)
  show thesis
  proof (cases "ht_table ht")
    case Perfect_bit
    let ?ys = "replicate (2 ^ (ht_bits ht + 1)) 0"
    have same: "(doubled ht)\<lparr>ht_table := Array ?ys\<rparr> = doubled ht"
      using doubled_simps(2) [of ht] by simp
    have "ptrs ht = {#}"
      using assms(2) Perfect_bit by (simp add: ptrs_def ptrs_of_def slots_def htable_init_def HTABLE_INITIALIZER_def)
    then show ?thesis
      using doubled_ok [OF masks] unfold Perfect_bit
      by (intro that [of ?ys]) (simp_all only: same ptrs_of_empty, simp_all)
  next
    case (Array old)
    let ?zs = "replicate (2 ^ (ht_bits ht + 1)) 0 :: u64 list"
    have "size (ptrs_of ht old) \<le> size_of ht"
      using size_slots [of old ht] len Array by simp
    then have room: "size (ptrs_of (doubled ht) ?zs) + size (ptrs_of (doubled ht) old) \<le> size_of (doubled ht)"
      by (simp add: cong doubled_simps ptrs_of_empty)
    have old: "\<forall>e \<in> set old. entry_is_valid e \<longrightarrow>
        1 < e AND NOT (ht_common_mask (doubled ht)) \<and> rh (get_raw_ptr (doubled ht) e) \<noteq> None"
    proof (intro ballI impI)
      fix e
      assume e: "e \<in> set old" "entry_is_valid e"
      then obtain i where "i < size_of ht" "slots ht ! i = e"
        using len Array by (auto simp: in_set_conv_nth)
      then have "entry_ok rh ht i e" using slots_okD(1) [OF ok] e(2) by auto
      show "1 < e AND NOT (ht_common_mask (doubled ht)) \<and> rh (get_raw_ptr (doubled ht) e) \<noteq> None"
        using entry_okD(1,3) [OF \<open>entry_ok rh ht i e\<close>] by (simp add: cong doubled_simps) auto
    qed
    obtain ys where "readd_entries rh old (doubled ht) = Some ((doubled ht)\<lparr>ht_table := Array ys\<rparr>)"
      "slots_ok rh ((doubled ht)\<lparr>ht_table := Array ys\<rparr>)"
      "ptrs_of (doubled ht) ys = ptrs_of (doubled ht) ?zs + ptrs_of (doubled ht) old"
      "marks ys \<le> marks ?zs"
      using readd_entries_ok [OF doubled_ok [OF masks] doubled_simps(2) old room] by blast
    then show ?thesis
      using unfold Array by (intro that [of ys]) (simp_all add: cong ptrs_of_empty ptrs_def)
  qed
qed

section \<open>Giving bits back\<close>

text \<open>
  \<open>storable\<close>: some bit above bit 0 of the new pointer will be kept in its bucket, either because
  the table is empty and chooses that bit, or because the pointer has a bit that the pointers
  before it do not all have.
\<close>

definition storable :: "htable \<Rightarrow> ptr \<Rightarrow> bool" where
  "storable ht p \<longleftrightarrow> 1 < p \<and>
     (ht_elems ht = 0 \<and> p AND ht_common_mask ht \<noteq> ht_common_bits ht \<or> 1 < p AND NOT (ht_common_bits ht))"

lemma reveal_bit_set:
  assumes "1 < p"
  shows "0 < reveal_bit p" "bit p (reveal_bit p)" "bit p k \<Longrightarrow> k \<le> reveal_bit p"
proof -
  let ?P = "\<lambda>i. p AND push_bit i 1 \<noteq> 0"
  obtain k where k: "k > 0" "bit p k" using assms word_gt_1 by blast
  then have "k \<in> set (rev [1..<64])" using bit_imp_le_length [of p k] by simp
  then have "find ?P (rev [1..<64]) \<noteq> None"
    using find_NoneD [of ?P "rev [1..<64]" k] k(2) by (auto simp: and_push_bit_1 simp del: set_rev set_upt push_bit_of_1)
  then obtain i where i: "find ?P (rev [1..<64]) = Some i" by blast
  then have reveal: "reveal_bit p = i" by (simp add: reveal_bit_def)
  from find_rev_upt_Some [OF i]
  have "1 \<le> i" "bit p i" and above: "\<forall>k. i < k \<longrightarrow> k < 64 \<longrightarrow> \<not> bit p k"
    unfolding and_push_bit_1 by blast+
  then show "0 < reveal_bit p" "bit p (reveal_bit p)" by (simp_all add: reveal)
  show "k \<le> reveal_bit p" if "bit p k" for k
    using above that bit_imp_le_length [OF that] by (simp add: reveal) (metis linorder_not_less)
qed

text \<open>The fields of the table after the entries have been patched.\<close>

lemma update_common_later:
  assumes "ht_elems ht \<noteq> 0" "ht_table ht = Array xs"
    and "d = ht_common_bits ht XOR (p AND ht_common_mask ht)"
  shows "update_common ht p = ht\<lparr>ht_table := Array (map (update_entry d (ht_common_bits ht AND d)) xs),
      ht_common_mask := ht_common_mask ht AND NOT d, ht_common_bits := ht_common_bits ht AND NOT d,
      ht_perfect_bit := ht_perfect_bit ht AND NOT d\<rparr>"
  using assms by (simp add: update_common_def Let_def)

lemma update_entry_packing:
  assumes masks: "masks_ok ht" and e: "1 < e AND NOT (ht_common_mask ht)"
    and d_def: "d = ht_common_bits ht XOR (p AND ht_common_mask ht)"
    and e'_def: "e' = (e AND NOT d) OR (ht_common_bits ht AND d)"
    and ht': "ht_common_mask ht' = ht_common_mask ht AND NOT d" "ht_common_bits ht' = ht_common_bits ht AND NOT d"
    "ht_perfect_bit ht' = ht_perfect_bit ht AND NOT d" "ht_bits ht' = ht_bits ht"
  shows "get_raw_ptr ht' e' = get_raw_ptr ht e"
    and "get_extra_ptr_bits ht' e' = get_extra_ptr_bits ht e AND NOT d"
    and "get_hash_ptr_bits ht' h = get_hash_ptr_bits ht h AND NOT d"
    and "1 < e' AND NOT (ht_common_mask ht')"
proof -
  have sub: "bit (ht_common_bits ht) k \<Longrightarrow> bit (ht_common_mask ht) k" for k
    using masks by (simp add: masks_ok_bits)
  show "get_raw_ptr ht' e' = get_raw_ptr ht e"
    by (rule bit_word_eqI) (use sub in \<open>auto simp: get_raw_ptr_def ht' e'_def d_def bit_simps\<close>)
  show "get_extra_ptr_bits ht' e' = get_extra_ptr_bits ht e AND NOT d"
    by (rule bit_word_eqI) (auto simp: get_extra_ptr_bits_def ht' e'_def bit_simps)
  show "get_hash_ptr_bits ht' h = get_hash_ptr_bits ht h AND NOT d"
    by (rule bit_word_eqI) (auto simp: get_hash_ptr_bits_bit ht' bit_simps)
  obtain k where "k > 0" "bit (e AND NOT (ht_common_mask ht)) k" using e word_gt_1 by blast
  then have "bit (e' AND NOT (ht_common_mask ht')) k"
    using sub [of k] by (auto simp: ht' e'_def d_def bit_simps)
  then show "1 < e' AND NOT (ht_common_mask ht')" using \<open>k > 0\<close> word_gt_1 by blast
qed

lemma ptrs_of_map:
  assumes "\<And>e. e \<in> set xs \<Longrightarrow> entry_is_valid (f e) = entry_is_valid e"
    and "\<And>e. e \<in> set xs \<Longrightarrow> entry_is_valid e \<Longrightarrow> get_raw_ptr ht' (f e) = get_raw_ptr ht e"
  shows "ptrs_of ht' (map f xs) = ptrs_of ht xs"
  using assms
proof (induction xs)
  case Nil
  then show ?case by (simp add: ptrs_of_def)
next
  case (Cons e xs)
  then show ?case by (simp add: ptrs_of_Cons)
qed

lemma marks_map:
  assumes "\<And>e. e \<in> set xs \<Longrightarrow> f e = HTABLE_DELETED \<longleftrightarrow> e = HTABLE_DELETED"
  shows "marks (map f xs) = marks xs"
  using assms by (induction xs) (auto simp: marks_def)

text \<open>What is left to do once every pointer shares the bits of the mask.\<close>

definition prepared :: "rehash \<Rightarrow> htable \<Rightarrow> ptr \<Rightarrow> htable \<Rightarrow> bool" where
  "prepared rh ht p ht' \<longleftrightarrow> (\<exists>ys m c b.
     ht' = ht\<lparr>ht_table := Array ys, ht_common_mask := m, ht_common_bits := c, ht_perfect_bit := b\<rparr> \<and>
     slots_ok rh ht' \<and> ptrs ht' = ptrs ht \<and> marks ys = marks (slots ht) \<and> p AND m = c \<and> 1 < p AND NOT m)"

lemma update_common_first:
  assumes ok: "slots_ok rh ht" and tab: "ht_table ht = Array xs" and elems: "ht_elems ht = size (ptrs ht)"
    and p: "1 < p" and True: "ht_elems ht = 0"
  shows "prepared rh ht p (update_common ht p)"
proof -
  let ?m = "NOT (push_bit (reveal_bit p) 1) :: u64" and ?ht = "update_common ht p"
  have r: "0 < reveal_bit p" "bit p (reveal_bit p)"
    using reveal_bit_set [OF p] by simp_all
  have eq: "?ht = ht\<lparr>ht_table := Array xs, ht_common_mask := ?m, ht_common_bits := p AND ?m, ht_perfect_bit := 1\<rparr>"
    using True tab by (simp add: update_common_def Let_def)
  have none: "filter_mset entry_is_valid (mset xs) = {#}"
    using True elems tab by (simp add: ptrs_def ptrs_of_def)
  then have invalid: "\<not> entry_is_valid e" if "e \<in> set xs" for e
    using that by (metis empty_not_add_mset filter_mset_add_mset insert_DiffM set_mset_mset)
  have "masks_ok ?ht"
    using r unfolding masks_ok_bits by (auto simp: eq bit_simps)
  then have "slots_ok rh ?ht"
    using ok tab invalid by (auto simp: slots_ok_def eq)
  moreover have "ptrs_of g xs = {#}" for g
    by (simp only: ptrs_of_def none image_mset_empty)
  then have "ptrs ?ht = ptrs ht"
    using tab by (simp add: ptrs_def eq)
  moreover have "bit (p AND NOT ?m) (reveal_bit p)"
    using r bit_imp_le_length [OF r(2)] by (simp add: bit_simps)
  then have "1 < p AND NOT ?m" using r(1) word_gt_1 by blast
  ultimately show ?thesis
    unfolding prepared_def using eq tab
    by (intro exI [of _ xs] exI [of _ ?m] exI [of _ "p AND ?m"] exI [of _ 1]) simp
qed

lemma update_entry_ok:
  assumes masks: "masks_ok ht" and e: "entry_ok rh ht i e"
    and d_def: "d = ht_common_bits ht XOR (p AND ht_common_mask ht)"
    and ht': "ht_common_mask ht' = ht_common_mask ht AND NOT d" "ht_common_bits ht' = ht_common_bits ht AND NOT d"
    "ht_perfect_bit ht' = ht_perfect_bit ht AND NOT d" "ht_bits ht' = ht_bits ht"
  defines "e' \<equiv> update_entry d (ht_common_bits ht AND d) e"
  shows "entry_is_valid e'" "get_raw_ptr ht' e' = get_raw_ptr ht e" "home rh ht' e' = home rh ht e"
    "entry_ok rh ht' i e'"
proof -
  have valid: "entry_is_valid e" using kept_bits_valid [OF entry_okD(3) [OF e]] .
  have e'_eq: "e' = (e AND NOT d) OR (ht_common_bits ht AND d)"
    using valid by (simp add: e'_def update_entry_def)
  note pack = update_entry_packing [OF masks entry_okD(3) [OF e] d_def e'_eq ht']
  show "entry_is_valid e'" by (rule kept_bits_valid [OF pack(4)])
  show "get_raw_ptr ht' e' = get_raw_ptr ht e" by (rule pack(1))
  have bucket: "hash_bucket ht' = hash_bucket ht" by (simp add: fun_eq_iff hash_bucket_def ht')
  then show home: "home rh ht' e' = home rh ht e" by (simp add: home_def pack(1))
  have "get_extra_ptr_bits ht' e' = get_hash_ptr_bits ht' (the (rh (get_raw_ptr ht e)))
      OR (if home rh ht e = i then ht_perfect_bit ht AND NOT d else 0)"
    unfolding pack(2,3) entry_okD(2) [OF e] by (rule bit_word_eqI) (simp add: bit_simps; blast)
  then show "entry_ok rh ht' i e'"
    using entry_okD(1) [OF e] pack(1,4) unfolding entry_ok_def bucket home_def
    by (auto simp: ht' split: option.split)
qed

lemma update_common_rest:
  assumes ok: "slots_ok rh ht" and tab: "ht_table ht = Array xs" and False: "ht_elems ht \<noteq> 0"
    and p: "1 < p AND NOT (ht_common_bits ht)"
  shows "prepared rh ht p (update_common ht p)"
proof -
  define d where "d = ht_common_bits ht XOR (p AND ht_common_mask ht)"
  let ?up = "update_entry d (ht_common_bits ht AND d)" and ?ht = "update_common ht p"
  have masks: "masks_ok ht" and len: "length xs = size_of ht" using ok tab by (auto simp: slots_ok_def)
  have eq: "?ht = ht\<lparr>ht_table := Array (map ?up xs), ht_common_mask := ht_common_mask ht AND NOT d,
      ht_common_bits := ht_common_bits ht AND NOT d, ht_perfect_bit := ht_perfect_bit ht AND NOT d\<rparr>"
    by (rule update_common_later [OF False tab d_def])
  have fields: "ht_common_mask ?ht = ht_common_mask ht AND NOT d" "ht_common_bits ?ht = ht_common_bits ht AND NOT d"
    "ht_perfect_bit ?ht = ht_perfect_bit ht AND NOT d" "ht_bits ?ht = ht_bits ht"
    by (simp_all add: eq)
  note entry = update_entry_ok [where rh = rh and ht = ht and ht' = ?ht, OF masks _ d_def fields]
  have good: "entry_ok rh ht i (xs ! i)" "chain ht (home rh ht (xs ! i)) i"
    if "i < size_of ht" "entry_is_valid (xs ! i)" for i
    using slots_okD [OF ok] that tab by auto
  have up: "entry_is_valid (?up e) = entry_is_valid e" "?up e = 0 \<longleftrightarrow> e = 0"
      "?up e = HTABLE_DELETED \<longleftrightarrow> e = HTABLE_DELETED"
      "entry_is_valid e \<Longrightarrow> get_raw_ptr ?ht (?up e) = get_raw_ptr ht e"
    if e: "e \<in> set xs" for e
  proof -
    obtain i where "i < size_of ht" "xs ! i = e" using e len by (auto simp: in_set_conv_nth)
    then have "entry_is_valid e \<Longrightarrow> entry_is_valid (?up e) \<and> get_raw_ptr ?ht (?up e) = get_raw_ptr ht e"
      using good(1) entry(1,2) by blast
    then show "entry_is_valid (?up e) = entry_is_valid e" "?up e = 0 \<longleftrightarrow> e = 0"
      "?up e = HTABLE_DELETED \<longleftrightarrow> e = HTABLE_DELETED"
      "entry_is_valid e \<Longrightarrow> get_raw_ptr ?ht (?up e) = get_raw_ptr ht e"
      by (auto simp: update_entry_def entry_cases)
  qed
  have "entry_ok rh ?ht i (?up (xs ! i)) \<and> chain ?ht (home rh ?ht (?up (xs ! i))) i"
    if i: "i < size_of ht" "entry_is_valid (?up (xs ! i))" for i
  proof -
    have "entry_is_valid (xs ! i)" using i len up(1) by simp
    note ok_e = good [OF i(1) this]
    have "chain ?ht (home rh ht (xs ! i)) i"
      by (rule chain_mono [OF ok_e(2)]) (use up(2) tab len in \<open>simp_all add: eq\<close>)
    then show ?thesis using entry(3,4) [OF ok_e(1)] by simp
  qed
  moreover have "masks_ok ?ht"
    using masks unfolding masks_ok_bits by (auto simp: eq bit_simps)
  ultimately have "slots_ok rh ?ht" using len by (simp add: slots_ok_def eq)
  moreover have "ptrs ?ht = ptrs ht"
    using ptrs_of_map [of xs ?up ?ht ht] up(1,4) tab by (simp add: ptrs_def eq)
  moreover have "marks (map ?up xs) = marks (slots ht)"
    using marks_map [of xs ?up] up(3) tab by simp
  moreover have "p AND (ht_common_mask ht AND NOT d) = ht_common_bits ht AND NOT d"
    by (rule bit_word_eqI) (auto simp: d_def bit_simps)
  moreover obtain k where k: "k > 0" "bit (p AND NOT (ht_common_bits ht)) k"
    using p word_gt_1 by auto
  then have "bit (p AND NOT (ht_common_mask ht AND NOT d)) k"
    by (auto simp: d_def bit_simps)
  with k(1) have "1 < p AND NOT (ht_common_mask ht AND NOT d)" using word_gt_1 by blast
  ultimately show ?thesis
    unfolding prepared_def using eq by (intro exI conjI)
qed

section \<open>The operations keep the invariant\<close>

lemma ht_invD:
  assumes "ht_inv rh ht"
  shows "slots_ok rh ht" "ht_elems ht = size (ptrs ht)" "marks (slots ht) \<le> ht_deleted ht"
    "ht_elems ht \<le> ht_max ht" "ht_elems ht + ht_deleted ht \<le> ht_max_with_deleted ht"
    "ht_table ht = Perfect_bit \<longrightarrow> ht = htable_init"
  using assms by (auto simp: ht_inv_def split: buckets.splits)

lemma ht_inv_Array:
  assumes "ht_inv rh ht" "ht_table ht = Array xs"
  shows "1 \<le> ht_bits ht" "ht_bits ht \<le> 30" "ht_max ht = 3 * size_of ht div 4"
    "ht_max_with_deleted ht = 9 * size_of ht div 10" "length xs = size_of ht"
  using assms by (auto simp: ht_inv_def slots_ok_def)

lemma ht_inv_room:
  assumes "ht_inv rh ht"
  shows "ht_elems ht + ht_deleted ht < size_of ht"
proof (cases "ht_table ht")
  case Perfect_bit
  then show ?thesis
    using ht_invD(6) [OF assms] by (simp add: htable_init_def HTABLE_INITIALIZER_def)
next
  case (Array xs)
  have "9 * n div 10 < n" if "0 < n" for n :: nat using that by simp
  then show ?thesis
    using ht_invD(5) [OF assms] ht_inv_Array(4) [OF assms Array] by (metis le_less_trans zero_less_numeral zero_less_power)
qed

lemma ht_inv_empty:
  assumes "ht_inv rh ht"
  shows "\<exists>i < size_of ht. slots ht ! i = 0"
proof -
  have "size (ptrs_of ht (slots ht)) + marks (slots ht) < length (slots ht)"
    using ht_inv_room [OF assms] ht_invD(1-3) [OF assms] by (simp add: slots_ok_def ptrs_def)
  from exists_empty [OF this] show ?thesis
    using ht_invD(1) [OF assms] by (simp add: slots_ok_def)
qed

lemma ht_inv_init: "ht_inv rh htable_init" "ptrs htable_init = {#}"
  by (simp_all add: ht_inv_def slots_ok_def htable_init_def HTABLE_INITIALIZER_def masks_ok_def slots_def
      ptrs_def ptrs_of_def marks_def HTABLE_DELETED_def)

text \<open>The thresholds of a doubled table leave room for one entry more.\<close>

lemma doubled_max:
  assumes "ht_inv rh ht"
  shows "ht_elems ht + 1 \<le> 3 * 2 ^ (ht_bits ht + 1) div 4"
proof (cases "ht_table ht")
  case Perfect_bit
  then show ?thesis
    using ht_invD(6) [OF assms] by (simp add: htable_init_def HTABLE_INITIALIZER_def)
next
  case (Array xs)
  obtain k where "ht_bits ht = Suc k" using ht_inv_Array(1) [OF assms Array] by (cases "ht_bits ht") auto
  moreover have "0 < (2 :: nat) ^ k" by simp
  then have "Suc (3 * 2 ^ k div 2) \<le> 3 * 2 ^ k" by linarith
  ultimately show ?thesis
    using ht_invD(4) [OF assms] ht_inv_Array(3) [OF assms Array] by (simp add: le_trans)
qed

lemma max_le_max_with_deleted: "3 * n div 4 \<le> 9 * n div (10 :: nat)"
  by simp

text \<open>What \<open>htable_add\<close> does once the table is large enough.\<close>

definition add_here :: "rehash \<Rightarrow> htable \<Rightarrow> u64 \<Rightarrow> ptr \<Rightarrow> (bool \<times> htable) option" where
  "add_here rh ht h p =
     do { ht \<leftarrow> (if ht_elems ht + 1 + ht_deleted ht > ht_max_with_deleted ht then rehash_table rh ht else Some ht);
          if p = NULL then None
          else let ht = (if p AND ht_common_mask ht \<noteq> ht_common_bits ht then update_common ht p else ht)
               in do { ht \<leftarrow> ht_add ht p h; Some (True, ht\<lparr>ht_elems := ht_elems ht + 1\<rparr>) } }"

lemma htable_add_here:
  assumes "ht_elems ht + 1 \<le> ht_max ht"
  shows "htable_add rh calloc_ok ht h p = add_here rh ht h p"
  using assms by (simp add: htable_add_def add_here_def)

lemma htable_add_doubled:
  assumes "\<not> ht_elems ht + 1 \<le> ht_max ht" "double_table rh True ht = Some (True, ht')"
  shows "htable_add rh True ht h p = add_here rh ht' h p"
  using assms by (simp add: htable_add_def add_here_def)

text \<open>The shared bits after an insertion.\<close>

definition common_after :: "htable \<Rightarrow> ptr \<Rightarrow> u64" where
  "common_after ht p =
     (if p AND ht_common_mask ht = ht_common_bits ht then ht_common_bits ht
      else if ht_elems ht = 0 then p AND NOT (push_bit (reveal_bit p) 1)
      else ht_common_bits ht AND NOT (ht_common_bits ht XOR (p AND ht_common_mask ht)))"

lemma update_common_bits:
  "p AND ht_common_mask ht \<noteq> ht_common_bits ht \<Longrightarrow> ht_common_bits (update_common ht p) = common_after ht p"
  by (simp add: update_common_def common_after_def Let_def split: buckets.split)

lemma storable_kept:
  assumes "storable ht p" "p AND ht_common_mask ht = ht_common_bits ht"
  shows "1 < p AND NOT (ht_common_mask ht)"
proof -
  obtain k where "k > 0" "bit (p AND NOT (ht_common_bits ht)) k"
    using assms word_gt_1 by (auto simp: storable_def)
  then have "k > 0" "bit (p AND NOT (p AND ht_common_mask ht)) k" using assms(2) by simp_all
  then have "bit (p AND NOT (ht_common_mask ht)) k" by (auto simp: bit_simps)
  with \<open>k > 0\<close> show ?thesis using word_gt_1 by blast
qed

lemma ht_inv_intro:
  assumes "slots_ok rh ht" "ht_table ht = Array xs" "1 \<le> ht_bits ht" "ht_bits ht \<le> 30"
    "ht_max ht = 3 * size_of ht div 4" "ht_max_with_deleted ht = 9 * size_of ht div 10"
    "ht_elems ht = size (ptrs_of ht xs)" "ht_elems ht \<le> ht_max ht" "marks xs \<le> ht_deleted ht"
    "ht_elems ht + ht_deleted ht \<le> ht_max_with_deleted ht"
  shows "ht_inv rh ht"
  using assms by (simp add: ht_inv_def ptrs_def)

text \<open>The invariant, where the array has grown if it must, before the pointer is put in.\<close>

lemma rehash_if_full:
  assumes inv: "ht_inv rh ht" and tab: "ht_table ht = Array xs" and room: "ht_elems ht + 1 \<le> ht_max ht"
  obtains ys n where
    "(if ht_elems ht + 1 + ht_deleted ht > ht_max_with_deleted ht then rehash_table rh ht else Some ht)
       = Some (ht\<lparr>ht_table := Array ys, ht_deleted := n\<rparr>)"
    and "slots_ok rh (ht\<lparr>ht_table := Array ys\<rparr>)" "ptrs_of ht ys = ptrs_of ht xs" "marks ys \<le> n"
    and "ht_elems ht + 1 + n \<le> ht_max_with_deleted ht"
proof (cases "ht_elems ht + 1 + ht_deleted ht > ht_max_with_deleted ht")
  case True
  obtain ys where ys: "rehash_table rh ht = Some (ht\<lparr>ht_table := Array ys, ht_deleted := 0\<rparr>)"
    "slots_ok rh (ht\<lparr>ht_table := Array ys\<rparr>)" "ptrs_of ht ys = ptrs_of ht xs" "marks ys = 0"
    by (rule rehash_table_ok [OF ht_invD(1) [OF inv] tab ht_inv_empty [OF inv]])
  have "ht_max ht \<le> ht_max_with_deleted ht"
    using ht_inv_Array(3,4) [OF inv tab] max_le_max_with_deleted by metis
  then show thesis using True ys room by (intro that [where ys = ys and n = 0]) simp_all
next
  case False
  have same: "ht\<lparr>ht_table := Array xs, ht_deleted := ht_deleted ht\<rparr> = ht" "ht\<lparr>ht_table := Array xs\<rparr> = ht"
    using tab by simp_all
  show thesis
    using False ht_invD(1,3) [OF inv] tab by (intro that [where ys = xs and n = "ht_deleted ht"]) (simp_all add: same)
qed

definition make_room :: "htable \<Rightarrow> ptr \<Rightarrow> htable" where
  "make_room ht p = (if p AND ht_common_mask ht \<noteq> ht_common_bits ht then update_common ht p else ht)"

lemma make_room_prepared:
  assumes ok: "slots_ok rh ht" and tab: "ht_table ht = Array xs" and elems: "ht_elems ht = size (ptrs ht)"
    and p: "storable ht p"
  shows "prepared rh ht p (make_room ht p)"
proof (cases "p AND ht_common_mask ht = ht_common_bits ht")
  case True
  then show ?thesis
    unfolding prepared_def make_room_def using ok tab storable_kept [OF p]
    by (intro exI [of _ xs] exI [of _ "ht_common_mask ht"] exI [of _ "ht_common_bits ht"]
        exI [of _ "ht_perfect_bit ht"]) simp
next
  case False
  then show ?thesis
    using update_common_first [OF ok tab elems] update_common_rest [OF ok tab] p
    by (cases "ht_elems ht = 0") (auto simp: make_room_def storable_def)
qed

lemma add_here_ok:
  assumes inv: "ht_inv rh ht" and tab: "ht_table ht = Array xs" and room: "ht_elems ht + 1 \<le> ht_max ht"
    and p: "storable ht p" "rh p = Some h"
  shows "\<exists>ht'. add_here rh ht h p = Some (True, ht') \<and> ht_inv rh ht' \<and> ptrs ht' = add_mset p (ptrs ht) \<and>
    ht_elems ht' = ht_elems ht + 1 \<and> ht_common_bits ht' = common_after ht p"
proof -
  obtain ys n where rehash:
    "(if ht_elems ht + 1 + ht_deleted ht > ht_max_with_deleted ht then rehash_table rh ht else Some ht)
       = Some (ht\<lparr>ht_table := Array ys, ht_deleted := n\<rparr>)"
    and ys: "slots_ok rh (ht\<lparr>ht_table := Array ys\<rparr>)" "ptrs_of ht ys = ptrs_of ht xs" "marks ys \<le> n"
    "ht_elems ht + 1 + n \<le> ht_max_with_deleted ht"
    by (rule rehash_if_full [OF inv tab room])
  define ht1 where "ht1 = ht\<lparr>ht_table := Array ys, ht_deleted := n\<rparr>"
  define ht2 where "ht2 = make_room ht1 p"
  have ok1: "slots_ok rh ht1"
    using ys(1) by (simp add: ht1_def slots_ok_def chain_def slot_def)
  have "ptrs_of ht1 = ptrs_of ht" by (rule ptrs_of_cong) (simp_all add: ht1_def)
  then have ht1: "ht_table ht1 = Array ys" "ptrs ht1 = ptrs ht" "ht_elems ht1 = size (ptrs ht1)" "storable ht1 p"
    using ht_invD(2) [OF inv] p(1) ys(2) tab by (simp_all add: ht1_def ptrs_def storable_def)
  from make_room_prepared [OF ok1 ht1(1,3,4)]
  obtain zs m c b where ht2: "ht2 = ht1\<lparr>ht_table := Array zs, ht_common_mask := m, ht_common_bits := c, ht_perfect_bit := b\<rparr>"
    "slots_ok rh ht2" "ptrs ht2 = ptrs ht1" "marks zs = marks ys" "p AND m = c" "1 < p AND NOT m"
    using ht1(1) by (auto simp: prepared_def ht2_def [symmetric])
  have fields: "ht_table ht2 = Array zs" "ht_bits ht2 = ht_bits ht" "p AND ht_common_mask ht2 = ht_common_bits ht2"
    "1 < p AND NOT (ht_common_mask ht2)" "ht_max ht2 = ht_max ht" "ht_deleted ht2 = n"
    "ht_max_with_deleted ht2 = ht_max_with_deleted ht" "ht_elems ht2 = ht_elems ht"
    using ht2(5,6) by (simp_all add: ht2(1) ht1_def)
  have size2: "size (ptrs ht2) < size_of ht2"
    using ht2(3) ht1(2) ht_inv_room [OF inv] ht_invD(2) [OF inv] fields by simp
  obtain ws where ws: "ht_add ht2 p h = Some (ht2\<lparr>ht_table := Array ws\<rparr>)"
    "ptrs_of ht2 ws = add_mset p (ptrs_of ht2 zs)" "marks ws \<le> marks zs"
    "slots_ok rh (ht2\<lparr>ht_table := Array ws\<rparr>)"
    by (rule ht_add_slots_ok [OF ht2(2) fields(1,3,4) p(2) size2])
  define ht3 where "ht3 = ht2\<lparr>ht_table := Array ws, ht_elems := ht_elems ht + 1\<rparr>"
  have "p \<noteq> NULL" using p(1) by (auto simp: storable_def)
  then have "add_here rh ht h p = Some (True, ht3)"
    using rehash ws(1) fields(8) unfolding add_here_def ht3_def
    by (simp add: ht1_def [symmetric] make_room_def [symmetric] ht2_def [symmetric])
  moreover have "ptrs_of ht3 = ptrs_of ht2" by (rule ptrs_of_cong) (simp_all add: ht3_def)
  then have ptrs3: "ptrs_of ht3 ws = add_mset p (ptrs ht)"
    using ws(2) ht2(3) ht1(2) fields(1) by (simp add: ptrs_def)
  moreover have "slots_ok rh ht3"
    using ws(4) by (simp add: ht3_def slots_ok_def chain_def slot_def)
  then have "ht_inv rh ht3"
  proof (rule ht_inv_intro)
    show "ht_table ht3 = Array ws" "ht_elems ht3 = size (ptrs_of ht3 ws)"
      using ptrs3 ht_invD(2) [OF inv] by (simp_all add: ht3_def)
  qed (use ht_inv_Array [OF inv tab] room ys(3,4) ws(3) ht2(4) in \<open>simp_all add: ht3_def fields\<close>)
  moreover have "ht_common_bits ht3 = common_after ht p"
    using update_common_bits [of p ht1]
    by (simp add: ht3_def ht2_def make_room_def common_after_def ht1_def)
  ultimately show ?thesis
    by (intro exI [of _ ht3]) (simp add: ptrs_def ht3_def)
qed

lemma double_table_inv:
  assumes inv: "ht_inv rh ht" and bits: "ht_bits ht < 30"
  shows "\<exists>ht1. double_table rh True ht = Some (True, ht1) \<and> ht_inv rh ht1 \<and> ptrs ht1 = ptrs ht \<and>
    ht_bits ht1 = ht_bits ht + 1 \<and> ht_deleted ht1 = 0 \<and> ht_elems ht1 = ht_elems ht \<and>
    ht_common_mask ht1 = ht_common_mask ht \<and> ht_common_bits ht1 = ht_common_bits ht \<and>
    ht_elems ht1 + 1 \<le> ht_max ht1 \<and> ht_table ht1 \<noteq> Perfect_bit"
proof -
  obtain ys where ys: "double_table rh True ht = Some (True, (doubled ht)\<lparr>ht_table := Array ys, ht_deleted := 0\<rparr>)"
    "slots_ok rh ((doubled ht)\<lparr>ht_table := Array ys\<rparr>)" "ptrs_of ht ys = ptrs ht" "marks ys = 0"
    by (rule double_table_ok [OF ht_invD(1,6) [OF inv] bits])
  define ht1 where "ht1 = (doubled ht)\<lparr>ht_table := Array ys, ht_deleted := 0\<rparr>"
  have tab: "ht_table ht1 = Array ys" by (simp add: ht1_def)
  have "ptrs_of ht1 = ptrs_of ht" by (rule ptrs_of_cong) (simp_all add: ht1_def doubled_simps)
  then have ptrs: "ptrs_of ht1 ys = ptrs ht" "ptrs ht1 = ptrs ht" using ys(3) tab by (simp_all add: ptrs_def)
  have room: "ht_elems ht1 + 1 \<le> ht_max ht1"
    using doubled_max [OF inv] unfolding ht1_def by (simp add: doubled_simps)
  have "slots_ok rh ht1"
    using ys(2) by (simp add: ht1_def slots_ok_def chain_def slot_def)
  then have "ht_inv rh ht1"
  proof (rule ht_inv_intro [OF _ tab])
    show "ht_elems ht1 = size (ptrs_of ht1 ys)"
      using ptrs ht_invD(2) [OF inv] by (simp add: ht1_def doubled_simps)
    show "marks ys \<le> ht_deleted ht1" using ys(4) by simp
    have "ht_elems ht1 \<le> 3 * size_of ht1 div 4" using room unfolding ht1_def by (simp add: doubled_simps)
    then show "ht_elems ht1 + ht_deleted ht1 \<le> ht_max_with_deleted ht1"
      using max_le_max_with_deleted [of "size_of ht1"] unfolding ht1_def by (simp add: doubled_simps)
  qed (use bits room in \<open>simp_all add: ht1_def doubled_simps\<close>)
  then show ?thesis
    using ys(1) ptrs(2) room tab by (intro exI [of _ ht1]) (simp add: ht1_def doubled_simps)
qed

lemma htable_add_ok:
  assumes inv: "ht_inv rh ht" and p: "storable ht p" "rh p = Some h"
    and grow: "ht_elems ht + 1 \<le> ht_max ht \<or> calloc_ok \<and> ht_bits ht < 30"
  shows "\<exists>ht'. htable_add rh calloc_ok ht h p = Some (True, ht') \<and> ht_inv rh ht' \<and>
    ptrs ht' = add_mset p (ptrs ht) \<and> ht_elems ht' = ht_elems ht + 1 \<and> ht_common_bits ht' = common_after ht p"
proof (cases "ht_elems ht + 1 \<le> ht_max ht")
  case True
  then obtain xs where tab: "ht_table ht = Array xs"
    using ht_invD(6) [OF inv] by (cases "ht_table ht") (auto simp: htable_init_def HTABLE_INITIALIZER_def)
  show ?thesis
    using add_here_ok [OF inv tab True p] htable_add_here [OF True] by simp
next
  case False
  then have c: "calloc_ok = True" and bits: "ht_bits ht < 30" using grow by auto
  from double_table_inv [OF inv bits] obtain ht1 where
    ht1: "double_table rh True ht = Some (True, ht1)" "ht_inv rh ht1" "ptrs ht1 = ptrs ht" "ht_elems ht1 = ht_elems ht"
      "ht_common_mask ht1 = ht_common_mask ht" "ht_common_bits ht1 = ht_common_bits ht"
      "ht_elems ht1 + 1 \<le> ht_max ht1" "ht_table ht1 \<noteq> Perfect_bit"
    by blast
  then obtain ys where tab: "ht_table ht1 = Array ys" by (cases "ht_table ht1") auto
  have "storable ht1 p" "common_after ht1 p = common_after ht p"
    using p(1) ht1(4-6) by (simp_all add: storable_def common_after_def)
  then show ?thesis
    using add_here_ok [OF ht1(2) tab ht1(7) _ p(2)] htable_add_doubled [OF False ht1(1), of h p] ht1(3,4) c
    by simp
qed

lemma htable_get_ok:
  assumes inv: "ht_inv rh ht" and cmp: "\<And>p. p \<in># ptrs ht \<Longrightarrow> cmp p \<noteq> None"
    and hash: "\<And>p. p \<in># ptrs ht \<Longrightarrow> cmp p = Some True \<Longrightarrow> rh p = Some h"
  shows "\<exists>r. htable_get ht h cmp = Some r \<and>
    (if \<exists>p. p \<in># ptrs ht \<and> cmp p = Some True then r \<in># ptrs ht \<and> cmp r = Some True else r = NULL)"
proof -
  obtain r where "htable_get ht h cmp = Some r" "r \<noteq> NULL \<longrightarrow> r \<in># ptrs ht \<and> cmp r = Some True"
    "r = NULL \<longrightarrow> (\<forall>p \<in># ptrs ht. rh p = Some h \<longrightarrow> cmp p = Some False)"
    using htable_get_slots_ok [where h = h and cmp = cmp, OF ht_invD(1) [OF inv] ht_inv_empty [OF inv] cmp]
    by blast
  then show ?thesis using hash by fastforce
qed

lemma first_hit_delval:
  assumes inv: "ht_inv rh ht" and d: "free_at ht (hash_bucket ht h) d"
    and j: "j < d" "hit ht h j" "entry_at ht h j = p"
  shows "\<exists>ht'. htable_delval ht ((hash_bucket ht h + j) mod size_of ht) = Some ht' \<and> ht_inv rh ht' \<and>
    ptrs ht' = ptrs ht - {#p#} \<and> p \<in># ptrs ht \<and> ht_common_bits ht' = ht_common_bits ht"
proof -
  note ok = ht_invD(1) [OF inv]
  have valid: "entry_is_valid (slot ht (hash_bucket ht h) j)"
    using d j by (simp add: entry_cases free_at_def hit_def)
  have "ht_table ht \<noteq> Perfect_bit"
    using ht_invD(6) [OF inv] valid
    by (auto simp: slot_def slots_def htable_init_def HTABLE_INITIALIZER_def)
  then obtain xs where tab: "ht_table ht = Array xs" by (cases "ht_table ht") auto
  let ?i = "(hash_bucket ht h + j) mod size_of ht"
  have i: "?i < size_of ht" "entry_is_valid (xs ! ?i)" "get_raw_ptr ht (xs ! ?i) = p"
    using valid tab j(3) by (simp_all add: slot_def entry_at_def)
  obtain ys where ys: "htable_delval ht ?i
      = Some (ht\<lparr>ht_elems := ht_elems ht - 1, ht_deleted := ht_deleted ht + 1, ht_table := Array ys\<rparr>)"
    "ptrs_of ht ys = ptrs_of ht xs - {#p#}" "p \<in># ptrs_of ht xs" "marks ys = marks xs + 1"
    "slots_ok rh (ht\<lparr>ht_table := Array ys\<rparr>)"
    by (rule htable_delval_slots_ok [OF ok tab i])
  define ht1 where "ht1 = ht\<lparr>ht_elems := ht_elems ht - 1, ht_deleted := ht_deleted ht + 1, ht_table := Array ys\<rparr>"
  have cong: "ptrs_of ht1 = ptrs_of ht" by (rule ptrs_of_cong) (simp_all add: ht1_def)
  have nonempty: "0 < ht_elems ht"
    using ys(3) tab ht_invD(2) [OF inv] by (auto simp: ptrs_def gr0_conv_Suc dest: multi_member_split)
  have "slots_ok rh ht1"
    using ys(5) by (simp add: ht1_def slots_ok_def chain_def slot_def)
  then have "ht_inv rh ht1"
  proof (rule ht_inv_intro)
    show "ht_table ht1 = Array ys" by (simp add: ht1_def)
    show "ht_elems ht1 = size (ptrs_of ht1 ys)"
      using cong ys(2,3) ht_invD(2) [OF inv] tab by (simp add: ht1_def ptrs_def size_Diff_singleton)
    show "marks ys \<le> ht_deleted ht1" using ys(4) ht_invD(3) [OF inv] tab by (simp add: ht1_def)
    show "ht_elems ht1 + ht_deleted ht1 \<le> ht_max_with_deleted ht1"
      using nonempty ht_invD(5) [OF inv] by (simp add: ht1_def)
  qed (use ht_inv_Array [OF inv tab] ht_invD(4) [OF inv] in \<open>simp_all add: ht1_def\<close>)
  moreover have "ptrs ht1 = ptrs ht - {#p#}" "p \<in># ptrs ht" "ht_common_bits ht1 = ht_common_bits ht"
    using ys(2,3) cong tab by (simp_all add: ptrs_def ht1_def)
  ultimately show ?thesis using ys(1) by (auto simp: ht1_def)
qed

lemma htable_del_ok:
  assumes inv: "ht_inv rh ht" and p: "p \<in># ptrs ht \<Longrightarrow> rh p = Some h"
  shows "\<exists>ht'. htable_del ht h p = Some (p \<in># ptrs ht, ht') \<and> ht_inv rh ht' \<and> ptrs ht' = ptrs ht - {#p#} \<and>
    ht_common_bits ht' = ht_common_bits ht \<and> (p \<notin># ptrs ht \<longrightarrow> ht' = ht)"
proof -
  note ok = ht_invD(1) [OF inv]
  have len: "length (slots ht) = size_of ht" using ok by (simp add: slots_ok_def)
  obtain d where d: "free_at ht (hash_bucket ht h) d"
    using free_atE [OF ht_inv_empty [OF inv] hash_bucket_less] .
  have del: "htable_del ht h p = (case first_hit ht h (\<lambda>c. c = p) d 0 of
      None \<Rightarrow> Some (False, ht)
    | Some j \<Rightarrow> map_option (Pair True) (htable_delval ht ((hash_bucket ht h + j) mod size_of ht)))"
    using hit_in_ptrs [OF ok d] entry_not_NULL(1) [OF ok]
    by (intro htable_del_first_hit [OF len d]) blast
  show ?thesis
  proof (cases "first_hit ht h (\<lambda>c. c = p) d 0")
    case None
    then have "p \<notin># ptrs ht"
      using ptrs_hit [OF ok d] p by (auto simp: first_hit_None)
    then show ?thesis using None del inv by (auto simp: diff_single_trivial)
  next
    case (Some j)
    from first_hit_Some [OF this] obtain ht' where
      "htable_delval ht ((hash_bucket ht h + j) mod size_of ht) = Some ht'" "ht_inv rh ht'"
      "ptrs ht' = ptrs ht - {#p#}" "p \<in># ptrs ht" "ht_common_bits ht' = ht_common_bits ht"
      using first_hit_delval [OF inv d] by blast
    then show ?thesis using Some del by simp
  qed
qed

lemma ht_inv_cong:
  assumes "ht_inv rh ht" "\<And>p. p \<in># ptrs ht \<Longrightarrow> rh' p = rh p"
  shows "ht_inv rh' ht"
proof -
  have len: "length (slots ht) = size_of ht" using ht_invD(1) [OF assms(1)] by (simp add: slots_ok_def)
  have "rh' (get_raw_ptr ht (slots ht ! i)) = rh (get_raw_ptr ht (slots ht ! i))"
    if "i < size_of ht" "entry_is_valid (slots ht ! i)" for i
    using that in_ptrs_iff [OF len] by (intro assms(2)) blast
  then have "slots_ok rh' ht"
    using ht_invD(1) [OF assms(1)] by (auto simp: slots_ok_def entry_ok_def home_def)
  then show ?thesis using assms(1) by (simp add: ht_inv_def)
qed

section \<open>Pointers of one region\<close>

text \<open>
  Where all pointers have the same highest bit, as those of one heap have, that bit never
  becomes a shared bit of the mask, and every pointer is storable.
\<close>

definition in_region :: "nat \<Rightarrow> ptr \<Rightarrow> bool" where
  "in_region hb p \<longleftrightarrow> 0 < hb \<and> drop_bit hb p = 1"

definition region_inv :: "nat \<Rightarrow> rehash \<Rightarrow> htable \<Rightarrow> bool" where
  "region_inv hb rh ht \<longleftrightarrow> ht_inv rh ht \<and> \<not> bit (ht_common_bits ht) hb"

lemma in_region_bits:
  assumes "in_region hb p"
  shows "1 < p" "bit p hb" "bit p k \<Longrightarrow> k \<le> hb"
proof -
  have "drop_bit hb p = 1" using assms by (simp add: in_region_def)
  then have "bit (drop_bit hb p) k \<longleftrightarrow> k = 0" for k by (auto simp: bit_1_iff)
  then have shift: "bit p (hb + k) \<longleftrightarrow> k = 0" for k by (simp add: bit_drop_bit_eq)
  from shift [of 0] show set: "bit p hb" by simp
  from set assms show "1 < p" using word_gt_1 by (auto simp: in_region_def)
  show "k \<le> hb" if "bit p k" for k
    using shift [of "k - hb"] that by (cases "k \<le> hb") simp_all
qed

lemma reveal_bit_region: "in_region hb p \<Longrightarrow> reveal_bit p = hb"
  using in_region_bits [of hb p] reveal_bit_set [of p] by (meson le_antisym)

lemma storable_in_region:
  assumes "region_inv hb rh ht" "in_region hb p"
  shows "storable ht p"
proof -
  have "bit (p AND NOT (ht_common_bits ht)) hb"
    using assms in_region_bits(2) [OF assms(2)] bit_imp_le_length [of p hb] by (simp add: region_inv_def bit_simps)
  then have "1 < p AND NOT (ht_common_bits ht)" using assms(2) word_gt_1 by (auto simp: in_region_def)
  then show ?thesis using in_region_bits(1) [OF assms(2)] by (simp add: storable_def)
qed

lemma common_after_region:
  assumes "region_inv hb rh ht" "in_region hb p"
  shows "\<not> bit (common_after ht p) hb"
  using assms reveal_bit_region [OF assms(2)] by (auto simp: common_after_def region_inv_def bit_simps)

text \<open>The largest table has \<open>2 ^ 30\<close> buckets and grows no more at three quarters of them.\<close>

abbreviation (input) max_elems :: nat where "max_elems \<equiv> 805306368"

lemma may_grow:
  assumes "ht_inv rh ht" "size (ptrs ht) < max_elems"
  shows "ht_elems ht + 1 \<le> ht_max ht \<or> ht_bits ht < 30"
proof (cases "ht_table ht")
  case Perfect_bit
  then show ?thesis using ht_invD(6) [OF assms(1)] by (simp add: htable_init_def HTABLE_INITIALIZER_def)
next
  case (Array xs)
  then show ?thesis
    using ht_inv_Array [OF assms(1) Array] ht_invD(2) [OF assms(1)] assms(2)
    by (cases "ht_bits ht = 30") simp_all
qed

section \<open>The hash table as a container of pointers\<close>

interpretation requests: ptr_bag "region_inv hb" ptrs "in_region hb" max_elems htable_init
  htable_add htable_get htable_del for hb
proof
  show "region_inv hb rh htable_init \<and> ptrs htable_init = {#}" for rh
    using ht_inv_init by (simp add: region_inv_def htable_init_def HTABLE_INITIALIZER_def)
next
  fix rh rh' t
  assume "region_inv hb rh t" "\<And>p. p \<in># ptrs t \<Longrightarrow> rh' p = rh p"
  then show "region_inv hb rh' t" using ht_inv_cong by (auto simp: region_inv_def)
next
  fix rh t p
  assume "region_inv hb rh t" "p \<in># ptrs t"
  then show "p \<noteq> NULL \<and> rh p \<noteq> None"
    using entry_not_NULL [OF ht_invD(1)] by (auto simp: region_inv_def)
next
  fix rh t p h
  assume t: "region_inv hb rh t" and p: "in_region hb p" "rh p = Some h" and room: "size (ptrs t) < max_elems"
  then have "ht_inv rh t" by (simp add: region_inv_def)
  from htable_add_ok [OF this storable_in_region [OF t p(1)] p(2), of True] may_grow [OF this room]
  show "\<exists>t'. htable_add rh True t h p = Some (True, t') \<and> region_inv hb rh t' \<and> ptrs t' = add_mset p (ptrs t)"
    using common_after_region [OF t p(1)] by (auto simp: region_inv_def)
next
  fix rh t cmp h
  assume "region_inv hb rh t" "\<And>p. p \<in># ptrs t \<Longrightarrow> cmp p \<noteq> None"
    "\<And>p. p \<in># ptrs t \<Longrightarrow> cmp p = Some True \<Longrightarrow> rh p = Some h"
  then show "\<exists>r. htable_get t h cmp = Some r \<and>
      (if \<exists>p. p \<in># ptrs t \<and> cmp p = Some True then r \<in># ptrs t \<and> cmp r = Some True else r = NULL)"
    by (intro htable_get_ok [where rh = rh]) (simp_all add: region_inv_def)
next
  fix rh t p h
  assume "region_inv hb rh t" "p \<in># ptrs t" "rh p = Some h"
  then show "\<exists>t'. htable_del t h p = Some (True, t') \<and> region_inv hb rh t' \<and> ptrs t' = ptrs t - {#p#}"
    using htable_del_ok [of rh t p h] by (auto simp: region_inv_def)
qed

section \<open>Scanning\<close>

lemma htable_scan_find:
  assumes "length (slots ht) = size_of ht" "off \<le> size_of ht"
  shows "htable_scan ht off = Some (case find (\<lambda>i. entry_is_valid (slots ht ! i)) [off..<size_of ht] of
      None \<Rightarrow> (NULL, size_of ht)
    | Some i \<Rightarrow> (get_raw_ptr ht (slots ht ! i), i))"
  using assms(2)
proof (induction "size_of ht - off" arbitrary: off)
  case 0
  then show ?case by (subst htable_scan.simps) simp
next
  case (Suc x)
  then have off: "off < size_of ht" by simp
  then have "htable_scan ht (Suc off) = Some (case find (\<lambda>i. entry_is_valid (slots ht ! i)) [Suc off..<size_of ht] of
      None \<Rightarrow> (NULL, size_of ht)
    | Some i \<Rightarrow> (get_raw_ptr ht (slots ht ! i), i))"
    using Suc.hyps(2) by (intro Suc.hyps(1)) simp_all
  then show ?case
    using off assms(1) by (subst htable_scan.simps)
      (simp add: table_get_slots find_upt_step [of _ off])
qed

section \<open>Properties of the hash table\<close>

text \<open>A table with one pointer, for the witnesses; the hash of a pointer is the pointer itself.\<close>

definition table_of_24 :: htable where
  "table_of_24 =
     \<lparr>ht_bits = 1, ht_elems = 1, ht_deleted = 0, ht_max = 1, ht_max_with_deleted = 1,
      ht_common_mask = 0xFFFFFFFFFFFFFFEF, ht_common_bits = 8, ht_perfect_bit = 1,
      ht_table = Array [21, 0]\<rparr>"

lemma htable_add_24:
  "htable_add Some True htable_init 24 24 = Some (True, table_of_24)"
  by code_simp

lemma storable_24: "storable htable_init 24"
  by (simp add: storable_def htable_init_def HTABLE_INITIALIZER_def)

lemma table_of_24: "ht_inv Some table_of_24" "ptrs table_of_24 = {#24#}"
proof -
  have "ht_bits htable_init < 30" by (simp add: htable_init_def HTABLE_INITIALIZER_def)
  then show "ht_inv Some table_of_24" "ptrs table_of_24 = {#24#}"
    using htable_add_ok [OF ht_inv_init(1) storable_24, of Some 24 True] htable_add_24 ht_inv_init(2) by auto
qed

text \<open>C27. What \<open>make_hval\<close> packs into a bucket can be unpacked again: for a pointer that has the
  shared bits, and spare bits that fit the mask, \<open>get_raw_ptr\<close> gives the pointer back and
  \<open>get_extra_ptr_bits\<close> the spare bits.\<close>

theorem make_hval_unpacks:
  assumes "p AND ht_common_mask ht = ht_common_bits ht" "extra AND NOT (ht_common_mask ht) = 0"
  shows "get_raw_ptr ht (make_hval ht p extra) = p \<and> get_extra_ptr_bits ht (make_hval ht p extra) = extra"
  using make_hval_roundtrip [OF assms] by blast

theorem make_hval_unpacks_witness:
  "get_raw_ptr table_of_24 (make_hval table_of_24 24 5) = 24 \<and>
   get_extra_ptr_bits table_of_24 (make_hval table_of_24 24 5) = 5"
  by (rule make_hval_unpacks) (simp_all add: table_of_24_def)

text \<open>C14. \<open>htable_add\<close> either adds exactly the new pointer to the pointers the table holds, growing
  and rehashing the table as it must, or, exactly if it has to grow and calloc fails, returns
  false and leaves the table as it was; in both cases the invariant holds afterwards. The
  pointer must be storable: some bit of it above bit 0 will be kept in its bucket.\<close>

theorem htable_add_correct:
  assumes "ht_inv rh ht" "storable ht p" "rh p = Some h" "ht_elems ht + 1 \<le> ht_max ht \<or> ht_bits ht < 30"
  shows "\<exists>ok ht'. htable_add rh calloc_ok ht h p = Some (ok, ht') \<and> ht_inv rh ht' \<and>
    (ok \<longleftrightarrow> ht_elems ht + 1 \<le> ht_max ht \<or> calloc_ok) \<and>
    (if ok then ptrs ht' = add_mset p (ptrs ht) \<and> ht_elems ht' = ht_elems ht + 1 else ht' = ht)"
proof (cases "ht_elems ht + 1 \<le> ht_max ht \<or> calloc_ok")
  case True
  then show ?thesis using htable_add_ok [OF assms(1-3), of calloc_ok] assms(4) by auto
next
  case False
  then have "htable_add rh calloc_ok ht h p = Some (False, ht)"
    using assms(4) by (simp add: htable_add_def double_table_def)
  with False assms(1) show ?thesis by (intro exI [of _ False] exI [of _ ht]) simp
qed

theorem htable_add_correct_witness:
  "(\<exists>ok ht'. htable_add Some True htable_init 24 24 = Some (ok, ht') \<and> ht_inv Some ht' \<and>
     (ok \<longleftrightarrow> ht_elems htable_init + 1 \<le> ht_max htable_init \<or> True) \<and>
     (if ok then ptrs ht' = add_mset 24 (ptrs htable_init) \<and> ht_elems ht' = ht_elems htable_init + 1
      else ht' = htable_init)) \<and>
   (\<exists>ok ht'. htable_add Some False htable_init 24 24 = Some (ok, ht') \<and> ht_inv Some ht' \<and>
     (ok \<longleftrightarrow> ht_elems htable_init + 1 \<le> ht_max htable_init \<or> False) \<and>
     (if ok then ptrs ht' = add_mset 24 (ptrs htable_init) \<and> ht_elems ht' = ht_elems htable_init + 1
      else ht' = htable_init))"
  by (intro conjI; rule htable_add_correct [OF ht_inv_init(1) storable_24])
    (simp_all add: htable_init_def HTABLE_INITIALIZER_def)

text \<open>C15. In a well-formed table \<open>htable_get\<close> always returns, if the comparison is defined on the stored
  pointers: NULL, or a stored pointer of which the comparison holds. NULL means that the comparison
  fails for all the stored pointers that have the searched hash. So if it holds of pointers with
  that hash only, the result is NULL only if it holds of no stored pointer at all.\<close>

theorem htable_get_correct:
  assumes "ht_inv rh ht" "\<forall>p \<in># ptrs ht. cmp p \<noteq> None"
  shows "\<exists>r. htable_get ht h cmp = Some r \<and> (r \<noteq> NULL \<longrightarrow> r \<in># ptrs ht \<and> cmp r = Some True) \<and>
    (r = NULL \<longrightarrow> (\<forall>p \<in># ptrs ht. rh p = Some h \<longrightarrow> cmp p = Some False)) \<and>
    ((\<forall>p \<in># ptrs ht. cmp p = Some True \<longrightarrow> rh p = Some h) \<longrightarrow>
      (if \<exists>p \<in># ptrs ht. cmp p = Some True then r \<in># ptrs ht \<and> cmp r = Some True else r = NULL))"
proof -
  obtain r where r: "htable_get ht h cmp = Some r" "r \<noteq> NULL \<longrightarrow> r \<in># ptrs ht \<and> cmp r = Some True"
    "r = NULL \<longrightarrow> (\<forall>p \<in># ptrs ht. rh p = Some h \<longrightarrow> cmp p = Some False)"
    using htable_get_slots_ok [where h = h and cmp = cmp, OF ht_invD(1) [OF assms(1)] ht_inv_empty [OF assms(1)]] assms(2)
    by blast
  have "if \<exists>p \<in># ptrs ht. cmp p = Some True then r \<in># ptrs ht \<and> cmp r = Some True else r = NULL"
    if hash: "\<forall>p \<in># ptrs ht. cmp p = Some True \<longrightarrow> rh p = Some h"
  proof (cases "r = NULL")
    case True
    then have "\<not> (\<exists>p \<in># ptrs ht. cmp p = Some True)" using r(3) hash by force
    then show ?thesis using True by simp
  next
    case False
    then show ?thesis using r(2) by auto
  qed
  then show ?thesis using r by blast
qed

theorem htable_get_correct_witness:
  "htable_get table_of_24 24 (\<lambda>c. Some (c = 24)) = Some 24 \<and> htable_get table_of_24 32 (\<lambda>c. Some (c = 32)) = Some NULL"
  using htable_get_correct [OF table_of_24(1), of "\<lambda>c. Some (c = 24)" 24]
    htable_get_correct [OF table_of_24(1), of "\<lambda>c. Some (c = 32)" 32]
  by (auto simp: table_of_24(2))

text \<open>C16. In a well-formed table \<open>htable_del\<close> always returns, if it is called with the hash of the pointer
  (any hash will do for one that is not stored). It takes one occurrence of a stored pointer out
  of the table and returns true, and returns false and changes nothing for a pointer that is not
  stored.\<close>

theorem htable_del_correct:
  assumes "ht_inv rh ht" "p \<in># ptrs ht \<longrightarrow> rh p = Some h"
  shows "\<exists>ht'. htable_del ht h p = Some (p \<in># ptrs ht, ht') \<and> ht_inv rh ht' \<and>
    ptrs ht' = ptrs ht - {#p#} \<and> (p \<notin># ptrs ht \<longrightarrow> ht' = ht)"
proof -
  have "p \<in># ptrs ht \<Longrightarrow> rh p = Some h" using assms(2) by blast
  from htable_del_ok [OF assms(1) this] show ?thesis by blast
qed

theorem htable_del_correct_witness:
  "(\<exists>ht'. htable_del table_of_24 24 24 = Some (24 \<in># ptrs table_of_24, ht') \<and> ht_inv Some ht' \<and>
     ptrs ht' = ptrs table_of_24 - {#24#} \<and> (24 \<notin># ptrs table_of_24 \<longrightarrow> ht' = table_of_24)) \<and>
   (\<exists>ht'. htable_del table_of_24 24 32 = Some (32 \<in># ptrs table_of_24, ht') \<and> ht_inv Some ht' \<and>
     ptrs ht' = ptrs table_of_24 - {#32#} \<and> (32 \<notin># ptrs table_of_24 \<longrightarrow> ht' = table_of_24))"
  by (intro conjI; rule htable_del_correct [OF table_of_24(1)]) (simp_all add: table_of_24(2))

text \<open>C26. \<open>double_table\<close> keeps every pointer: it moves all entries into an array twice as large, finds
  each its place by its hash, and leaves room for one entry more.\<close>

theorem double_table_keeps:
  assumes "ht_inv rh ht" "ht_bits ht < 30"
  shows "\<exists>ht'. double_table rh True ht = Some (True, ht') \<and> ht_inv rh ht' \<and> ptrs ht' = ptrs ht \<and>
    ht_bits ht' = ht_bits ht + 1 \<and> ht_deleted ht' = 0 \<and> ht_elems ht' + 1 \<le> ht_max ht'"
  using double_table_inv [OF assms] by blast

theorem double_table_keeps_witness:
  "\<exists>ht'. double_table Some True table_of_24 = Some (True, ht') \<and> ht_inv Some ht' \<and> ptrs ht' = ptrs table_of_24 \<and>
    ht_bits ht' = ht_bits table_of_24 + 1 \<and> ht_deleted ht' = 0 \<and> ht_elems ht' + 1 \<le> ht_max ht'"
  by (rule double_table_keeps [OF table_of_24(1)]) (simp add: table_of_24_def)

text \<open>\<open>rehash_table\<close> keeps every pointer and clears every mark of a deleted entry; walking once round
  from the first empty bucket, it leaves every entry reachable from its home bucket.\<close>

theorem rehash_table_keeps:
  assumes "ht_inv rh ht" "ht_table ht \<noteq> Perfect_bit"
  shows "\<exists>ht'. rehash_table rh ht = Some ht' \<and> ht_inv rh ht' \<and> ptrs ht' = ptrs ht \<and>
    ht_deleted ht' = 0 \<and> HTABLE_DELETED \<notin> set (slots ht')"
proof -
  obtain xs where tab: "ht_table ht = Array xs" using assms(2) by (cases "ht_table ht") auto
  obtain ys where ys: "rehash_table rh ht = Some (ht\<lparr>ht_table := Array ys, ht_deleted := 0\<rparr>)"
    "slots_ok rh (ht\<lparr>ht_table := Array ys\<rparr>)" "ptrs_of ht ys = ptrs_of ht xs" "marks ys = 0"
    by (rule rehash_table_ok [OF ht_invD(1) [OF assms(1)] tab ht_inv_empty [OF assms(1)]])
  define ht1 where "ht1 = ht\<lparr>ht_table := Array ys, ht_deleted := 0\<rparr>"
  have "ptrs_of ht1 = ptrs_of ht" by (rule ptrs_of_cong) (simp_all add: ht1_def)
  then have ptrs: "ptrs_of ht1 ys = ptrs ht" "ptrs ht1 = ptrs ht" using ys(3) tab by (simp_all add: ptrs_def ht1_def)
  have "slots_ok rh ht1"
    using ys(2) by (simp add: ht1_def slots_ok_def chain_def slot_def)
  then have "ht_inv rh ht1"
    by (rule ht_inv_intro [where xs = ys])
      (use ht_inv_Array [OF assms(1) tab] ht_invD [OF assms(1)] ptrs ys(4) in \<open>simp_all add: ht1_def\<close>)
  moreover have "HTABLE_DELETED \<notin> set ys" using ys(4) by (simp add: marks_def)
  ultimately show ?thesis using ys(1) ptrs by (intro exI [of _ ht1]) (simp add: ht1_def)
qed

theorem rehash_table_keeps_witness:
  "\<exists>ht'. rehash_table Some table_of_24 = Some ht' \<and> ht_inv Some ht' \<and> ptrs ht' = ptrs table_of_24 \<and>
    ht_deleted ht' = 0 \<and> HTABLE_DELETED \<notin> set (slots ht')"
  by (rule rehash_table_keeps [OF table_of_24(1)]) (simp add: table_of_24_def)

text \<open>\<open>update_common\<close> changes the bits kept in the buckets and no pointer: afterwards the new pointer
  has the shared bits too, the stored ones are the same and still found from their home bucket.\<close>

theorem update_common_keeps:
  assumes "ht_inv rh ht" "ht_table ht \<noteq> Perfect_bit" "storable ht p"
    "p AND ht_common_mask ht \<noteq> ht_common_bits ht"
  shows "ptrs (update_common ht p) = ptrs ht \<and> slots_ok rh (update_common ht p) \<and>
    p AND ht_common_mask (update_common ht p) = ht_common_bits (update_common ht p)"
proof -
  obtain xs where tab: "ht_table ht = Array xs" using assms(2) by (cases "ht_table ht") auto
  have "prepared rh ht p (update_common ht p)"
    using make_room_prepared [OF ht_invD(1) [OF assms(1)] tab ht_invD(2) [OF assms(1)] assms(3)] assms(4)
    by (simp add: make_room_def)
  then show ?thesis by (auto simp: prepared_def)
qed

theorem update_common_keeps_witness:
  "ptrs (update_common table_of_24 42) = ptrs table_of_24 \<and> slots_ok Some (update_common table_of_24 42) \<and>
   42 AND ht_common_mask (update_common table_of_24 42) = ht_common_bits (update_common table_of_24 42)"
proof (rule update_common_keeps [OF table_of_24(1)])
  show "ht_table table_of_24 \<noteq> Perfect_bit" by (simp add: table_of_24_def)
  show "storable table_of_24 42" by (simp add: storable_def table_of_24_def)
  show "42 AND ht_common_mask table_of_24 \<noteq> ht_common_bits table_of_24" by (simp add: table_of_24_def)
qed

text \<open>
  What a client may do with a table whose pointers come from one region, and the multiset it
  expects the table to hold.
\<close>

inductive table_run :: "nat \<Rightarrow> rehash \<Rightarrow> htable \<Rightarrow> ptr multiset \<Rightarrow> bool" for hb rh where
  init: "table_run hb rh htable_init {#}"
| added: "table_run hb rh t M \<Longrightarrow> in_region hb p \<Longrightarrow> rh p = Some h \<Longrightarrow>
    htable_add rh calloc_ok t h p = Some (True, t') \<Longrightarrow> table_run hb rh t' (add_mset p M)"
| no_memory: "table_run hb rh t M \<Longrightarrow> in_region hb p \<Longrightarrow> rh p = Some h \<Longrightarrow>
    htable_add rh calloc_ok t h p = Some (False, t') \<Longrightarrow> table_run hb rh t' M"
| removed: "table_run hb rh t M \<Longrightarrow> rh p = Some h \<Longrightarrow> htable_del t h p = Some (found, t') \<Longrightarrow>
    table_run hb rh t' (M - {#p#})"
| cleared: "table_run hb rh t M \<Longrightarrow> table_run hb rh (htable_clear t) {#}"

lemma htable_add_grows:
  assumes "ht_inv rh t" "htable_add rh calloc_ok t h p = Some r"
  shows "ht_elems t + 1 \<le> ht_max t \<or> ht_bits t < 30"
  using assms by (auto simp: htable_add_def double_table_def not_le split: if_splits)

lemma table_run_region:
  assumes "table_run hb rh t M"
  shows "region_inv hb rh t \<and> ptrs t = M"
  using assms
proof (induction rule: table_run.induct)
  case init
  then show ?case using ht_inv_init by (simp add: region_inv_def htable_init_def HTABLE_INITIALIZER_def)
next
  case (added t M p h calloc_ok t')
  then have inv: "ht_inv rh t" and st: "storable t p"
    using storable_in_region by (auto simp: region_inv_def)
  have "ht_elems t + 1 \<le> ht_max t \<or> calloc_ok \<and> ht_bits t < 30"
    using htable_add_grows [OF inv added.hyps(4)] added.hyps(4)
    by (cases calloc_ok) (auto simp: htable_add_def double_table_def split: if_splits)
  from htable_add_ok [OF inv st added.hyps(3) this]
  show ?case
    using added common_after_region [of hb rh t p] by (auto simp: region_inv_def)
next
  case (no_memory t M p h calloc_ok t')
  then have inv: "ht_inv rh t" and st: "storable t p"
    using storable_in_region by (auto simp: region_inv_def)
  have "\<not> (ht_elems t + 1 \<le> ht_max t \<or> calloc_ok \<and> ht_bits t < 30)"
    using htable_add_ok [OF inv st no_memory.hyps(3), of calloc_ok] no_memory.hyps(4) by auto
  then have "t' = t"
    using htable_add_grows [OF inv no_memory.hyps(4)] no_memory.hyps(4)
    by (auto simp: htable_add_def double_table_def)
  then show ?case using no_memory by simp
next
  case (removed t M p h found t')
  then show ?case using htable_del_ok [of rh t p h] by (auto simp: region_inv_def)
next
  case (cleared t M)
  then show ?case
    using ht_inv_init by (simp add: htable_clear_def region_inv_def htable_init_def HTABLE_INITIALIZER_def)
qed

text \<open>C3. A table refines a multiset: after any sequence of insertions, failed insertions, deletions and
  clears, with pointers that share their highest bit as the blocks of one heap do, the table is
  well-formed and holds exactly the pointers inserted and not deleted since.\<close>

theorem htable_refines_multiset:
  assumes "table_run hb rh t M"
  shows "ht_inv rh t \<and> ptrs t = M"
  using table_run_region [OF assms] by (simp add: region_inv_def)

theorem htable_refines_multiset_witness:
  "ht_inv Some table_of_24 \<and> ptrs table_of_24 = add_mset 24 {#}"
proof (rule htable_refines_multiset)
  show "table_run 4 Some table_of_24 (add_mset 24 {#})"
    by (rule table_run.added [OF table_run.init _ refl htable_add_24]) (simp add: in_region_def)
qed

text \<open>
  A pointer whose bucket would hold 0 or the mark of a deleted entry: it is put into the first
  bucket that holds no entry, and the table holds the same pointers as before.
\<close>

definition no_entry :: "htable \<Rightarrow> u64 \<Rightarrow> ptr \<Rightarrow> bool" where
  "no_entry ht h p \<longleftrightarrow> p AND ht_common_mask ht = ht_common_bits ht \<and>
     \<not> entry_is_valid (make_hval ht p (get_hash_ptr_bits ht h OR ht_perfect_bit ht))"

lemma no_entryD:
  assumes "no_entry ht h p"
  shows "\<not> entry_is_valid (make_hval ht p (get_hash_ptr_bits ht h OR (if here then ht_perfect_bit ht else 0)))"
    "\<not> 1 < p AND NOT (ht_common_mask ht)"
proof -
  have low: "\<not> bit (p AND NOT (ht_common_mask ht)) k \<and> \<not> bit (get_hash_ptr_bits ht h) k \<and> \<not> bit (ht_perfect_bit ht) k"
    if "0 < k" for k
    using assms that unfolding no_entry_def entry_is_valid_def HTABLE_DELETED_def word_gt_1 make_hval_def bit_or_iff by metis
  then show "\<not> entry_is_valid (make_hval ht p (get_hash_ptr_bits ht h OR (if here then ht_perfect_bit ht else 0)))"
    unfolding entry_is_valid_def HTABLE_DELETED_def word_gt_1 make_hval_def bit_or_iff using low by (cases here) (simp_all only: if_True if_False bit_0_eq bot_apply bot_bool_def, blast+)
  show "\<not> 1 < p AND NOT (ht_common_mask ht)"
    unfolding word_gt_1 using low by blast
qed

lemma ht_add_no_entry:
  assumes inv: "ht_inv rh ht" and tab: "ht_table ht = Array xs" and p: "no_entry ht h p"
  obtains i e where "ht_add ht p h = Some (ht\<lparr>ht_table := Array (xs[i := e])\<rparr>)"
    "i < length xs" "\<not> entry_is_valid (xs ! i)" "\<not> entry_is_valid e"
proof -
  note len = ht_inv_Array(5) [OF inv tab]
  have "size (ptrs_of ht xs) < length xs"
    using ht_inv_room [OF inv] ht_invD(2) [OF inv] tab by (simp add: len ptrs_def)
  then obtain f where f: "f < length xs" "\<not> entry_is_valid (xs ! f)" using exists_not_valid by blast
  obtain d where d: "d < size_of ht" "\<not> entry_is_valid (slot ht (hash_bucket ht h) d)"
    "\<forall>k<d. entry_is_valid (slot ht (hash_bucket ht h) k)"
    using first_step [where ht = ht and i = f and P = "\<lambda>e. \<not> entry_is_valid e", OF _ hash_bucket_less] f tab by (auto simp: len)
  define i where "i = (hash_bucket ht h + d) mod size_of ht"
  have "\<not> entry_is_valid (xs ! i)" using d(2) tab by (simp add: slot_def i_def)
  moreover have "i < length xs" by (simp add: i_def len)
  ultimately show thesis
    using that [OF ht_add_free [OF tab len d i_def]] no_entryD(1) [OF p] by blast
qed

lemma htable_get_not_stored:
  assumes ok: "slots_ok rh ht" and same: "ptrs ht' = ptrs ht" "length (slots ht') = size_of ht'" and p: "p \<notin># ptrs ht"
    and empty: "\<exists>i < size_of ht'. slots ht' ! i = 0"
  shows "htable_get ht' h (\<lambda>c. Some (c = p)) = Some NULL"
proof -
  let ?b = "hash_bucket ht' h"
  obtain d where d: "free_at ht' ?b d" using free_atE [OF empty hash_bucket_less] .
  have stored: "entry_at ht' h j \<in># ptrs ht" if "j < d" "hit ht' h j" for j
  proof -
    have "entry_is_valid (slot ht' ?b j)" using d that by (simp add: entry_cases free_at_def hit_def)
    then show ?thesis
      unfolding same(1) [symmetric] in_ptrs_iff [OF same(2)] entry_at_def slot_def
      by (intro exI [of _ "(?b + j) mod size_of ht'"]) simp
  qed
  have "first_hit ht' h (\<lambda>c. Some (c = p) = Some True) d 0 = None"
    using stored p by (auto simp: first_hit_None)
  then show ?thesis
    using htable_get_first_hit [OF same(2) d, of "\<lambda>c. Some (c = p)"] stored entry_not_NULL(1) [OF ok] by auto
qed

text \<open>C28. Outside one region a pointer can get lost. Take a well-formed table that need not grow or be
  rehashed for one entry more, and a pointer other than NULL that has the bits the table treats as shared and no bit of its own (but perhaps bit 0): its
  bucket keeps only bits of its hash, and if these are such that the word is 0 or 1, it is not an
  entry but an empty bucket or the mark of a deleted one. \<open>htable_add\<close> returns true and counts the
  pointer, but the table holds the same pointers as before and \<open>htable_get\<close> does not find it.\<close>

theorem htable_add_loses_pointer:
  assumes "ht_inv rh ht" "ht_elems ht + 1 \<le> ht_max ht" "ht_elems ht + 1 + ht_deleted ht \<le> ht_max_with_deleted ht"
    "p \<noteq> NULL" "p AND ht_common_mask ht = ht_common_bits ht"
    "make_hval ht p (get_hash_ptr_bits ht h OR ht_perfect_bit ht) \<le> HTABLE_DELETED"
  shows "\<exists>ht'. htable_add rh calloc_ok ht h p = Some (True, ht') \<and> ht_elems ht' = ht_elems ht + 1 \<and>
    ptrs ht' = ptrs ht \<and> p \<notin># ptrs ht' \<and> htable_get ht' h (\<lambda>c. Some (c = p)) = Some NULL"
proof -
  have p: "no_entry ht h p" using assms(5,6) by (simp add: no_entry_def entry_is_valid_def not_less)
  obtain xs where tab: "ht_table ht = Array xs"
    using ht_invD(6) [OF assms(1)] assms(2) by (cases "ht_table ht") (auto simp: htable_init_def HTABLE_INITIALIZER_def)
  note len = ht_inv_Array(5) [OF assms(1) tab] and ok = ht_invD(1) [OF assms(1)]
  obtain i e where add: "ht_add ht p h = Some (ht\<lparr>ht_table := Array (xs[i := e])\<rparr>)"
    and i: "i < length xs" "\<not> entry_is_valid (xs ! i)" "\<not> entry_is_valid e"
    by (rule ht_add_no_entry [OF assms(1) tab p])
  define ht' where "ht' = ht\<lparr>ht_elems := ht_elems ht + 1, ht_table := Array (xs[i := e])\<rparr>"
  have "ptrs_of ht' = ptrs_of ht" by (rule ptrs_of_cong) (simp_all add: ht'_def)
  then have ptrs: "ptrs ht' = ptrs ht"
    using i tab by (simp add: ptrs_def ht'_def slots_def ptrs_of_update)
  have "p \<notin># ptrs ht"
  proof
    assume "p \<in># ptrs ht"
    then obtain k where "entry_ok rh ht k (slots ht ! k)" "get_raw_ptr ht (slots ht ! k) = p"
      using in_ptrs_iff [of ht p] slots_okD(1) [OF ok] ok by (auto simp: slots_ok_def)
    then show False
      using raw_ptr_common(2) [of ht "slots ht ! k"] entry_okD(3) no_entryD(2) [OF p] ok by (auto simp: slots_ok_def)
  qed
  moreover have "marks (xs[i := e]) \<le> marks xs + 1" using i(1) by (auto simp: marks_update)
  then have "size (ptrs_of ht (xs[i := e])) + marks (xs[i := e]) < length (xs[i := e])"
    using ht_invD(2,3) [OF assms(1)] assms(3) ht_inv_Array(4) [OF assms(1) tab] i tab
    by (simp add: ptrs_of_update ptrs_def len)
  then have "\<exists>j < size_of ht'. slots ht' ! j = 0"
    using exists_empty [of ht "xs[i := e]"] by (simp add: ht'_def slots_def len)
  then have "htable_get ht' h (\<lambda>c. Some (c = p)) = Some NULL"
    using htable_get_not_stored [OF ok ptrs _ \<open>p \<notin># ptrs ht\<close>] len by (simp add: ht'_def slots_def)
  moreover have "htable_add rh calloc_ok ht h p = Some (True, ht')"
    using assms(2-5) add by (simp add: htable_add_def ht'_def)
  ultimately show ?thesis using ptrs by (intro exI [of _ ht']) (simp add: ht'_def)
qed

text \<open>After 0x30 and 0x70, whose highest bits differ, the pointer 0x10 is lost if its hash is 0.\<close>

definition table_of_112 :: htable where
  "table_of_112 = \<lparr>ht_bits = 2, ht_elems = 2, ht_deleted = 0, ht_max = 3, ht_max_with_deleted = 3,
    ht_common_mask = 0xFFFFFFFFFFFFFF9F, ht_common_bits = 16, ht_perfect_bit = 1, ht_table = Array [0x21, 0x60, 0, 0]\<rparr>"

theorem htable_add_loses_pointer_witness:
  "\<exists>ht'. htable_add (\<lambda>_. Some 0) True table_of_112 0 0x10 = Some (True, ht') \<and> ht_elems ht' = 3 \<and>
    ptrs ht' = {#0x30, 0x70#} \<and> 0x10 \<notin># ptrs ht' \<and> htable_get ht' 0 (\<lambda>c. Some (c = 0x10)) = Some NULL"
proof -
  let ?t1 = "\<lparr>ht_bits = 1, ht_elems = 1, ht_deleted = 0, ht_max = 1, ht_max_with_deleted = 1,
    ht_common_mask = 0xFFFFFFFFFFFFFFDF, ht_common_bits = 16, ht_perfect_bit = 1, ht_table = Array [0x21, 0]\<rparr>"
  have t1: "htable_add (\<lambda>_. Some 0) True htable_init 0 0x30 = Some (True, ?t1)" by code_simp
  have t2: "htable_add (\<lambda>_. Some 0) True ?t1 0 0x70 = Some (True, table_of_112)" by code_simp
  have "storable htable_init 0x30" by (simp add: storable_def htable_init_def HTABLE_INITIALIZER_def)
  from htable_add_ok [OF ht_inv_init(1) this, of "\<lambda>_. Some 0" 0 True] t1 ht_inv_init(2)
  have inv1: "ht_inv (\<lambda>_. Some 0) ?t1" "ptrs ?t1 = {#0x30#}" by (auto simp: htable_init_def HTABLE_INITIALIZER_def)
  have "storable ?t1 0x70" by (simp add: storable_def)
  from htable_add_ok [OF inv1(1) this, of 0 True] t2 inv1(2)
  have inv2: "ht_inv (\<lambda>_. Some 0) table_of_112" "ptrs table_of_112 = {#0x30, 0x70#}" by auto
  have "make_hval table_of_112 0x10 (get_hash_ptr_bits table_of_112 0 OR ht_perfect_bit table_of_112) \<le> HTABLE_DELETED"
    by code_simp
  from htable_add_loses_pointer [OF inv2(1) _ _ _ _ this, of True] inv2(2)
  show ?thesis by (simp add: table_of_112_def)
qed

end
