(* ===== verification/Request_Table.thy ===== *)
theory Request_Table
  imports Lookup3 Htable_Inv
begin

text \<open>
  The table of pending receives that both libraries keep (src/src/mpire/mpire.h): a hash table of
  pointers to blocks of type request_t, keyed by the address of the MPI_Request variable. The
  heap maps the address of each block obtained from malloc to its contents; no block is ever
  freed. \<open>malloc\<close> and \<open>calloc\<close> are arguments: the address of the next block (NULL if there is no
  memory), and whether the array of the hash table can be allocated.
\<close>

section \<open>Requests\<close>

record request_t =
  r_request :: ptr
  r_datatype :: u64
  r_buffer :: ptr
  r_bufsize :: int

type_synonym heap = "ptr \<Rightarrow> request_t option"

record request_state =
  heap :: heap
  requestHtab :: htable

text \<open>The static table before any \<open>htable_init\<close> is zero; its array is NULL, so every access is undefined.\<close>

definition static_table :: htable where
  "static_table =
     \<lparr>ht_bits = 0, ht_elems = 0, ht_deleted = 0, ht_max = 0, ht_max_with_deleted = 0,
      ht_common_mask = 0, ht_common_bits = 0, ht_perfect_bit = 0, ht_table = Array []\<rparr>"

record allocator =
  malloc :: "heap \<Rightarrow> ptr"
  calloc :: "htable \<Rightarrow> bool"
  big_endian :: bool

definition streq :: "heap \<Rightarrow> ptr \<Rightarrow> ptr \<Rightarrow> bool option" where
  "streq h e p = map_option (\<lambda>r. r_request r = p) (h e)"

text \<open>The 32-bit hash becomes a size_t.\<close>

definition hash_key :: "bool \<Rightarrow> ptr \<Rightarrow> u64" where
  "hash_key be p = ucast (hash_pointer be p 0)"

definition rehash_request :: "bool \<Rightarrow> heap \<Rightarrow> ptr \<Rightarrow> u64 option" where
  "rehash_request be h e = map_option (\<lambda>r. hash_key be (r_request r)) (h e)"

definition get_request :: "'e allocator_scheme \<Rightarrow> ptr \<Rightarrow> 'a request_state_scheme \<Rightarrow> stop + ptr" where
  "get_request al request s =
     or_undefined (htable_get (requestHtab s) (hash_key (big_endian al) request) (\<lambda>e. streq (heap s) e request))"

text \<open>The result of \<open>htable_add\<close> is ignored.\<close>

definition add_request ::
  "'e allocator_scheme \<Rightarrow> ptr \<Rightarrow> int \<Rightarrow> u64 \<Rightarrow> ptr \<Rightarrow> 'a request_state_scheme \<Rightarrow> stop + 'a request_state_scheme"
where
  "add_request al newBuffer newSize newDatatype newRequest s =
     and_then (get_request al newRequest s) (\<lambda>found.
       if found \<noteq> NULL then Inl Exit_failure
       else let newEntry = malloc al (heap s) in
         if newEntry = NULL then Inl Undefined
         else let h = (heap s)(newEntry \<mapsto>
                  \<lparr>r_request = newRequest, r_datatype = newDatatype, r_buffer = newBuffer, r_bufsize = newSize\<rparr>)
              in and_then (or_undefined (htable_add (rehash_request (big_endian al) h) (calloc al (requestHtab s))
                      (requestHtab s) (hash_key (big_endian al) newRequest) newEntry))
                   (\<lambda>(_, t). Inr (s\<lparr>heap := h, requestHtab := t\<rparr>)))"

definition del_request :: "u64 \<Rightarrow> ptr \<Rightarrow> 'a request_state_scheme \<Rightarrow> stop + 'a request_state_scheme" where
  "del_request hash p s =
     and_then (or_undefined (htable_del (requestHtab s) hash p)) (\<lambda>(res, t).
       if \<not> res then Inl (if heap s p = None then Undefined else Exit_failure)
       else Inr (s\<lparr>requestHtab := t\<rparr>))"

text \<open>\<open>print_hash_table\<close>; the result are the addresses it prints.\<close>

partial_function (option) print_loop :: "heap \<Rightarrow> htable \<Rightarrow> ptr \<Rightarrow> nat \<Rightarrow> ptr list option" where
  "print_loop h ht p off =
     (if p = NULL then Some []
      else do { r \<leftarrow> h p;
                (p, off) \<leftarrow> htable_next ht off;
                rest \<leftarrow> print_loop h ht p off;
                Some (r_request r # rest) })"

definition print_hash_table :: "'a request_state_scheme \<Rightarrow> ptr list option" where
  "print_hash_table s =
     do { (p, off) \<leftarrow> htable_first (requestHtab s); print_loop (heap s) (requestHtab s) p off }"

declare print_loop.simps [code]

section \<open>The table as a map\<close>

text \<open>
  \<open>pending hb be s m\<close>: the requests in the table are the values of \<open>m\<close>, each under its address; all
  blocks have the highest address bit \<open>hb\<close>. A request can be in no block that was not allocated.
\<close>

definition key_of :: "heap \<Rightarrow> ptr \<Rightarrow> ptr option" where
  "key_of h p = map_option r_request (h p)"

abbreviation (input) table_maps :: "nat \<Rightarrow> bool \<Rightarrow> heap \<Rightarrow> htable \<Rightarrow> (ptr \<rightharpoonup> ptr) \<Rightarrow> bool" where
  "table_maps hb be h t pm \<equiv> requests.maps hb (hash_key be) (key_of h) t pm"

definition pending :: "nat \<Rightarrow> bool \<Rightarrow> 'a request_state_scheme \<Rightarrow> (ptr \<rightharpoonup> request_t) \<Rightarrow> bool" where
  "pending hb be s m \<longleftrightarrow> finite (dom (heap s)) \<and>
     (\<exists>pm. table_maps hb be (heap s) (requestHtab s) pm \<and> m = (\<lambda>k. Option.bind (pm k) (heap s)))"

definition idle :: "'a request_state_scheme \<Rightarrow> 'a request_state_scheme" where
  "idle s = s\<lparr>requestHtab := htable_init\<rparr>"

text \<open>
  What the libraries rely on of malloc and calloc: as long as there is room, malloc gives a
  block nobody uses, whose address has the highest bit \<open>hb\<close>, and calloc does not fail.
\<close>

definition good_allocator :: "nat \<Rightarrow> 'e allocator_scheme \<Rightarrow> bool" where
  "good_allocator hb al \<longleftrightarrow>
     (\<forall>h. finite (dom h) \<longrightarrow> card (dom h) < max_elems \<longrightarrow> h (malloc al h) = None \<and> in_region hb (malloc al h)) \<and>
     (\<forall>t. calloc al t)"

lemma rehash_key: "rehash_request be h = (\<lambda>p. map_option (hash_key be) (key_of h p))"
  by (simp add: fun_eq_iff rehash_request_def key_of_def option.map_comp comp_def)

lemma streq_key: "(\<lambda>e. streq h e p) = (\<lambda>e. map_option (\<lambda>x. x = p) (key_of h e))"
  by (simp add: fun_eq_iff streq_def key_of_def option.map_comp comp_def)

lemma pendingE:
  assumes "pending hb be s m"
  obtains pm where "table_maps hb be (heap s) (requestHtab s) pm" "m = (\<lambda>k. Option.bind (pm k) (heap s))"
    "finite (dom (heap s))"
  using assms by (auto simp: pending_def)

lemma block_of_key:
  assumes "table_maps hb be h t pm" "pm k = Some p"
  shows "\<exists>r. h p = Some r \<and> r_request r = k"
  using requests.mapsD(2) [OF assms] by (auto simp: key_of_def)

lemma blocks_allocated: "table_maps hb be h t pm \<Longrightarrow> ran pm \<subseteq> dom h"
  using block_of_key by (fastforce simp: ran_def)

lemma pending_key:
  assumes "pending hb be s m" "m k = Some r"
  shows "r_request r = k"
proof -
  obtain pm where pm: "table_maps hb be (heap s) (requestHtab s) pm" "m = (\<lambda>k. Option.bind (pm k) (heap s))"
    using assms(1) by (rule pendingE)
  obtain p where "pm k = Some p" "heap s p = Some r" using assms(2) pm(2) by (auto split: bind_splits)
  then show ?thesis using block_of_key [OF pm(1)] by fastforce
qed

lemma pending_idle: "finite (dom (heap s)) \<Longrightarrow> pending hb be (idle s) Map.empty"
  using requests.maps_empty by (fastforce simp: pending_def idle_def)

lemma pending_start:
  assumes "finite (dom (heap s))" "requestHtab s = htable_init"
  shows "pending hb be s Map.empty"
  using pending_idle [OF assms(1), of hb be] assms(2) by (simp add: pending_def idle_def)

lemma pending_cong:
  "heap s' = heap s \<Longrightarrow> requestHtab s' = requestHtab s \<Longrightarrow> pending hb be s' m = pending hb be s m"
  by (simp add: pending_def)

text \<open>The pointers of the table are distinct blocks, so there are at most as many as blocks.\<close>

lemma table_size:
  assumes "table_maps hb be h t pm" "finite (dom h)"
  shows "size (ptrs t) \<le> card (dom h)"
proof -
  have count: "count (ptrs t) p = (if p \<in> ran pm then 1 else 0)" for p
    using assms(1) by (simp add: requests.maps_def)
  then have set: "set_mset (ptrs t) = ran pm"
    using requests.mapsD(3) [OF assms(1)] by auto
  have "size (ptrs t) = sum (count (ptrs t)) (set_mset (ptrs t))"
    by (simp add: size_multiset_overloaded_eq)
  also have "\<dots> = card (ran pm)" by (simp add: set count)
  also have "\<dots> \<le> card (dom h)" using blocks_allocated [OF assms(1)] assms(2) by (intro card_mono)
  finally show ?thesis .
qed

lemma get_request_maps:
  assumes "table_maps hb (big_endian al) (heap s) (requestHtab s) pm"
  shows "get_request al k s = Inr (case pm k of None \<Rightarrow> NULL | Some p \<Rightarrow> p)"
  by (simp add: get_request_def streq_key requests.get_maps [OF assms])

lemma get_request_pending:
  assumes "pending hb (big_endian al) s m"
  shows "\<exists>p. get_request al k s = Inr p \<and>
    (case m k of None \<Rightarrow> p = NULL | Some r \<Rightarrow> p \<noteq> NULL \<and> heap s p = Some r \<and> r_request r = k)"
proof -
  obtain pm where pm: "table_maps hb (big_endian al) (heap s) (requestHtab s) pm"
    "m = (\<lambda>k. Option.bind (pm k) (heap s))"
    using assms by (rule pendingE)
  show ?thesis
  proof (cases "pm k")
    case None
    then show ?thesis using get_request_maps [OF pm(1), of k] pm(2) by simp
  next
    case (Some p)
    then show ?thesis
      using get_request_maps [OF pm(1), of k] pm(2) block_of_key [OF pm(1) Some] requests.maps_not_NULL [OF pm(1) Some]
      by auto
  qed
qed

lemma add_request_pending:
  assumes s: "pending hb (big_endian al) s m" and k: "m k = None" and al: "good_allocator hb al"
    and room: "card (dom (heap s)) < max_elems"
  shows "\<exists>s'. add_request al b n d k s = Inr s' \<and>
    pending hb (big_endian al) s' (m(k \<mapsto> \<lparr>r_request = k, r_datatype = d, r_buffer = b, r_bufsize = n\<rparr>)) \<and>
    card (dom (heap s')) = Suc (card (dom (heap s))) \<and>
    s' = s\<lparr>heap := heap s', requestHtab := requestHtab s'\<rparr>"
proof -
  obtain pm where pm: "table_maps hb (big_endian al) (heap s) (requestHtab s) pm"
    "m = (\<lambda>k. Option.bind (pm k) (heap s))" "finite (dom (heap s))"
    using s by (rule pendingE)
  let ?p = "malloc al (heap s)" and ?r = "\<lparr>r_request = k, r_datatype = d, r_buffer = b, r_bufsize = n\<rparr>"
  let ?h = "(heap s)(?p \<mapsto> ?r)"
  have p: "heap s ?p = None" "in_region hb ?p" "calloc al (requestHtab s)"
    using al room pm(3) by (auto simp: good_allocator_def)
  have none: "pm k = None"
    using k pm(2) block_of_key [OF pm(1), of k] by (cases "pm k") auto
  have fresh: "?p \<notin> ran pm" using blocks_allocated [OF pm(1)] p(1) by auto
  have "\<exists>t'. htable_add (\<lambda>p. map_option (hash_key (big_endian al)) (key_of ?h p)) True (requestHtab s)
      (hash_key (big_endian al) k) ?p = Some (True, t') \<and>
    table_maps hb (big_endian al) ?h t' (pm(k \<mapsto> ?p)) \<and> ptrs t' = add_mset ?p (ptrs (requestHtab s))"
    using fresh table_size [OF pm(1,3)] room
    by (intro requests.add_maps [OF pm(1) none _ p(2)]) (auto simp: key_of_def)
  then obtain t' where t': "htable_add (\<lambda>p. map_option (hash_key (big_endian al)) (key_of ?h p)) True (requestHtab s)
      (hash_key (big_endian al) k) ?p = Some (True, t')" "table_maps hb (big_endian al) ?h t' (pm(k \<mapsto> ?p))"
    by blast
  let ?s = "s\<lparr>heap := ?h, requestHtab := t'\<rparr>"
  have "add_request al b n d k s = Inr ?s"
    using t'(1) p in_region_bits(1) [OF p(2)] none get_request_maps [OF pm(1), of k]
    by (auto simp: add_request_def rehash_key Let_def)
  moreover have "m(k \<mapsto> ?r) = (\<lambda>x. Option.bind ((pm(k \<mapsto> ?p)) x) ?h)"
  proof
    fix x
    have "pm x \<noteq> Some ?p" using fresh by (auto simp: ran_def)
    then show "(m(k \<mapsto> ?r)) x = Option.bind ((pm(k \<mapsto> ?p)) x) ?h" by (cases "pm x") (auto simp: pm(2))
  qed
  then have "pending hb (big_endian al) ?s (m(k \<mapsto> ?r))"
    using t'(2) pm(3) by (auto simp: pending_def)
  moreover have "card (dom (heap ?s)) = Suc (card (dom (heap s)))"
    using p(1) pm(3) by (simp add: domIff)
  ultimately show ?thesis by (intro exI [of _ ?s]) simp
qed

lemma del_request_pending:
  assumes s: "pending hb (big_endian al) s m" and p: "get_request al k s = Inr p" and k: "m k = Some r"
  shows "\<exists>t. del_request (hash_key (big_endian al) k) p s = Inr (s\<lparr>requestHtab := t\<rparr>) \<and>
    pending hb (big_endian al) (s\<lparr>requestHtab := t\<rparr>) (m(k := None))"
proof -
  obtain pm where pm: "table_maps hb (big_endian al) (heap s) (requestHtab s) pm"
    "m = (\<lambda>k. Option.bind (pm k) (heap s))" "finite (dom (heap s))"
    using s by (rule pendingE)
  have "pm k = Some p"
    using p k pm(2) get_request_maps [OF pm(1), of k] by (auto split: bind_splits)
  from requests.del_maps [OF pm(1) this] obtain t where t:
    "htable_del (requestHtab s) (hash_key (big_endian al) k) p = Some (True, t)"
    "table_maps hb (big_endian al) (heap s) t (pm(k := None))" by blast
  have "m(k := None) = (\<lambda>x. Option.bind ((pm(k := None)) x) (heap s))" by (simp add: pm(2) fun_eq_iff)
  then have "pending hb (big_endian al) (s\<lparr>requestHtab := t\<rparr>) (m(k := None))"
    unfolding pending_def using pm(3) t(2)
    by (intro conjI exI [of _ "pm(k := None)"]) simp_all
  moreover have "del_request (hash_key (big_endian al) k) p s = Inr (s\<lparr>requestHtab := t\<rparr>)"
    using t(1) by (simp add: del_request_def)
  ultimately show ?thesis by blast
qed

section \<open>Printing\<close>

lemma print_loop_scan:
  assumes len: "length (slots ht) = size_of ht"
    and blocks: "\<And>i. i < size_of ht \<Longrightarrow> entry_is_valid (slots ht ! i) \<Longrightarrow>
      get_raw_ptr ht (slots ht ! i) \<noteq> NULL \<and> h (get_raw_ptr ht (slots ht ! i)) \<noteq> None"
  shows "off \<le> size_of ht \<Longrightarrow> Option.bind (htable_scan ht off) (\<lambda>(p, off). print_loop h ht p off) =
    Some (map (\<lambda>i. r_request (the (h (get_raw_ptr ht (slots ht ! i)))))
      (filter (\<lambda>i. entry_is_valid (slots ht ! i)) [off..<size_of ht]))"
proof (induction "size_of ht - off" arbitrary: off rule: less_induct)
  case less
  show ?case
  proof (cases "find (\<lambda>i. entry_is_valid (slots ht ! i)) [off..<size_of ht]")
    case None
    then have "filter (\<lambda>i. entry_is_valid (slots ht ! i)) [off..<size_of ht] = []"
      by (auto simp: find_None_iff filter_empty_conv)
    then show ?thesis using None htable_scan_find [OF len less.prems]
      by (simp add: print_loop.simps)
  next
    case (Some i)
    then have i: "off \<le> i" "i < size_of ht" "entry_is_valid (slots ht ! i)"
      "\<And>j. off \<le> j \<Longrightarrow> j < i \<Longrightarrow> \<not> entry_is_valid (slots ht ! j)"
      by (auto simp: find_upt_Some_iff)
    have "[off..<size_of ht] = [off..<i] @ i # [Suc i..<size_of ht]"
      using i(1,2) upt_add_eq_append [of off i "size_of ht - i"] by (simp add: upt_conv_Cons)
    moreover have "filter (\<lambda>j. entry_is_valid (slots ht ! j)) [off..<i] = []"
      using i(4) by (auto simp: filter_empty_conv)
    moreover obtain r where r: "h (get_raw_ptr ht (slots ht ! i)) = Some r" "get_raw_ptr ht (slots ht ! i) \<noteq> NULL"
      using blocks i(2,3) by blast
    moreover have scan: "htable_scan ht off = Some (get_raw_ptr ht (slots ht ! i), i)"
      using Some htable_scan_find [OF len less.prems] by simp
    moreover have "Option.bind (htable_scan ht (Suc i)) (\<lambda>(p, off). print_loop h ht p off) =
      Some (map (\<lambda>i. r_request (the (h (get_raw_ptr ht (slots ht ! i)))))
        (filter (\<lambda>i. entry_is_valid (slots ht ! i)) [Suc i..<size_of ht]))"
      using i(1,2) by (intro less.hyps) auto
    then obtain q o1 where q: "htable_scan ht (Suc i) = Some (q, o1)" "print_loop h ht q o1 =
      Some (map (\<lambda>i. r_request (the (h (get_raw_ptr ht (slots ht ! i)))))
        (filter (\<lambda>i. entry_is_valid (slots ht ! i)) [Suc i..<size_of ht]))"
      by (auto simp: bind_eq_Some_conv)
    have "print_loop h ht (get_raw_ptr ht (slots ht ! i)) i = Some (r_request r #
        map (\<lambda>i. r_request (the (h (get_raw_ptr ht (slots ht ! i)))))
        (filter (\<lambda>i. entry_is_valid (slots ht ! i)) [Suc i..<size_of ht]))"
      using r q by (subst print_loop.simps) (simp add: htable_next_def)
    ultimately show ?thesis using i(3) by simp
  qed
qed

lemma map_filter_nth:
  "map (\<lambda>i. f (xs ! i)) (filter (\<lambda>i. P (xs ! i)) [0..<length xs]) = map f (filter P xs)"
proof -
  have "filter P xs = filter P (map ((!) xs) [0..<length xs])" by (simp only: map_nth)
  then show ?thesis by (simp add: filter_map comp_def)
qed

text \<open>What \<open>print_hash_table\<close> prints, on a table that holds the requests \<open>m\<close>.\<close>

lemma print_pending:
  assumes "pending hb be s m"
  shows "\<exists>xs. print_hash_table s = Some xs \<and> distinct xs \<and> set xs = dom m"
proof -
  obtain pm where pm: "table_maps hb be (heap s) (requestHtab s) pm"
    "m = (\<lambda>k. Option.bind (pm k) (heap s))" "finite (dom (heap s))"
    using assms by (rule pendingE)
  let ?t = "requestHtab s"
  let ?valid = "\<lambda>i. entry_is_valid (slots ?t ! i)"
    and ?addr = "\<lambda>p. r_request (the (heap s p))"
  have inv: "ht_inv (\<lambda>p. map_option (hash_key be) (key_of (heap s) p)) ?t"
    using requests.mapsD(1) [OF pm(1)] by (simp add: region_inv_def)
  then have ok: "slots_ok (\<lambda>p. map_option (hash_key be) (key_of (heap s) p)) ?t" by (rule ht_invD)
  then have len: "length (slots ?t) = size_of ?t" by (simp add: slots_ok_def)
  have block: "\<exists>k. pm k = Some p \<and> ?addr p = k \<and> heap s p \<noteq> None" if "p \<in># ptrs ?t" for p
    using requests.maps_key [OF pm(1) that] by (auto simp: key_of_def)
  have "get_raw_ptr ?t (slots ?t ! i) \<noteq> NULL \<and> heap s (get_raw_ptr ?t (slots ?t ! i)) \<noteq> None"
    if "i < size_of ?t" "?valid i" for i
    using that in_ptrs_iff [OF len] block entry_not_NULL(1) [OF ok] by blast
  from print_loop_scan [OF len this, of 0]
  have "print_hash_table s = Some (map (\<lambda>i. ?addr (get_raw_ptr ?t (slots ?t ! i))) (filter ?valid [0..<size_of ?t]))"
    by (simp add: print_hash_table_def htable_first_def)
  then have printed: "print_hash_table s = Some (map ?addr (map (get_raw_ptr ?t) (filter entry_is_valid (slots ?t))))"
    using map_filter_nth [of "\<lambda>e. ?addr (get_raw_ptr ?t e)" "slots ?t" entry_is_valid] len by simp
  let ?ps = "map (get_raw_ptr ?t) (filter entry_is_valid (slots ?t))"
  have ps: "mset ?ps = ptrs ?t" by (simp add: ptrs_def ptrs_of_def)
  then have set: "set ?ps = ran pm"
    using requests.mapsD(3) [OF pm(1)] by (metis (no_types, lifting) set_mset_mset subsetI subset_antisym)
  have "count (mset ?ps) p \<le> 1" for p
    using pm(1) ps by (simp add: requests.maps_def)
  then have "distinct ?ps"
    by (simp add: distinct_count_atmost_1 count_eq_zero_iff le_Suc_eq del: mset_map mset_filter)
  moreover have "inj_on ?addr (set ?ps)"
    unfolding set
  proof (rule inj_onI)
    fix p q
    assume in_table: "p \<in> ran pm" "q \<in> ran pm" and same: "?addr p = ?addr q"
    have "pm (?addr x) = Some x" if "x \<in> ran pm" for x
      using block [of x] that unfolding requests.mapsD(3) [OF pm(1)] by blast
    from this [OF in_table(1)] this [OF in_table(2)] show "p = q" unfolding same by simp
  qed
  ultimately have "distinct (map ?addr ?ps)" by (simp only: distinct_map simp_thms)
  moreover have "set (map ?addr ?ps) = dom m"
  proof -
    have known: "?addr p = k \<and> m k = heap s p \<and> heap s p \<noteq> None" if "pm k = Some p" for k p
      using block_of_key [OF pm(1) that] that pm(2) by auto
    have unknown: "m k = None" if "pm k = None" for k using that pm(2) by simp
    have "?addr ` ran pm = dom m"
    proof (intro set_eqI iffI)
      fix k assume "k \<in> ?addr ` ran pm"
      then obtain p x where "pm x = Some p" "k = ?addr p" by (auto simp: ran_def)
      then show "k \<in> dom m" using known [of x p] by auto
    next
      fix k assume "k \<in> dom m"
      then obtain p where "pm k = Some p" using unknown [of k] by (cases "pm k") auto
      then show "k \<in> ?addr ` ran pm" using known [of k p] by (metis image_eqI ranI)
    qed
    then show ?thesis using set by (simp only: list.set_map)
  qed
  ultimately show ?thesis using printed by blast
qed

section \<open>An allocator\<close>

text \<open>The first free block of a heap that starts at \<open>2 ^ 40\<close>; a request_t has 32 bytes.\<close>

definition block :: "nat \<Rightarrow> ptr" where
  "block i = word_of_nat (2 ^ 40 + 32 * i)"

definition first_fit :: allocator where
  "first_fit =
     \<lparr>malloc = \<lambda>h. (case find (\<lambda>i. h (block i) = None) [0..<max_elems] of Some i \<Rightarrow> block i | None \<Rightarrow> NULL),
      calloc = \<lambda>_. True, big_endian = False\<rparr>"

lemma unat_block: "i < max_elems \<Longrightarrow> unat (block i) = 2 ^ 40 + 32 * i"
  by (simp only: block_def unsigned_of_nat) (simp add: take_bit_nat_eq_self)

lemma block_in_region:
  assumes "i < max_elems"
  shows "in_region 40 (block i)"
proof -
  have "unat (drop_bit 40 (block i)) = (2 ^ 40 + 32 * i) div 2 ^ 40"
    using unat_block [OF assms] by (simp add: drop_bit_eq_div unat_div)
  also have "\<dots> = 1" using assms by simp
  finally have "drop_bit 40 (block i) = 1" by (simp add: word_unat_eq_iff)
  then show ?thesis by (simp add: in_region_def)
qed

lemma block_inj: "inj_on block {..<max_elems}"
  by (rule inj_onI) (metis add_left_cancel lessThan_iff mult_left_cancel unat_block zero_neq_numeral)

lemma first_fit_good: "good_allocator 40 first_fit"
proof -
  have "h (malloc first_fit h) = None \<and> in_region 40 (malloc first_fit h)"
    if h: "finite (dom h)" "card (dom h) < max_elems" for h
  proof (cases "find (\<lambda>i. h (block i) = None) [0..<max_elems]")
    case None
    then have "block ` {..<max_elems} \<subseteq> dom h" by (auto simp: find_None_iff dom_def)
    then have "card (block ` {..<max_elems}) \<le> card (dom h)" using h(1) by (rule card_mono [rotated])
    then show ?thesis using h(2) card_image [OF block_inj] by simp
  next
    case (Some i)
    then have "h (block i) = None" "i < max_elems" using find_SomeD by fastforce+
    then show ?thesis using Some block_in_region by (simp add: first_fit_def)
  qed
  then show ?thesis by (simp add: good_allocator_def first_fit_def)
qed

definition no_requests :: request_state where
  "no_requests = \<lparr>heap = Map.empty, requestHtab = htable_init\<rparr>"

lemma no_requests_pending: "pending hb be no_requests Map.empty" "dom (heap no_requests) = {}"
  using pending_idle [of no_requests] by (simp_all add: no_requests_def idle_def)

text \<open>A receive of four elements into the buffer at 8192, whose request is the variable at 4096.\<close>

definition one_request :: request_state where
  "one_request = projr (add_request first_fit 8192 4 7 4096 no_requests)"

definition one_pending :: "ptr \<rightharpoonup> request_t" where
  "one_pending = [4096 \<mapsto> \<lparr>r_request = 4096, r_datatype = 7, r_buffer = 8192, r_bufsize = 4\<rparr>]"

lemma one_request_pending:
  "pending 40 (big_endian first_fit) one_request one_pending"
  using add_request_pending [OF no_requests_pending(1) _ first_fit_good, where k = 4096 and b = 8192 and n = 4 and d = 7]
    no_requests_pending(2) by (auto simp: one_request_def one_pending_def)

section \<open>Properties of the request table\<close>

text \<open>C17. \<open>add_request\<close> refuses a second pending receive on the same MPI_Request variable: it ends the
  program. Otherwise it records the new receive under the address of its request and keeps all the
  others, given an allocator that has memory left.\<close>

theorem add_request_correct:
  assumes "pending hb (big_endian al) s m" "good_allocator hb al" "card (dom (heap s)) < max_elems"
  shows "if m k \<noteq> None then add_request al b n d k s = Inl Exit_failure
    else \<exists>s'. add_request al b n d k s = Inr s' \<and>
      pending hb (big_endian al) s' (m(k \<mapsto> \<lparr>r_request = k, r_datatype = d, r_buffer = b, r_bufsize = n\<rparr>))"
proof (cases "m k")
  case None
  then show ?thesis using add_request_pending [OF assms(1) None assms(2,3), of b n d] by auto
next
  case (Some r)
  then show ?thesis
    using get_request_pending [OF assms(1), of k] by (auto simp: add_request_def)
qed

theorem add_request_correct_witness:
  "(if Map.empty 4096 \<noteq> (None :: request_t option) then add_request first_fit 8192 4 7 4096 no_requests = Inl Exit_failure
    else \<exists>s'. add_request first_fit 8192 4 7 4096 no_requests = Inr s' \<and>
      pending 40 (big_endian first_fit) s' one_pending)"
  using add_request_correct [OF no_requests_pending(1) first_fit_good, where k = 4096 and b = 8192 and n = 4 and d = 7]
  by (simp add: no_requests_pending(2) one_pending_def)

text \<open>C18. A pending receive is found under the address of its request with the buffer, count and
  datatype it was added with, and what \<open>get_request\<close> returns can be given to \<open>del_request\<close>, which
  takes exactly this receive out of the table; of any other address \<open>get_request\<close> returns NULL.\<close>

theorem get_then_del_request:
  assumes "pending hb (big_endian al) s m"
  shows "\<exists>p. get_request al k s = Inr p \<and>
    (case m k of None \<Rightarrow> p = NULL
     | Some r \<Rightarrow> p \<noteq> NULL \<and> heap s p = Some r \<and> r_request r = k \<and>
         (\<exists>t. del_request (hash_key (big_endian al) k) p s = Inr (s\<lparr>requestHtab := t\<rparr>) \<and>
            pending hb (big_endian al) (s\<lparr>requestHtab := t\<rparr>) (m(k := None))))"
proof -
  obtain p where p: "get_request al k s = Inr p"
    "case m k of None \<Rightarrow> p = NULL | Some r \<Rightarrow> p \<noteq> NULL \<and> heap s p = Some r \<and> r_request r = k"
    using get_request_pending [OF assms, of k] by blast
  then show ?thesis using del_request_pending [OF assms p(1)] by (cases "m k") simp_all
qed

theorem get_then_del_request_witness:
  "\<exists>p. get_request first_fit 4096 one_request = Inr p \<and>
    (case one_pending 4096 of None \<Rightarrow> p = NULL
     | Some r \<Rightarrow> p \<noteq> NULL \<and> heap one_request p = Some r \<and> r_request r = 4096 \<and>
         (\<exists>t. del_request (hash_key (big_endian first_fit) 4096) p one_request = Inr (one_request\<lparr>requestHtab := t\<rparr>) \<and>
            pending 40 (big_endian first_fit) (one_request\<lparr>requestHtab := t\<rparr>)
              (one_pending(4096 := None))))"
  by (rule get_then_del_request [OF one_request_pending])

text \<open>\<open>print_hash_table\<close> returns, and prints the address of every pending request exactly once.\<close>

theorem print_hash_table_correct:
  assumes "pending hb be s m"
  shows "\<exists>xs. print_hash_table s = Some xs \<and> distinct xs \<and> set xs = dom m"
  using print_pending [OF assms] .

theorem print_hash_table_correct_witness:
  "\<exists>xs. print_hash_table one_request = Some xs \<and> distinct xs \<and>
     set xs = dom one_pending"
  by (rule print_hash_table_correct [OF one_request_pending])

text \<open>C29. \<open>add_request\<close> ignores the result of \<open>htable_add\<close>: if the table has to grow and calloc fails, it
  returns as if the receive were recorded, and the receive is not in the table.\<close>

theorem add_request_loses_receive:
  assumes "pending hb (big_endian al) s m" "m k = None"
    "heap s (malloc al (heap s)) = None" "malloc al (heap s) \<noteq> NULL"
    "\<not> calloc al (requestHtab s)" "ht_max (requestHtab s) \<le> ht_elems (requestHtab s)"
    "ht_bits (requestHtab s) < 30"
  shows "\<exists>s'. add_request al b n d k s = Inr s' \<and> pending hb (big_endian al) s' m \<and>
    get_request al k s' = Inr NULL"
proof -
  obtain pm where pm: "table_maps hb (big_endian al) (heap s) (requestHtab s) pm"
    "m = (\<lambda>k. Option.bind (pm k) (heap s))" "finite (dom (heap s))"
    using assms(1) by (rule pendingE)
  let ?p = "malloc al (heap s)" and ?r = "\<lparr>r_request = k, r_datatype = d, r_buffer = b, r_bufsize = n\<rparr>"
  let ?s = "s\<lparr>heap := (heap s)(?p \<mapsto> ?r)\<rparr>"
  have fresh: "?p \<notin> ran pm" using blocks_allocated [OF pm(1)] assms(3) by auto
  obtain q where q: "get_request al k s = Inr q" "q = NULL"
    using get_request_pending [OF assms(1), of k] assms(2) by auto
  have add: "add_request al b n d k s = Inr ?s"
    using q assms(4-7) by (simp add: add_request_def Let_def htable_add_def double_table_def)
  have "table_maps hb (big_endian al) (heap ?s) (requestHtab ?s) pm"
    using fresh by (auto intro: requests.maps_cong [OF pm(1)] simp: key_of_def)
  moreover have "m = (\<lambda>k. Option.bind (pm k) (heap ?s))"
  proof
    fix x
    have "pm x \<noteq> Some ?p" using fresh by (auto simp: ran_def)
    then show "m x = Option.bind (pm x) (heap ?s)" by (cases "pm x") (auto simp: pm(2))
  qed
  ultimately have "pending hb (big_endian al) ?s m" using pm(3) by (auto simp: pending_def)
  then show ?thesis using add get_request_pending [of hb al ?s m k] assms(2) by auto
qed

theorem add_request_loses_receive_witness:
  "\<exists>s'. add_request (first_fit\<lparr>calloc := \<lambda>_. False\<rparr>) 8192 4 7 4096 no_requests = Inr s' \<and>
     pending 40 (big_endian (first_fit\<lparr>calloc := \<lambda>_. False\<rparr>)) s' Map.empty \<and>
     get_request (first_fit\<lparr>calloc := \<lambda>_. False\<rparr>) 4096 s' = Inr NULL"
proof (rule add_request_loses_receive [OF no_requests_pending(1)])
  have "in_region 40 (malloc first_fit Map.empty)" using first_fit_good by (simp add: good_allocator_def)
  then show "malloc (first_fit\<lparr>calloc := \<lambda>_. False\<rparr>) (heap no_requests) \<noteq> NULL"
    using in_region_bits(1) [of 40 "malloc first_fit Map.empty"] by (simp add: no_requests_def) force
qed (simp_all add: no_requests_def htable_init_def HTABLE_INITIALIZER_def)

end
