(* ===== verification/Mpi_World.thy ===== *)
theory Mpi_World
  imports C_Library Request_Table
begin

unbundle bit_operations_syntax

text \<open>
  The process both libraries run in: its memory, byte by byte, the operating system, and the MPI
  library, whose state is hidden. MPI is not part of the repository: what the libraries call of
  it is a record of functions, an argument of every operation; what they rely on is stated as
  predicates of that record (\<open>file_laws\<close>). An MPI handle is a 64-bit word.
\<close>

section \<open>Memory\<close>

record 'w world = os +
  mem :: memory
  lib :: 'w

text \<open>An int or an MPI_Fint in memory has four bytes.\<close>

definition load_int :: "bool \<Rightarrow> memory \<Rightarrow> ptr \<Rightarrow> int" where
  "load_int be m p =
     (let b = (\<lambda>i. ucast (m (p + (if be then 3 - i else i))) :: u32)
      in sint (b 0 OR push_bit 8 (b 1) OR push_bit 16 (b 2) OR push_bit 24 (b 3)))"

definition load_ptr :: "bool \<Rightarrow> memory \<Rightarrow> ptr \<Rightarrow> ptr" where
  "load_ptr be m p =
     (let b = (\<lambda>i. push_bit (8 * i) (ucast (m (p + (if be then 7 - of_nat i else of_nat i)))) :: u64)
      in foldr (OR) (map b [0..<8]) 0)"

definition int_byte :: "int \<Rightarrow> nat \<Rightarrow> u8" where
  "int_byte i k = word_of_int (i div 2 ^ (8 * k))"

definition store_int :: "bool \<Rightarrow> ptr \<Rightarrow> int \<Rightarrow> memory \<Rightarrow> memory" where
  "store_int be p i m =
     (let q = (\<lambda>k. p + (if be then 3 - k else k))
      in m(q 0 := int_byte i 0, q 1 := int_byte i 1, q 2 := int_byte i 2, q 3 := int_byte i 3))"

definition int_cells :: "ptr \<Rightarrow> ptr set" where
  "int_cells p = {p, p + 1, p + 2, p + 3}"

lemma store_int_frame: "a \<notin> int_cells p \<Longrightarrow> store_int be p i m a = m a"
  by (auto simp: store_int_def int_cells_def Let_def)

lemma load_int_cong: "(\<And>a. a \<in> int_cells p \<Longrightarrow> m a = m' a) \<Longrightarrow> load_int be m p = load_int be m' p"
  by (simp add: load_int_def int_cells_def)

lemma load_int_is_int: "is_int (load_int be m p)"
proof -
  have "- (2 ^ 31) \<le> sint (w :: u32)" "sint (w :: u32) < 2 ^ 31" for w
    using sint_greater_eq [of w] sint_less [of w] by simp_all
  then show ?thesis by (simp add: load_int_def is_int_def Let_def)
qed

lemma store_int_agree: "m a = m' a \<Longrightarrow> store_int be p i m a = store_int be p i m' a"
  by (simp add: store_int_def Let_def)

lemma load_store_int:
  assumes "is_int i"
  shows "load_int be (store_int be p i m) p = i"
proof -
  have bit: "bit (int_byte i k) n \<longleftrightarrow> n < 8 \<and> bit i (8 * k + n)" for k n
    by (auto simp: int_byte_def bit_simps drop_bit_eq_div [symmetric])
  have "ucast (int_byte i 0) OR push_bit 8 (ucast (int_byte i 1)) OR push_bit 16 (ucast (int_byte i 2)) OR
      push_bit 24 (ucast (int_byte i 3)) = (word_of_int i :: u32)" (is "?w = _")
  proof (rule bit_word_eqI)
    fix n
    assume "n < LENGTH(32)"
    then show "bit ?w n \<longleftrightarrow> bit (word_of_int i :: u32) n"
      by (cases "n < 16"; cases "n < 24") (auto simp: bit_simps bit)
  qed
  moreover have "sint (word_of_int i :: u32) = i"
    using assms by (simp add: is_int_def sint_sbintrunc' signed_take_bit_int_eq_self)
  ultimately show ?thesis by (simp add: load_int_def store_int_def Let_def)
qed

section \<open>MPI\<close>

text \<open>
  The calls of the C interface of MPI, with their arguments: what a program calls, and what the
  capture library passes on to the MPI library.
\<close>

datatype mpi_call =
    Init ptr ptr
  | Finalize
  | Irecv ptr int u64 int int u64 ptr
  | Recv ptr int u64 int int u64 ptr
  | Wait ptr ptr
  | Waitall int ptr ptr
  | Bcast ptr int u64 int u64
  | Alltoall ptr int u64 ptr int u64 u64
  | Alltoallv ptr ptr ptr u64 ptr ptr ptr u64 u64
  | Allreduce ptr ptr int u64 u64 u64
  | Reduce ptr ptr int u64 u64 int u64
  | Send ptr int u64 int int u64
  | Isend ptr int u64 int int u64 ptr
  | Start ptr
  | Barrier u64
  | Get_rank u64 ptr
  | Get_size u64 ptr

text \<open>
  The calls of the Fortran interface. All arguments are addresses; the last one, of \<open>ierror\<close>, is
  where the call leaves its result.
\<close>

datatype f_call =
    F_Init ptr
  | F_Finalize ptr
  | F_Irecv ptr ptr ptr ptr ptr ptr ptr ptr
  | F_Recv ptr ptr ptr ptr ptr ptr ptr ptr
  | F_Wait ptr ptr ptr
  | F_Waitall ptr ptr ptr ptr
  | F_Bcast ptr ptr ptr ptr ptr ptr
  | F_Alltoall ptr ptr ptr ptr ptr ptr ptr ptr
  | F_Alltoallv ptr ptr ptr ptr ptr ptr ptr ptr ptr ptr
  | F_Allreduce ptr ptr ptr ptr ptr ptr ptr
  | F_Reduce ptr ptr ptr ptr ptr ptr ptr ptr
  | F_Send ptr ptr ptr ptr ptr ptr ptr
  | F_Isend ptr ptr ptr ptr ptr ptr ptr ptr
  | F_Start ptr ptr
  | F_Barrier ptr ptr
  | F_Rank ptr ptr ptr
  | F_Size ptr ptr ptr

datatype access_mode = Create_rdwr | Rdonly

text \<open>
  \<open>cells d n b\<close> are the addresses of \<open>n\<close> elements of the datatype \<open>d\<close> in the buffer \<open>b\<close>, in the
  order of the datatype. The last four fields are the size of the handles and statuses, and the
  addresses of the local variables \<open>c_request\<close> and \<open>c_status\<close> of the Fortran interface.
\<close>

record 'w mpi = allocator +
  PMPI :: "mpi_call \<Rightarrow> 'w world \<Rightarrow> int \<times> 'w world"
  PMPI_f :: "f_call \<Rightarrow> 'w world \<Rightarrow> 'w world"
  COMM_WORLD :: u64
  Comm_rank :: "u64 \<Rightarrow> 'w \<Rightarrow> int"
  Comm_size :: "u64 \<Rightarrow> 'w \<Rightarrow> int"
  Initialized :: "'w \<Rightarrow> bool"
  cells :: "u64 \<Rightarrow> int \<Rightarrow> ptr \<Rightarrow> ptr list"
  File_open :: "string \<Rightarrow> access_mode \<Rightarrow> 'w world \<Rightarrow> int \<times> u64 \<times> 'w world"
  File_write :: "u64 \<Rightarrow> ptr \<Rightarrow> int \<Rightarrow> u64 \<Rightarrow> 'w world \<Rightarrow> int \<times> 'w world"
  File_read :: "u64 \<Rightarrow> ptr \<Rightarrow> int \<Rightarrow> u64 \<Rightarrow> 'w world \<Rightarrow> int \<times> 'w world"
  File_close :: "u64 \<Rightarrow> 'w world \<Rightarrow> 'w world"
  Type_f2c :: "int \<Rightarrow> u64"
  Comm_f2c :: "int \<Rightarrow> u64"
  Op_f2c :: "int \<Rightarrow> u64"
  Request_f2c :: "int \<Rightarrow> u64"
  Request_c2f :: "u64 \<Rightarrow> int"
  load_request :: "memory \<Rightarrow> ptr \<Rightarrow> u64"
  store_request :: "ptr \<Rightarrow> u64 \<Rightarrow> memory \<Rightarrow> memory"
  Status_f2c :: "ptr \<Rightarrow> ptr \<Rightarrow> memory \<Rightarrow> memory"
  Status_c2f :: "ptr \<Rightarrow> ptr \<Rightarrow> memory \<Rightarrow> memory"
  sizeof_request :: nat
  sizeof_status :: nat
  c_request :: ptr
  c_status :: ptr

definition MPI_SUCCESS :: int where
  "MPI_SUCCESS = 0"

section \<open>The process\<close>

text \<open>The request table and \<open>MPIre_rank\<close> are the globals of mpire.h.\<close>

record 'w process = request_state +
  world :: "'w world"
  MPIre_rank :: int

text \<open>What a call returns: its result, mostly an error code of MPI, and the state after it.\<close>

type_synonym 's result = "stop + int \<times> 's"

definition pmpi :: "'w mpi \<Rightarrow> mpi_call \<Rightarrow> ('w, 'a) process_scheme \<Rightarrow> int \<times> ('w, 'a) process_scheme" where
  "pmpi M call s = (let (ret, w) = PMPI M call (world s) in (ret, s\<lparr>world := w\<rparr>))"

definition rank_of :: "'w mpi \<Rightarrow> u64 \<Rightarrow> ('w, 'a) process_scheme \<Rightarrow> int" where
  "rank_of M comm s = Comm_rank M comm (lib (world s))"

definition size_of_comm :: "'w mpi \<Rightarrow> u64 \<Rightarrow> ('w, 'a) process_scheme \<Rightarrow> int" where
  "size_of_comm M comm s = Comm_size M comm (lib (world s))"

definition get_int :: "'w mpi \<Rightarrow> ptr \<Rightarrow> ('w, 'a) process_scheme \<Rightarrow> int" where
  "get_int M p s = load_int (big_endian M) (mem (world s)) p"

definition get_ptr :: "'w mpi \<Rightarrow> ptr \<Rightarrow> ('w, 'a) process_scheme \<Rightarrow> ptr" where
  "get_ptr M p s = load_ptr (big_endian M) (mem (world s)) p"

definition on_mem :: "(memory \<Rightarrow> memory) \<Rightarrow> ('w, 'a) process_scheme \<Rightarrow> ('w, 'a) process_scheme" where
  "on_mem f s = s\<lparr>world := (world s)\<lparr>mem := f (mem (world s))\<rparr>\<rparr>"

definition put_int :: "'w mpi \<Rightarrow> ptr \<Rightarrow> int \<Rightarrow> ('w, 'a) process_scheme \<Rightarrow> ('w, 'a) process_scheme" where
  "put_int M p i = on_mem (store_int (big_endian M) p i)"

text \<open>The result code of a Fortran call is stored in its last argument.\<close>

definition store_ierror :: "'w mpi \<Rightarrow> ptr \<Rightarrow> ('w, 'a) process_scheme result \<Rightarrow> stop + ('w, 'a) process_scheme" where
  "store_ierror M ierror r = and_then r (\<lambda>(ret, s). Inr (put_int M ierror ret s))"

fun for_each :: "'i list \<Rightarrow> ('i \<Rightarrow> 's \<Rightarrow> stop + 's) \<Rightarrow> 's \<Rightarrow> stop + 's" where
  "for_each [] f s = Inr s"
| "for_each (i # is) f s = and_then (f i s) (for_each is f)"

text \<open>
  \<open>for (i = 0; i < *n; i++)\<close>, where the bound is read again in every round; an int is below \<open>2 ^ 31\<close>,
  so the loop ends.
\<close>

lemma and_then_cong [fundef_cong]:
  "r = r' \<Longrightarrow> (\<And>x. r' = Inr x \<Longrightarrow> f x = g x) \<Longrightarrow> and_then r f = and_then r' g"
  by (cases r') simp_all

function count_up :: "('s \<Rightarrow> int) \<Rightarrow> (nat \<Rightarrow> 's \<Rightarrow> stop + 's) \<Rightarrow> nat \<Rightarrow> 's \<Rightarrow> stop + 's" where
  "count_up n f i s =
     (if int i < n s \<and> i < 2 ^ 31 then and_then (f i s) (\<lambda>s. count_up n f (Suc i) s) else Inr s)"
  by pat_completeness auto

termination count_up
  by (relation "measure (\<lambda>(n, f, i, s). 2 ^ 31 - i)") auto

declare count_up.simps [simp del]

text \<open>\<open>total_recvcounts += recvcounts[i]\<close> for \<open>i\<close> below \<open>size\<close>; the sum is an int.\<close>

definition sum_ints :: "'w mpi \<Rightarrow> ptr \<Rightarrow> int \<Rightarrow> ('w, 'a) process_scheme \<Rightarrow> stop + int" where
  "sum_ints M p n s =
     for_each [0..<nat n] (\<lambda>i total. c_int (total + get_int M (element 4 p i) s)) 0"

text \<open>
  The end of a receive that may be pending, in both libraries: look it up, transfer its buffer to
  or from the log, and delete it. \<open>request\<close> is the address looked up, \<open>hashed\<close> the one whose hash is
  given to \<open>del_request\<close>.
\<close>

definition complete_request ::
  "'e allocator_scheme \<Rightarrow> (ptr \<Rightarrow> int \<Rightarrow> u64 \<Rightarrow> 'a request_state_scheme \<Rightarrow> stop + 'a request_state_scheme) \<Rightarrow>
   ptr \<Rightarrow> ptr \<Rightarrow> 'a request_state_scheme \<Rightarrow> stop + 'a request_state_scheme" where
  "complete_request al transfer request hashed s =
     and_then (get_request al request s) (\<lambda>newHtab.
       if newHtab = NULL then Inr s
       else and_then (or_undefined (heap s newHtab)) (\<lambda>r.
         and_then (transfer (r_buffer r) (r_bufsize r) (r_datatype r) s)
           (del_request (hash_key (big_endian al) hashed) newHtab)))"

section \<open>The log as an interface\<close>

text \<open>
  What either library does to transfer a buffer keeps the request table; then the end of a
  receive transfers its buffer and takes exactly this receive out of the table.
\<close>

locale log_transfer =
  fixes al :: "'e allocator_scheme"
    and transfer :: "ptr \<Rightarrow> int \<Rightarrow> u64 \<Rightarrow> 'a request_state_scheme \<Rightarrow> stop + 'a request_state_scheme"
  assumes keeps_table: "transfer b n d s = Inr s' \<Longrightarrow> heap s' = heap s \<and> requestHtab s' = requestHtab s"
begin

lemma complete_unknown:
  assumes "pending hb (big_endian al) s m" "m k = None"
  shows "complete_request al transfer k hashed s = Inr s"
  using get_request_pending [OF assms(1), of k] assms(2) by (auto simp: complete_request_def)

lemma complete_fails:
  assumes "pending hb (big_endian al) s m" "m k = Some r"
    "transfer (r_buffer r) (r_bufsize r) (r_datatype r) s = Inl e"
  shows "complete_request al transfer k hashed s = Inl e"
  using get_request_pending [OF assms(1), of k] assms(2,3) by (auto simp: complete_request_def)

lemma complete_known:
  assumes s: "pending hb (big_endian al) s m" and k: "m k = Some r"
    and transfer: "transfer (r_buffer r) (r_bufsize r) (r_datatype r) s = Inr s1"
  shows "\<exists>t. complete_request al transfer k k s = Inr (s1\<lparr>requestHtab := t\<rparr>) \<and>
    pending hb (big_endian al) (s1\<lparr>requestHtab := t\<rparr>) (m(k := None))"
proof -
  have same: "heap s1 = heap s" "requestHtab s1 = requestHtab s" using keeps_table [OF transfer] by auto
  then have s1: "pending hb (big_endian al) s1 m" using s pending_cong by blast
  obtain p where p: "get_request al k s = Inr p" "p \<noteq> NULL" "heap s p = Some r"
    using get_request_pending [OF s, of k] k by auto
  then have "get_request al k s1 = Inr p" by (simp add: get_request_def same)
  from del_request_pending [OF s1 this k] show ?thesis
    using p transfer by (auto simp: complete_request_def)
qed

end

section \<open>What is relied on of MPI\<close>

text \<open>
  The meaning of the hidden state: \<open>opened\<close> is the file a handle was opened on and not used on
  yet; \<open>posted\<close> are the cells a started receive may still be filling, by the handle of its
  request; \<open>scattered\<close> are the cells a call of MPI_Alltoallv receives into. \<open>valid\<close> are the calls
  the MPI standard gives a result to: their arguments are right and their requests are active or
  null, and the other processes do their part.
\<close>

record 'w ghost =
  opened :: "'w \<Rightarrow> u64 \<Rightarrow> path option"
  posted :: "'w \<Rightarrow> u64 \<rightharpoonup> ptr set"
  scattered :: "mpi_call \<Rightarrow> 'w world \<Rightarrow> ptr set"
  valid :: "mpi_call \<Rightarrow> 'w world \<Rightarrow> bool"
  valid_f :: "f_call \<Rightarrow> 'w world \<Rightarrow> bool"

definition same_comm :: "'w ghost \<Rightarrow> 'w mpi \<Rightarrow> 'w \<Rightarrow> 'w \<Rightarrow> bool" where
  "same_comm G M l l' \<longleftrightarrow> (\<forall>comm. Comm_rank M comm l' = Comm_rank M comm l \<and> Comm_size M comm l' = Comm_size M comm l) \<and>
     posted G l' = posted G l"

definition overwrite :: "u8 list \<Rightarrow> u8 list \<Rightarrow> u8 list" where
  "overwrite bs old = bs @ drop (length bs) old"

definition fill :: "ptr list \<Rightarrow> u8 list \<Rightarrow> memory \<Rightarrow> memory" where
  "fill cs bs m = fold (\<lambda>(a, b) m. m(a := b)) (zip cs bs) m"

text \<open>
  The input and output of MPI, on the native representation of data: a file opened for creation
  keeps its content, a write replaces its beginning by the cells of the buffer, a read fills
  the cells from its beginning. A file that does not exist cannot be opened for reading.
\<close>

definition create_law :: "'w ghost \<Rightarrow> 'w mpi \<Rightarrow> bool" where
  "create_law G M \<longleftrightarrow> (\<forall>name w. can_create w name \<longrightarrow> (\<exists>fh l. File_open M name Create_rdwr w =
      (MPI_SUCCESS, fh, w\<lparr>files := (files w)(resolve name \<mapsto> (case files w (resolve name) of None \<Rightarrow> [] | Some old \<Rightarrow> old)),
        lib := l\<rparr>) \<and> opened G l fh = Some (resolve name) \<and> same_comm G M (lib w) l))"

definition open_law :: "'w ghost \<Rightarrow> 'w mpi \<Rightarrow> bool" where
  "open_law G M \<longleftrightarrow> (\<forall>name w. files w (resolve name) \<noteq> None \<longrightarrow> name \<noteq> [] \<longrightarrow> \<not> names_dir name \<longrightarrow>
      (\<exists>fh l. File_open M name Rdonly w = (MPI_SUCCESS, fh, w\<lparr>lib := l\<rparr>) \<and>
        opened G l fh = Some (resolve name) \<and> same_comm G M (lib w) l))"

definition missing_law :: "'w mpi \<Rightarrow> bool" where
  "missing_law M \<longleftrightarrow> (\<forall>name w. files w (resolve name) = None \<longrightarrow> fst (File_open M name Rdonly w) \<noteq> MPI_SUCCESS)"

definition write_law :: "'w ghost \<Rightarrow> 'w mpi \<Rightarrow> bool" where
  "write_law G M \<longleftrightarrow> (\<forall>fh b n d w p old. opened G (lib w) fh = Some p \<longrightarrow> files w p = Some old \<longrightarrow> 0 \<le> n \<longrightarrow>
      (\<exists>e l. File_write M fh b n d w =
        (e, w\<lparr>files := (files w)(p \<mapsto> overwrite (map (mem w) (cells M d n b)) old), lib := l\<rparr>) \<and> same_comm G M (lib w) l))"

definition read_law :: "'w ghost \<Rightarrow> 'w mpi \<Rightarrow> bool" where
  "read_law G M \<longleftrightarrow> (\<forall>fh b n d w p bs. opened G (lib w) fh = Some p \<longrightarrow> files w p = Some bs \<longrightarrow> 0 \<le> n \<longrightarrow>
      (\<exists>e l. File_read M fh b n d w =
        (e, w\<lparr>mem := fill (cells M d n b) bs (mem w), lib := l\<rparr>) \<and> same_comm G M (lib w) l))"

definition close_law :: "'w ghost \<Rightarrow> 'w mpi \<Rightarrow> bool" where
  "close_law G M \<longleftrightarrow> (\<forall>fh w. \<exists>l. File_close M fh w = w\<lparr>lib := l\<rparr> \<and> same_comm G M (lib w) l)"

definition file_laws :: "'w ghost \<Rightarrow> 'w mpi \<Rightarrow> bool" where
  "file_laws G M \<longleftrightarrow> create_law G M \<and> open_law G M \<and> missing_law M \<and> write_law G M \<and> read_law G M \<and> close_law G M"

lemma same_comm_refl [simp]: "same_comm G M l l"
  by (simp add: same_comm_def)

lemma same_comm_trans: "same_comm G M l l' \<Longrightarrow> same_comm G M l' l'' \<Longrightarrow> same_comm G M l l''"
  by (simp add: same_comm_def)

lemma file_lawsD:
  assumes "file_laws G M"
  shows "can_create w name \<Longrightarrow> \<exists>fh l. File_open M name Create_rdwr w =
      (MPI_SUCCESS, fh, w\<lparr>files := (files w)(resolve name \<mapsto> (case files w (resolve name) of None \<Rightarrow> [] | Some old \<Rightarrow> old)),
        lib := l\<rparr>) \<and> opened G l fh = Some (resolve name) \<and> same_comm G M (lib w) l"
    "files w (resolve name) \<noteq> None \<Longrightarrow> name \<noteq> [] \<Longrightarrow> \<not> names_dir name \<Longrightarrow> \<exists>fh l. File_open M name Rdonly w =
      (MPI_SUCCESS, fh, w\<lparr>lib := l\<rparr>) \<and> opened G l fh = Some (resolve name) \<and> same_comm G M (lib w) l"
    "files w (resolve name) = None \<Longrightarrow> fst (File_open M name Rdonly w) \<noteq> MPI_SUCCESS"
    "opened G (lib w) fh = Some p \<Longrightarrow> files w p = Some old \<Longrightarrow> 0 \<le> n \<Longrightarrow> \<exists>e l. File_write M fh b n d w =
      (e, w\<lparr>files := (files w)(p \<mapsto> overwrite (map (mem w) (cells M d n b)) old), lib := l\<rparr>) \<and> same_comm G M (lib w) l"
    "opened G (lib w) fh = Some p \<Longrightarrow> files w p = Some bs \<Longrightarrow> 0 \<le> n \<Longrightarrow> \<exists>e l. File_read M fh b n d w =
      (e, w\<lparr>mem := fill (cells M d n b) bs (mem w), lib := l\<rparr>) \<and> same_comm G M (lib w) l"
    "\<exists>l. File_close M fh w = w\<lparr>lib := l\<rparr> \<and> same_comm G M (lib w) l"
  using assms
  by (simp_all add: file_laws_def create_law_def open_law_def missing_law_def write_law_def read_law_def close_law_def)

lemma fill_Cons: "fill (c # cs) (b # bs) m = fill cs bs (m(c := b))"
  by (simp add: fill_def)

lemma fill_copy: "fill cs (map f cs @ rest) m a = (if a \<in> set cs then f a else m a)"
proof (induction cs arbitrary: m)
  case Nil
  then show ?case by (simp add: fill_def)
next
  case (Cons c cs)
  then show ?case by (simp add: fill_Cons)
qed

lemma fill_overwrite: "fill cs (overwrite (map f cs) old) m a = (if a \<in> set cs then f a else m a)"
  by (simp add: overwrite_def fill_copy)

text \<open>
  A valid call of MPI succeeds, leaves the operating system and the communicators alone, and
  changes memory at the cells it receives into, at its request and status variables, and
  wherever a started receive is still filling its buffer. \<open>scattered\<close> are the cells MPI_Alltoallv
  receives into, which its displacements determine.
\<close>

abbreviation request_cells :: "'w mpi \<Rightarrow> ptr \<Rightarrow> ptr set" where
  "request_cells M p \<equiv> bytes_at (sizeof_request M) p"

abbreviation status_cells :: "'w mpi \<Rightarrow> ptr \<Rightarrow> ptr set" where
  "status_cells M p \<equiv> bytes_at (sizeof_status M) p"

fun receives :: "'w mpi \<Rightarrow> 'w ghost \<Rightarrow> mpi_call \<Rightarrow> 'w world \<Rightarrow> ptr set" where
  "receives M G (Irecv b n d source tag comm request) w = set (cells M d n b)"
| "receives M G (Recv b n d source tag comm status) w = set (cells M d n b)"
| "receives M G (Bcast b n d root comm) w = (if Comm_rank M comm (lib w) = root then {} else set (cells M d n b))"
| "receives M G (Alltoall sb sn sd rb rn rd comm) w = set (cells M rd (rn * Comm_size M comm (lib w)) rb)"
| "receives M G (Allreduce sb rb n d op comm) w = set (cells M d n rb)"
| "receives M G (Reduce sb rb n d op root comm) w = (if Comm_rank M comm (lib w) = root then set (cells M d n rb) else {})"
| "receives M G (Alltoallv sb sn sv sd rb rn rv rd comm) w = scattered G (Alltoallv sb sn sv sd rb rn rv rd comm) w"
| "receives M G c w = {}"

fun controls :: "'w mpi \<Rightarrow> mpi_call \<Rightarrow> ptr set" where
  "controls M (Irecv b n d source tag comm request) = request_cells M request"
| "controls M (Recv b n d source tag comm status) = status_cells M status"
| "controls M (Wait request status) = request_cells M request \<union> status_cells M status"
| "controls M (Waitall n requests statuses) =
     (\<Union>i \<in> {..<nat n}. request_cells M (element (sizeof_request M) requests i) \<union>
        status_cells M (element (sizeof_status M) statuses i))"
| "controls M (Isend b n d dest tag comm request) = request_cells M request"
| "controls M (Start request) = request_cells M request"
| "controls M c = {}"

text \<open>
  The buffers posted before (\<open>P\<close>) and after (\<open>P'\<close>) a call, with the memory before and after it: a
  receive is posted under a new handle, and no more after a wait for its handle.
\<close>

fun posts :: "'w mpi \<Rightarrow> mpi_call \<Rightarrow> memory \<Rightarrow> memory \<Rightarrow> (u64 \<rightharpoonup> ptr set) \<Rightarrow> (u64 \<rightharpoonup> ptr set) \<Rightarrow> bool" where
  "posts M (Irecv b n d source tag comm request) mm mm' P P' \<longleftrightarrow>
     P (load_request M mm' request) = None \<and> P' = P(load_request M mm' request \<mapsto> set (cells M d n b))"
| "posts M (Wait request status) mm mm' P P' \<longleftrightarrow> P' = P(load_request M mm request := None)"
| "posts M (Waitall n requests statuses) mm mm' P P' \<longleftrightarrow>
     P' = P |` (- (\<lambda>i. load_request M mm (element (sizeof_request M) requests i)) ` {..<nat n})"
| "posts M c mm mm' P P' \<longleftrightarrow> P' = P"

definition call_law :: "'w ghost \<Rightarrow> 'w mpi \<Rightarrow> mpi_call \<Rightarrow> 'w world \<Rightarrow> bool" where
  "call_law G M c w \<longleftrightarrow> (\<exists>m l. PMPI M c w = (MPI_SUCCESS, w\<lparr>mem := m, lib := l\<rparr>) \<and>
     (\<forall>comm. Comm_rank M comm l = Comm_rank M comm (lib w) \<and> Comm_size M comm l = Comm_size M comm (lib w)) \<and>
     posts M c (mem w) m (posted G (lib w)) (posted G l) \<and>
     (\<forall>a. a \<notin> receives M G c w \<longrightarrow> a \<notin> controls M c \<longrightarrow> a \<notin> \<Union> (ran (posted G (lib w))) \<longrightarrow>
        m a = (case c of
                 Get_rank comm p \<Rightarrow> store_int (big_endian M) p (Comm_rank M comm (lib w)) (mem w) a
               | Get_size comm p \<Rightarrow> store_int (big_endian M) p (Comm_size M comm (lib w)) (mem w) a
               | _ \<Rightarrow> mem w a)))"

text \<open>A request variable is the bytes \<open>request_cells\<close>.\<close>

definition request_law :: "'w mpi \<Rightarrow> bool" where
  "request_law M \<longleftrightarrow> (\<forall>mm mm' p. (\<forall>a \<in> request_cells M p. mm a = mm' a) \<longrightarrow> load_request M mm p = load_request M mm' p)"

definition mpi_laws :: "'w ghost \<Rightarrow> 'w mpi \<Rightarrow> bool" where
  "mpi_laws G M \<longleftrightarrow> file_laws G M \<and> request_law M \<and>
     (\<forall>c w. (\<nexists>p q. c = Init p q) \<longrightarrow> valid G c w \<longrightarrow> call_law G M c w)"

lemma load_request_cong:
  "mpi_laws G M \<Longrightarrow> (\<And>a. a \<in> request_cells M p \<Longrightarrow> mm a = mm' a) \<Longrightarrow> load_request M mm p = load_request M mm' p"
  by (simp add: mpi_laws_def request_law_def)

text \<open>
  The Fortran interface: a conversion writes the variable it converts to; a Fortran status has
  as many bytes as one of C; the integer of an active request can be converted back.
\<close>

definition conversion_laws :: "'w ghost \<Rightarrow> 'w mpi \<Rightarrow> bool" where
  "conversion_laws G M \<longleftrightarrow>
     (\<forall>p i mm. is_int i \<longrightarrow> load_request M (store_request M p (Request_f2c M i) mm) p = Request_f2c M i) \<and>
     (\<forall>p h mm a. a \<notin> request_cells M p \<longrightarrow> store_request M p h mm a = mm a) \<and>
     (\<forall>p q mm a. a \<notin> status_cells M q \<longrightarrow> Status_f2c M p q mm a = mm a) \<and>
     (\<forall>p q mm a. a \<notin> status_cells M q \<longrightarrow> Status_c2f M p q mm a = mm a) \<and>
     (\<forall>l h. posted G l h \<noteq> None \<longrightarrow> is_int (Request_c2f M h) \<and> Request_f2c M (Request_c2f M h) = h)"

lemma conversion_lawsD:
  assumes "conversion_laws G M"
  shows "is_int i \<Longrightarrow> load_request M (store_request M p (Request_f2c M i) mm) p = Request_f2c M i"
    "a \<notin> request_cells M p \<Longrightarrow> store_request M p h mm a = mm a"
    "a \<notin> status_cells M q \<Longrightarrow> Status_f2c M p' q mm a = mm a"
    "a \<notin> status_cells M q \<Longrightarrow> Status_c2f M p' q mm a = mm a"
    "posted G l h \<noteq> None \<Longrightarrow> is_int (Request_c2f M h)"
    "posted G l h \<noteq> None \<Longrightarrow> Request_f2c M (Request_c2f M h) = h"
  using assms unfolding conversion_laws_def by blast+

text \<open>
  The functions of the Fortran interface that receive nothing, mpi_send_ to mpi_comm_size_, are not
  wrapped by the capture: \<open>valid_f\<close> are the calls of them that MPI gives a result to.
\<close>

fun controls_f :: "'w mpi \<Rightarrow> f_call \<Rightarrow> ptr set" where
  "controls_f M (F_Isend b n d dest tag comm request ierror) = int_cells request"
| "controls_f M (F_Start request ierror) = int_cells request"
| "controls_f M c = {}"

fun ierror_of :: "f_call \<Rightarrow> ptr" where
  "ierror_of (F_Init ierror) = ierror"
| "ierror_of (F_Finalize ierror) = ierror"
| "ierror_of (F_Irecv b n d source tag comm request ierror) = ierror"
| "ierror_of (F_Recv b n d source tag comm status ierror) = ierror"
| "ierror_of (F_Wait request status ierror) = ierror"
| "ierror_of (F_Waitall n requests statuses ierror) = ierror"
| "ierror_of (F_Bcast b n d root comm ierror) = ierror"
| "ierror_of (F_Alltoall sb sn sd rb rn rd comm ierror) = ierror"
| "ierror_of (F_Alltoallv sb sn sv sd rb rn rv rd comm ierror) = ierror"
| "ierror_of (F_Allreduce sb rb n d op comm ierror) = ierror"
| "ierror_of (F_Reduce sb rb n d op root comm ierror) = ierror"
| "ierror_of (F_Send b n d dest tag comm ierror) = ierror"
| "ierror_of (F_Isend b n d dest tag comm request ierror) = ierror"
| "ierror_of (F_Start request ierror) = ierror"
| "ierror_of (F_Barrier comm ierror) = ierror"
| "ierror_of (F_Rank comm p ierror) = ierror"
| "ierror_of (F_Size comm p ierror) = ierror"

definition other_law :: "'w ghost \<Rightarrow> 'w mpi \<Rightarrow> f_call \<Rightarrow> 'w world \<Rightarrow> bool" where
  "other_law G M c w \<longleftrightarrow> (\<exists>m l. PMPI_f M c w = w\<lparr>mem := m, lib := l\<rparr> \<and> same_comm G M (lib w) l \<and>
     (\<forall>a. a \<notin> controls_f M c \<longrightarrow> a \<notin> \<Union> (ran (posted G (lib w))) \<longrightarrow>
        m a = store_int (big_endian M) (ierror_of c) MPI_SUCCESS (case c of
                 F_Rank comm p ierror \<Rightarrow> store_int (big_endian M) p
                   (Comm_rank M (Comm_f2c M (load_int (big_endian M) (mem w) comm)) (lib w)) (mem w)
               | F_Size comm p ierror \<Rightarrow> store_int (big_endian M) p
                   (Comm_size M (Comm_f2c M (load_int (big_endian M) (mem w) comm)) (lib w)) (mem w)
               | _ \<Rightarrow> mem w) a))"

definition fortran_laws :: "'w ghost \<Rightarrow> 'w mpi \<Rightarrow> bool" where
  "fortran_laws G M \<longleftrightarrow> conversion_laws G M \<and> (\<forall>c w. valid_f G c w \<longrightarrow> other_law G M c w)"

section \<open>Names of log files\<close>

text \<open>
  A directory the log can be kept in. The capture library cuts its path off at 127 characters; up
  to 1000 characters the names of log files are complete.
\<close>

definition log_dir :: "'a os_scheme \<Rightarrow> string \<Rightarrow> bool" where
  "log_dir w d \<longleftrightarrow> d \<noteq> [] \<and> length d \<le> 127 \<and> is_dir w (resolve d) \<and> resolve d \<notin> denied w \<and>
     (\<forall>k. resolve d @ [print_int k] \<notin> dirs w)"

definition log_path :: "string \<Rightarrow> int \<Rightarrow> path" where
  "log_path d k = resolve d @ [print_int k]"

lemma print_int_name: "print_int k \<noteq> []" "print_int k \<noteq> ''.''"
proof -
  show "print_int k \<noteq> []" by (simp add: print_int_def)
  have "is_digit (List.last (print_int k))"
    using digits_are_digits [of "List.last (digits n)" n for n] last_in_set [OF digits_not_Nil]
    by (auto simp: print_int_def)
  then show "print_int k \<noteq> ''.''" by (auto simp: is_digit_def)
qed

lemma log_path_inj [simp]: "log_path d j = log_path d k \<longleftrightarrow> j = k"
  using print_int_inj by (auto simp: log_path_def)

definition log_name :: "string \<Rightarrow> int \<Rightarrow> string" where
  "log_name d k = snprintf 1024 (d @ ''/'' @ print_int k)"

lemma log_name_full:
  assumes "length d \<le> 1000" "is_int k"
  shows "log_name d k = d @ CHR ''/'' # print_int k"
  using assms length_print_int [OF assms(2)] by (simp add: log_name_def snprintf_def)

lemma log_entry:
  assumes "d \<noteq> []" "length d \<le> 1000" "is_int k"
  shows "resolve (log_name d k) = log_path d k" "\<not> names_dir (log_name d k)" "log_name d k \<noteq> []"
proof -
  note name = log_name_full [OF assms(2,3)]
  show "resolve (log_name d k) = log_path d k"
    using name resolve_entry [of "print_int k" d] print_int_name print_int_no_slash assms(1)
    by (simp add: log_path_def)
  show "log_name d k \<noteq> []" by (simp add: name)
  have "List.last (print_int k) \<in> set (print_int k)" using print_int_name(1) by (rule last_in_set)
  then have "List.last (print_int k) \<noteq> CHR ''/''" using print_int_no_slash by metis
  then show "\<not> names_dir (log_name d k)"
    using print_int_name(1) by (simp add: name names_dir_def)
qed

lemma log_can_create:
  assumes "log_dir w d" "is_int k"
  shows "can_create w (log_name d k)"
proof -
  have d: "d \<noteq> []" "length d \<le> 1000" using assms(1) by (auto simp: log_dir_def)
  have "log_path d k \<noteq> [''/'']"
  proof
    assume "log_path d k = [''/'']"
    then have "print_int k = ''/''" by (cases "resolve d") (auto simp: log_path_def)
    then show False using print_int_no_slash [of k] by simp
  qed
  then show ?thesis
    using assms(1) log_entry [OF d assms(2)] by (simp add: can_create_def log_dir_def is_dir_def log_path_def)
qed

end
