(* ===== verification/Capture.thy ===== *)
theory Capture
  imports Mpi_World
begin

text \<open>
  The capture library (src/src/mpire/mpire_capture.c): wrappers of the MPI functions that pass
  each call on to the MPI library and, in the process whose rank is to be captured, write the
  received data to the next file of the log. The code under DEBUG is in \<open>Debug_Trace\<close>. A function of the C
  interface returns its result and the new state; one of the Fortran interface stores the result
  in its argument \<open>ierror\<close>.
\<close>

section \<open>State\<close>

record 'w capture = "'w process" +
  cpt_write :: int
  MPIre_active_dump :: int
  MPIre_output_path :: string

section \<open>The log\<close>

text \<open>
  \<open>mkpath\<close> creates the prefixes that end before a slash, other than one in front; the result is
  -1 as soon as one neither exists nor can be created.
\<close>

definition path_prefixes :: "string \<Rightarrow> string list" where
  "path_prefixes s = map (\<lambda>i. take i s) (filter (\<lambda>i. s ! i = CHR ''/'') [1..<length s])"

fun mkpath_loop :: "string list \<Rightarrow> 'a os_scheme \<Rightarrow> int \<times> 'a os_scheme" where
  "mkpath_loop [] w = (0, w)"
| "mkpath_loop (p # ps) w =
     (case mkdir p w of
        (Some Other_errno, w) \<Rightarrow> (-1, w)
      | (_, w) \<Rightarrow> mkpath_loop ps w)"

definition mkpath :: "string \<Rightarrow> 'a os_scheme \<Rightarrow> stop + int \<times> 'a os_scheme" where
  "mkpath file_path w = (if file_path = [] then Inl Aborted else Inr (mkpath_loop (path_prefixes file_path) w))"

text \<open>
  \<open>getenv\<close> returning NULL crashes \<open>atoi\<close>. A failed open is noticed only if its error code is
  negative; the codes of MPI_File_write and MPI_File_close are ignored.
\<close>

definition write_in_file ::
  "'w mpi \<Rightarrow> ptr \<Rightarrow> int \<Rightarrow> u64 \<Rightarrow> ('w, 'a) capture_scheme \<Rightarrow> stop + ('w, 'a) capture_scheme" where
  "write_in_file M buf cnt datatype s =
     and_then (or_undefined (env (world s) ''MPIRE_ACTIVE_DUMP'')) (\<lambda>d.
     and_then (atoi d) (\<lambda>active.
       if active = 0 then Inr s
       else and_then (c_int (cpt_write s + 1)) (\<lambda>k.
         let filename = log_name (MPIre_output_path s) (cpt_write s);
             s = s\<lparr>cpt_write := k\<rparr>;
             (fp, file, w) = File_open M filename Create_rdwr (world s)
         in if fp < 0 then Inl Exit_failure
            else let (_, w) = File_write M file buf cnt datatype w;
                     w = File_close M file w
                 in Inr (s\<lparr>world := w\<rparr>))))"

section \<open>Start and end\<close>

definition default_path :: "int \<Rightarrow> string" where
  "default_path rank = ''.mpire/dumps/'' @ print_int rank @ ''/log/''"

text \<open>The number of processes goes to the file \<open>nprocs\<close>.\<close>

definition save_nprocs :: "'w mpi \<Rightarrow> ('w, 'a) capture_scheme \<Rightarrow> stop + ('w, 'a) capture_scheme" where
  "save_nprocs M s =
     (let filename = snprintf 1024 (MPIre_output_path s @ ''/nprocs'')
      in case write_text filename (print_int (size_of_comm M (COMM_WORLD M) s)) (world s) of
           None \<Rightarrow> Inl Exit_failure
         | Some w \<Rightarrow> Inr (s\<lparr>world := w\<rparr>))"

definition init_dump :: "('w, 'a) capture_scheme \<Rightarrow> stop + ('w, 'a) capture_scheme" where
  "init_dump s =
     (case env (world s) ''MPIRE_ACTIVE_DUMP'' of
        None \<Rightarrow> Inr (s\<lparr>world := (world s)\<lparr>env := (env (world s))(''MPIRE_ACTIVE_DUMP'' \<mapsto> ''1'')\<rparr>, MPIre_active_dump := 1\<rparr>)
      | Some d \<Rightarrow> and_then (atoi d) (\<lambda>a. Inr (s\<lparr>MPIre_active_dump := a\<rparr>)))"

definition output_path :: "('w, 'a) capture_scheme \<Rightarrow> string" where
  "output_path s =
     snprintf 128 (case env (world s) ''MPIRE_OUTPUT_PATH'' of
       None \<Rightarrow> default_path (MPIre_rank s) | Some p \<Rightarrow> p)"

definition make_output_dir :: "('w, 'a) capture_scheme \<Rightarrow> stop + ('w, 'a) capture_scheme" where
  "make_output_dir s =
     (if stat_ok (world s) (MPIre_output_path s) then Inr s
      else and_then (mkpath (MPIre_output_path s) (world s)) (\<lambda>(_, w). Inr (s\<lparr>world := w\<rparr>)))"

definition init_MPIre :: "'w mpi \<Rightarrow> ('w, 'a) capture_scheme \<Rightarrow> stop + ('w, 'a) capture_scheme" where
  "init_MPIre M s =
     (case env (world s) ''MPIRE_RANK'' of
        None \<Rightarrow> Inl Exit_failure
      | Some r \<Rightarrow> and_then (atoi r) (\<lambda>r.
          let s = s\<lparr>MPIre_rank := r\<rparr>
          in if rank_of M (COMM_WORLD M) s \<noteq> r then Inr s
             else and_then (init_dump s) (\<lambda>s.
               let s = s\<lparr>MPIre_output_path := output_path s, requestHtab := htable_init\<rparr>
               in and_then (make_output_dir s) (save_nprocs M))))"

definition MPI_Init :: "'w mpi \<Rightarrow> ptr \<Rightarrow> ptr \<Rightarrow> ('w, 'a) capture_scheme \<Rightarrow> ('w, 'a) capture_scheme result" where
  "MPI_Init M argc argv s =
     (let (ret, s) = pmpi M (Init argc argv) s in and_then (init_MPIre M s) (\<lambda>s. Inr (ret, s)))"

definition mpi_init_f :: "'w mpi \<Rightarrow> ptr \<Rightarrow> ('w, 'a) capture_scheme \<Rightarrow> stop + ('w, 'a) capture_scheme" where
  "mpi_init_f M ierror s =
     (let (ret, s) = pmpi M (Init 0 NULL) s in init_MPIre M (put_int M ierror ret s))"

definition MPI_Finalize :: "'w mpi \<Rightarrow> ('w, 'a) capture_scheme \<Rightarrow> ('w, 'a) capture_scheme result" where
  "MPI_Finalize M s =
     (let (ret, s) = pmpi M Finalize s in Inr (ret, s\<lparr>requestHtab := htable_clear (requestHtab s)\<rparr>))"

definition mpi_finalize_f :: "'w mpi \<Rightarrow> ptr \<Rightarrow> ('w, 'a) capture_scheme \<Rightarrow> stop + ('w, 'a) capture_scheme" where
  "mpi_finalize_f M ierror s =
     (let (ret, s) = pmpi M Finalize s; s = put_int M ierror ret s
      in Inr (s\<lparr>requestHtab := htable_clear (requestHtab s)\<rparr>))"

section \<open>Point-to-point communication\<close>

definition MPI_Irecv ::
  "'w mpi \<Rightarrow> ptr \<Rightarrow> int \<Rightarrow> u64 \<Rightarrow> int \<Rightarrow> int \<Rightarrow> u64 \<Rightarrow> ptr \<Rightarrow> ('w, 'a) capture_scheme \<Rightarrow> ('w, 'a) capture_scheme result"
where
  "MPI_Irecv M buf cnt datatype source tag comm request s =
     and_then (if rank_of M comm s = MPIre_rank s then add_request M buf cnt datatype request s else Inr s)
       (\<lambda>s. Inr (pmpi M (Irecv buf cnt datatype source tag comm request) s))"

text \<open>The Fortran \<open>request\<close> is converted, passed in the local variable \<open>c_request\<close>, and converted back.\<close>

definition mpi_irecv_f ::
  "'w mpi \<Rightarrow> ptr \<Rightarrow> ptr \<Rightarrow> ptr \<Rightarrow> ptr \<Rightarrow> ptr \<Rightarrow> ptr \<Rightarrow> ptr \<Rightarrow> ptr \<Rightarrow> ('w, 'a) capture_scheme \<Rightarrow>
   stop + ('w, 'a) capture_scheme"
where
  "mpi_irecv_f M buf cnt datatype source tag comm request ierror s =
     (let c_datatype = Type_f2c M (get_int M datatype s);
          c_comm = Comm_f2c M (get_int M comm s);
          s = on_mem (store_request M (c_request M) (Request_f2c M (get_int M request s))) s
      in and_then
        (if rank_of M c_comm s = MPIre_rank s then add_request M buf (get_int M cnt s) c_datatype request s else Inr s)
        (\<lambda>s. let (ret, s) = pmpi M (Irecv buf (get_int M cnt s) c_datatype (get_int M source s)
                   (get_int M tag s) c_comm (c_request M)) s;
                 s = put_int M ierror ret s
             in Inr (put_int M request (Request_c2f M (load_request M (mem (world s)) (c_request M))) s)))"

definition MPI_Recv ::
  "'w mpi \<Rightarrow> ptr \<Rightarrow> int \<Rightarrow> u64 \<Rightarrow> int \<Rightarrow> int \<Rightarrow> u64 \<Rightarrow> ptr \<Rightarrow> ('w, 'a) capture_scheme \<Rightarrow> ('w, 'a) capture_scheme result"
where
  "MPI_Recv M buf cnt datatype source tag comm status s =
     (let rank = rank_of M comm s;
          (ret, s) = pmpi M (Recv buf cnt datatype source tag comm status) s
      in and_then (if rank = MPIre_rank s then write_in_file M buf cnt datatype s else Inr s)
           (\<lambda>s. Inr (ret, s)))"

definition mpi_recv_f ::
  "'w mpi \<Rightarrow> ptr \<Rightarrow> ptr \<Rightarrow> ptr \<Rightarrow> ptr \<Rightarrow> ptr \<Rightarrow> ptr \<Rightarrow> ptr \<Rightarrow> ptr \<Rightarrow> ('w, 'a) capture_scheme \<Rightarrow>
   stop + ('w, 'a) capture_scheme"
where
  "mpi_recv_f M buf cnt datatype source tag comm status ierror s =
     (let c_datatype = Type_f2c M (get_int M datatype s);
          c_comm = Comm_f2c M (get_int M comm s);
          s = on_mem (Status_f2c M status (c_status M)) s
      in and_then (store_ierror M ierror (MPI_Recv M buf (get_int M cnt s) c_datatype (get_int M source s)
             (get_int M tag s) c_comm (c_status M) s))
           (\<lambda>s. Inr (on_mem (Status_c2f M (c_status M) status) s)))"

definition MPI_Wait :: "'w mpi \<Rightarrow> ptr \<Rightarrow> ptr \<Rightarrow> ('w, 'a) capture_scheme \<Rightarrow> ('w, 'a) capture_scheme result" where
  "MPI_Wait M request status s =
     (let rank = rank_of M (COMM_WORLD M) s;
          (ret, s) = pmpi M (Wait request status) s
      in and_then
           (if rank = MPIre_rank s then complete_request M (write_in_file M) request request s else Inr s)
           (\<lambda>s. Inr (ret, s)))"

text \<open>Here the converted request is not converted back.\<close>

definition mpi_wait_f :: "'w mpi \<Rightarrow> ptr \<Rightarrow> ptr \<Rightarrow> ptr \<Rightarrow> ('w, 'a) capture_scheme \<Rightarrow> stop + ('w, 'a) capture_scheme" where
  "mpi_wait_f M request status ierror s =
     (let s = on_mem (store_request M (c_request M) (Request_f2c M (get_int M request s))) s;
          s = on_mem (Status_f2c M status (c_status M)) s;
          rank = rank_of M (COMM_WORLD M) s;
          (ret, s) = pmpi M (Wait (c_request M) (c_status M)) s;
          s = put_int M ierror ret s
      in and_then
           (if rank = MPIre_rank s then complete_request M (write_in_file M) request request s else Inr s)
           (\<lambda>s. Inr (on_mem (Status_c2f M (c_status M) status) s)))"

text \<open>
  The request is looked up by the handle in \<open>array_of_requests[i]\<close>, as it is after the wait, and
  deleted by the hash of its address. An array of variable length must have an element.
\<close>

definition MPI_Waitall :: "'w mpi \<Rightarrow> int \<Rightarrow> ptr \<Rightarrow> ptr \<Rightarrow> ('w, 'a) capture_scheme \<Rightarrow> ('w, 'a) capture_scheme result" where
  "MPI_Waitall M cnt requests statuses s =
     (let rank = rank_of M (COMM_WORLD M) s;
          (ret, s) = pmpi M (Waitall cnt requests statuses) s
      in and_then
           (if rank \<noteq> MPIre_rank s then Inr s
            else if cnt < 1 then Inl Undefined
            else for_each [0..<nat cnt] (\<lambda>i s.
              let request = element (sizeof_request M) requests i
              in complete_request M (write_in_file M) (load_request M (mem (world s)) request) request s) s)
           (\<lambda>s. Inr (ret, s)))"

definition mpi_waitall_f :: "'w mpi \<Rightarrow> ptr \<Rightarrow> ptr \<Rightarrow> ptr \<Rightarrow> ptr \<Rightarrow> ('w, 'a) capture_scheme \<Rightarrow> stop + ('w, 'a) capture_scheme" where
  "mpi_waitall_f M cnt requests statuses ierror s =
     (if get_int M cnt s < 1 then Inl Undefined
      else let rank = rank_of M (COMM_WORLD M) s in
        and_then (count_up (get_int M cnt) (\<lambda>i s.
          let s = on_mem (store_request M (element (sizeof_request M) (c_request M) i)
                    (Request_f2c M (get_int M (element 4 requests i) s))) s
          in Inr (on_mem (Status_f2c M (element 4 statuses i) (element (sizeof_status M) (c_status M) i)) s)) 0 s) (\<lambda>s.
        let (ret, s) = pmpi M (Waitall (get_int M cnt s) (c_request M) (c_status M)) s;
            s = put_int M ierror ret s
        in and_then
          (if rank \<noteq> MPIre_rank s then Inr s
           else if get_int M cnt s < 1 then Inl Undefined
           else count_up (get_int M cnt) (\<lambda>i.
             complete_request M (write_in_file M) (element 4 requests i) (element 4 requests i)) 0 s) (\<lambda>s.
        count_up (get_int M cnt) (\<lambda>i s.
          Inr (on_mem (Status_c2f M (element (sizeof_status M) (c_status M) i) (element 4 statuses i)) s)) 0 s)))"

section \<open>Collective communication\<close>

definition MPI_Bcast ::
  "'w mpi \<Rightarrow> ptr \<Rightarrow> int \<Rightarrow> u64 \<Rightarrow> int \<Rightarrow> u64 \<Rightarrow> ('w, 'a) capture_scheme \<Rightarrow> ('w, 'a) capture_scheme result"
where
  "MPI_Bcast M buffer cnt datatype root comm s =
     (let rank = rank_of M comm s;
          (ret, s) = pmpi M (Bcast buffer cnt datatype root comm) s
      in and_then
           (if rank = MPIre_rank s \<and> rank \<noteq> root then write_in_file M buffer cnt datatype s else Inr s)
           (\<lambda>s. Inr (ret, s)))"

definition mpi_bcast_f ::
  "'w mpi \<Rightarrow> ptr \<Rightarrow> ptr \<Rightarrow> ptr \<Rightarrow> ptr \<Rightarrow> ptr \<Rightarrow> ptr \<Rightarrow> ('w, 'a) capture_scheme \<Rightarrow> stop + ('w, 'a) capture_scheme"
where
  "mpi_bcast_f M buffer cnt datatype root comm ierror s =
     store_ierror M ierror (MPI_Bcast M buffer (get_int M cnt s) (Type_f2c M (get_int M datatype s))
       (get_int M root s) (Comm_f2c M (get_int M comm s)) s)"

definition MPI_Alltoall ::
  "'w mpi \<Rightarrow> ptr \<Rightarrow> int \<Rightarrow> u64 \<Rightarrow> ptr \<Rightarrow> int \<Rightarrow> u64 \<Rightarrow> u64 \<Rightarrow> ('w, 'a) capture_scheme \<Rightarrow> ('w, 'a) capture_scheme result"
where
  "MPI_Alltoall M sendbuf sendcount sendtype recvbuf recvcount recvtype comm s =
     (let size = size_of_comm M comm s;
          rank = rank_of M comm s;
          (ret, s) = pmpi M (Alltoall sendbuf sendcount sendtype recvbuf recvcount recvtype comm) s
      in and_then
           (if rank = MPIre_rank s
            then and_then (c_int (recvcount * size)) (\<lambda>n. write_in_file M recvbuf n recvtype s) else Inr s)
           (\<lambda>s. Inr (ret, s)))"

definition mpi_alltoall_f ::
  "'w mpi \<Rightarrow> ptr \<Rightarrow> ptr \<Rightarrow> ptr \<Rightarrow> ptr \<Rightarrow> ptr \<Rightarrow> ptr \<Rightarrow> ptr \<Rightarrow> ptr \<Rightarrow> ('w, 'a) capture_scheme \<Rightarrow>
   stop + ('w, 'a) capture_scheme"
where
  "mpi_alltoall_f M sendbuf sendcount sendtype recvbuf recvcount recvtype comm ierror s =
     store_ierror M ierror (MPI_Alltoall M sendbuf (get_int M sendcount s) (Type_f2c M (get_int M sendtype s))
       recvbuf (get_int M recvcount s) (Type_f2c M (get_int M recvtype s)) (Comm_f2c M (get_int M comm s)) s)"

definition MPI_Alltoallv ::
  "'w mpi \<Rightarrow> ptr \<Rightarrow> ptr \<Rightarrow> ptr \<Rightarrow> u64 \<Rightarrow> ptr \<Rightarrow> ptr \<Rightarrow> ptr \<Rightarrow> u64 \<Rightarrow> u64 \<Rightarrow> ('w, 'a) capture_scheme \<Rightarrow>
   ('w, 'a) capture_scheme result"
where
  "MPI_Alltoallv M sendbuf sendcounts sdispls sendtype recvbuf recvcounts rdispls recvtype comm s =
     (let rank = rank_of M comm s;
          size = size_of_comm M comm s;
          (ret, s) = pmpi M (Alltoallv sendbuf sendcounts sdispls sendtype recvbuf recvcounts rdispls recvtype comm) s
      in and_then
           (if rank = MPIre_rank s
            then and_then (sum_ints M recvcounts size s) (\<lambda>n. write_in_file M recvbuf n recvtype s) else Inr s)
           (\<lambda>s. Inr (ret, s)))"

text \<open>
  The count and displacement arrays of the Fortran interface are declared as arrays of pointers:
  what is passed on is the pointer in their first eight bytes.
\<close>

definition mpi_alltoallv_f ::
  "'w mpi \<Rightarrow> ptr \<Rightarrow> ptr \<Rightarrow> ptr \<Rightarrow> ptr \<Rightarrow> ptr \<Rightarrow> ptr \<Rightarrow> ptr \<Rightarrow> ptr \<Rightarrow> ptr \<Rightarrow> ptr \<Rightarrow> ('w, 'a) capture_scheme \<Rightarrow>
   stop + ('w, 'a) capture_scheme"
where
  "mpi_alltoallv_f M sendbuf sendcounts sdispls sendtype recvbuf recvcounts rdispls recvtype comm ierror s =
     store_ierror M ierror (MPI_Alltoallv M sendbuf (get_ptr M sendcounts s) (get_ptr M sdispls s)
       (Type_f2c M (get_int M sendtype s)) recvbuf (get_ptr M recvcounts s) (get_ptr M rdispls s)
       (Type_f2c M (get_int M recvtype s)) (Comm_f2c M (get_int M comm s)) s)"

definition MPI_Allreduce ::
  "'w mpi \<Rightarrow> ptr \<Rightarrow> ptr \<Rightarrow> int \<Rightarrow> u64 \<Rightarrow> u64 \<Rightarrow> u64 \<Rightarrow> ('w, 'a) capture_scheme \<Rightarrow> ('w, 'a) capture_scheme result"
where
  "MPI_Allreduce M sendbuf recvbuf cnt datatype op comm s =
     (let rank = rank_of M comm s;
          (ret, s) = pmpi M (Allreduce sendbuf recvbuf cnt datatype op comm) s
      in and_then (if rank = MPIre_rank s then write_in_file M recvbuf cnt datatype s else Inr s)
           (\<lambda>s. Inr (ret, s)))"

definition mpi_allreduce_f ::
  "'w mpi \<Rightarrow> ptr \<Rightarrow> ptr \<Rightarrow> ptr \<Rightarrow> ptr \<Rightarrow> ptr \<Rightarrow> ptr \<Rightarrow> ptr \<Rightarrow> ('w, 'a) capture_scheme \<Rightarrow> stop + ('w, 'a) capture_scheme"
where
  "mpi_allreduce_f M sendbuf recvbuf cnt datatype op comm ierror s =
     store_ierror M ierror (MPI_Allreduce M sendbuf recvbuf (get_int M cnt s) (Type_f2c M (get_int M datatype s))
       (Op_f2c M (get_int M op s)) (Comm_f2c M (get_int M comm s)) s)"

definition MPI_Reduce ::
  "'w mpi \<Rightarrow> ptr \<Rightarrow> ptr \<Rightarrow> int \<Rightarrow> u64 \<Rightarrow> u64 \<Rightarrow> int \<Rightarrow> u64 \<Rightarrow> ('w, 'a) capture_scheme \<Rightarrow> ('w, 'a) capture_scheme result"
where
  "MPI_Reduce M sendbuf recvbuf cnt datatype op root comm s =
     (let rank = rank_of M comm s;
          (ret, s) = pmpi M (Reduce sendbuf recvbuf cnt datatype op root comm) s
      in and_then
           (if rank = MPIre_rank s \<and> rank = root then write_in_file M recvbuf cnt datatype s else Inr s)
           (\<lambda>s. Inr (ret, s)))"

definition mpi_reduce_f ::
  "'w mpi \<Rightarrow> ptr \<Rightarrow> ptr \<Rightarrow> ptr \<Rightarrow> ptr \<Rightarrow> ptr \<Rightarrow> ptr \<Rightarrow> ptr \<Rightarrow> ptr \<Rightarrow> ('w, 'a) capture_scheme \<Rightarrow>
   stop + ('w, 'a) capture_scheme"
where
  "mpi_reduce_f M sendbuf recvbuf cnt datatype op root comm ierror s =
     store_ierror M ierror (MPI_Reduce M sendbuf recvbuf (get_int M cnt s) (Type_f2c M (get_int M datatype s))
       (Op_f2c M (get_int M op s)) (get_int M root s) (Comm_f2c M (get_int M comm s)) s)"

section \<open>Functions that are not captured\<close>

text \<open>Receiving functions without a wrapper end the program.\<close>

datatype hook =
    MPI_Ireduce | MPI_Iallreduce | MPI_Reduce_scatter | MPI_Ireduce_scatter
  | MPI_Reduce_scatter_block | MPI_Ireduce_scatter_block | MPI_Exscan | MPI_Iexscan | MPI_Scan
  | MPI_Iscan | MPI_Allgather | MPI_Iallgather | MPI_Allgatherv | MPI_Iallgatherv
  | MPI_Ialltoall | MPI_Ialltoallv | MPI_Alltoallw | MPI_Ialltoallw | MPI_Recv_init
  | mpi_recv_init_f | MPI_Sendrecv | mpi_sendrecv_f | MPI_Sendrecv_replace
  | mpi_sendrecv_replace_f | MPI_Ibcast | mpi_ibcast_f | MPI_Gather | mpi_gather_f
  | MPI_Igather | mpi_igather_f | MPI_Gatherv | mpi_gatherv_f | MPI_Igatherv | mpi_igatherv_f
  | MPI_Scatter | mpi_scatter_f | MPI_Iscatter | mpi_iscatter_f | MPI_Scatterv | mpi_scatterv_f
  | MPI_Iscatterv | mpi_iscatterv_f

definition non_implemented_hook :: "stop + int \<times> 's" where
  "non_implemented_hook = Inl Aborted"

definition call_hook :: "hook \<Rightarrow> 's \<Rightarrow> stop + int \<times> 's" where
  "call_hook h s = non_implemented_hook"

end
