(* ===== verification/Toy_Mpi.thy ===== *)
theory Toy_Mpi
  imports Mpi_World
begin

text \<open>
  An MPI library that meets the laws, for the witnesses: process 0 of two, with one open file at
  a time, datatypes of one byte, and messages that consist of the byte 42. There are two requests
  for receives, with the handles 1 and 2; a started receive gets its message when it is waited for.
\<close>

section \<open>The library\<close>

record toy =
  t_open :: "path option"
  t_posted :: "u64 \<rightharpoonup> ptr list"

definition toy_cells :: "u64 \<Rightarrow> int \<Rightarrow> ptr \<Rightarrow> ptr list" where
  "toy_cells d n b = map (\<lambda>i. b + word_of_nat i) [0..<nat n]"

definition deliver :: "ptr list \<Rightarrow> toy world \<Rightarrow> toy world" where
  "deliver cs w = w\<lparr>mem := fill cs (map (\<lambda>_. 42) cs) (mem w)\<rparr>"

definition toy_open :: "string \<Rightarrow> access_mode \<Rightarrow> toy world \<Rightarrow> int \<times> u64 \<times> toy world" where
  "toy_open name mode w =
     (let p = resolve name; w' = w\<lparr>lib := (lib w)\<lparr>t_open := Some p\<rparr>\<rparr> in
      case mode of
        Create_rdwr \<Rightarrow>
          if can_create w name
          then (MPI_SUCCESS, 1, w'\<lparr>files := (files w)(p \<mapsto> (case files w p of None \<Rightarrow> [] | Some old \<Rightarrow> old))\<rparr>)
          else (1, 0, w)
      | Rdonly \<Rightarrow>
          if files w p \<noteq> None \<and> name \<noteq> [] \<and> \<not> names_dir name then (MPI_SUCCESS, 1, w') else (1, 0, w))"

definition toy_opened :: "toy \<Rightarrow> u64 \<Rightarrow> path option" where
  "toy_opened l fh = (if fh = 1 then t_open l else None)"

definition toy_write :: "u64 \<Rightarrow> ptr \<Rightarrow> int \<Rightarrow> u64 \<Rightarrow> toy world \<Rightarrow> int \<times> toy world" where
  "toy_write fh b n d w =
     (case toy_opened (lib w) fh of
        None \<Rightarrow> (1, w)
      | Some p \<Rightarrow> (case files w p of
            None \<Rightarrow> (1, w)
          | Some old \<Rightarrow> (MPI_SUCCESS, w\<lparr>files := (files w)(p \<mapsto> overwrite (map (mem w) (toy_cells d n b)) old),
              lib := (lib w)\<lparr>t_open := None\<rparr>\<rparr>)))"

definition toy_read :: "u64 \<Rightarrow> ptr \<Rightarrow> int \<Rightarrow> u64 \<Rightarrow> toy world \<Rightarrow> int \<times> toy world" where
  "toy_read fh b n d w =
     (case toy_opened (lib w) fh of
        None \<Rightarrow> (1, w)
      | Some p \<Rightarrow> (case files w p of
            None \<Rightarrow> (1, w)
          | Some bs \<Rightarrow> (MPI_SUCCESS, w\<lparr>mem := fill (toy_cells d n b) bs (mem w), lib := (lib w)\<lparr>t_open := None\<rparr>\<rparr>)))"

definition toy_posted :: "toy \<Rightarrow> u64 \<rightharpoonup> ptr list" where
  "toy_posted l h = (if h = 1 \<or> h = 2 then t_posted l h else None)"

text \<open>The handle of the next receive.\<close>

definition toy_free :: "toy \<Rightarrow> u64" where
  "toy_free l = (if toy_posted l 1 = None then 1 else 2)"

definition toy_request :: "memory \<Rightarrow> ptr \<Rightarrow> u64" where
  "toy_request m p = word_of_int (load_int False m p)"

definition awaited :: "toy \<Rightarrow> u64 \<Rightarrow> ptr list" where
  "awaited l h = (case toy_posted l h of None \<Rightarrow> [] | Some cs \<Rightarrow> cs)"

definition forget :: "u64 set \<Rightarrow> toy world \<Rightarrow> toy world" where
  "forget H w = w\<lparr>lib := (lib w)\<lparr>t_posted := t_posted (lib w) |` (- H)\<rparr>\<rparr>"

fun toy_call :: "mpi_call \<Rightarrow> toy world \<Rightarrow> toy world" where
  "toy_call (Init p q) w = w\<lparr>lib := (lib w)\<lparr>t_posted := Map.empty\<rparr>\<rparr>"
| "toy_call (Irecv b n d source tag comm request) w =
     w\<lparr>mem := store_int False request (uint (toy_free (lib w))) (mem w),
       lib := (lib w)\<lparr>t_posted := (t_posted (lib w))(toy_free (lib w) \<mapsto> toy_cells d n b)\<rparr>\<rparr>"
| "toy_call (Recv b n d source tag comm status) w = deliver (toy_cells d n b) w"
| "toy_call (Wait request status) w =
     forget {toy_request (mem w) request} (deliver (awaited (lib w) (toy_request (mem w) request)) w)"
| "toy_call (Waitall n requests statuses) w =
     forget ((\<lambda>i. toy_request (mem w) (element 4 requests i)) ` {..<nat n})
       (deliver (concat (map (\<lambda>i. awaited (lib w) (toy_request (mem w) (element 4 requests i))) [0..<nat n])) w)"
| "toy_call (Bcast b n d root comm) w = (if root = 0 then w else deliver (toy_cells d n b) w)"
| "toy_call (Alltoall sb sn sd rb rn rd comm) w = deliver (toy_cells rd (rn * 2) rb) w"
| "toy_call (Allreduce sb rb n d op comm) w = deliver (toy_cells d n rb) w"
| "toy_call (Reduce sb rb n d op root comm) w = (if root = 0 then deliver (toy_cells d n rb) w else w)"
| "toy_call (Get_rank comm p) w = w\<lparr>mem := store_int False p 0 (mem w)\<rparr>"
| "toy_call (Get_size comm p) w = w\<lparr>mem := store_int False p 2 (mem w)\<rparr>"
| "toy_call c w = w"

fun toy_valid :: "mpi_call \<Rightarrow> toy world \<Rightarrow> bool" where
  "toy_valid (Irecv b n d source tag comm request) w \<longleftrightarrow> toy_posted (lib w) (toy_free (lib w)) = None"
| "toy_valid c w \<longleftrightarrow> True"

fun toy_f_call :: "f_call \<Rightarrow> toy world \<Rightarrow> toy world" where
  "toy_f_call (F_Rank comm p ierror) w = w\<lparr>mem := store_int False ierror 0 (store_int False p 0 (mem w))\<rparr>"
| "toy_f_call (F_Size comm p ierror) w = w\<lparr>mem := store_int False ierror 0 (store_int False p 2 (mem w))\<rparr>"
| "toy_f_call c w = w\<lparr>mem := store_int False (ierror_of c) 0 (mem w)\<rparr>"

definition toy_mpi :: "toy mpi" where
  "toy_mpi =
     \<lparr>malloc = malloc first_fit, calloc = calloc first_fit, big_endian = False,
      PMPI = \<lambda>c w. (MPI_SUCCESS, toy_call c w), PMPI_f = toy_f_call,
      COMM_WORLD = 1, Comm_rank = \<lambda>_ _. 0, Comm_size = \<lambda>_ _. 2, Initialized = \<lambda>_. False, cells = toy_cells,
      File_open = toy_open, File_write = toy_write, File_read = toy_read,
      File_close = \<lambda>fh w. w\<lparr>lib := (lib w)\<lparr>t_open := None\<rparr>\<rparr>,
      Type_f2c = word_of_int, Comm_f2c = word_of_int, Op_f2c = word_of_int, Request_f2c = word_of_int,
      Request_c2f = sint, load_request = toy_request,
      store_request = \<lambda>p h. store_int False p (sint h),
      Status_f2c = \<lambda>p q m. m, Status_c2f = \<lambda>p q m. m, sizeof_request = 4, sizeof_status = 20,
      c_request = 0x200000000000, c_status = 0x200000010000\<rparr>"

definition toy_ghost :: "toy ghost" where
  "toy_ghost = \<lparr>opened = toy_opened, posted = \<lambda>l h. map_option set (toy_posted l h),
     scattered = \<lambda>_ _. {}, valid = toy_valid, valid_f = \<lambda>_ _. True\<rparr>"

section \<open>The laws\<close>

lemma toy_posted_simps [simp]:
  "toy_posted (l\<lparr>t_open := p\<rparr>) = toy_posted l"
  "toy_posted (l\<lparr>t_posted := t_posted l |` (- H)\<rparr>) = toy_posted l |` (- H)"
  "toy_posted (l\<lparr>t_posted := (t_posted l)(toy_free l \<mapsto> cs)\<rparr>) = (toy_posted l)(toy_free l \<mapsto> cs)"
  by (auto simp: fun_eq_iff toy_posted_def toy_free_def restrict_map_def)

lemma toy_same_comm [simp]:
  "same_comm toy_ghost toy_mpi l (l\<lparr>t_open := p\<rparr>)"
  by (simp add: same_comm_def toy_mpi_def toy_ghost_def fun_eq_iff)

lemma toy_file_laws: "file_laws toy_ghost toy_mpi"
  unfolding file_laws_def
proof (intro conjI)
  show "create_law toy_ghost toy_mpi"
    by (auto simp: create_law_def toy_mpi_def toy_open_def Let_def toy_ghost_def toy_opened_def same_comm_def fun_eq_iff
        intro!: exI [of _ "(lib w)\<lparr>t_open := p\<rparr>" for w p])
  show "open_law toy_ghost toy_mpi"
    by (auto simp: open_law_def toy_mpi_def toy_open_def Let_def toy_ghost_def toy_opened_def same_comm_def fun_eq_iff)
  show "missing_law toy_mpi"
    by (auto simp: missing_law_def toy_mpi_def toy_open_def Let_def MPI_SUCCESS_def)
  show "write_law toy_ghost toy_mpi"
    by (auto simp: write_law_def toy_mpi_def toy_write_def toy_ghost_def same_comm_def fun_eq_iff)
  show "read_law toy_ghost toy_mpi"
    by (auto simp: read_law_def toy_mpi_def toy_read_def toy_ghost_def same_comm_def fun_eq_iff)
  show "close_law toy_ghost toy_mpi"
    by (auto simp: close_law_def toy_mpi_def toy_ghost_def same_comm_def fun_eq_iff)
qed

lemma deliver_simps [simp]:
  "files (deliver cs w) = files w" "lib (deliver cs w) = lib w" "a \<notin> set cs \<Longrightarrow> mem (deliver cs w) a = mem w a"
  "w\<lparr>mem := mem (deliver cs w)\<rparr> = deliver cs w"
  using fill_copy [of cs "\<lambda>_. 42" "[]" "mem w" a] by (simp_all add: deliver_def)

lemma toy_posted_forget: "posted toy_ghost (lib (forget H w)) = posted toy_ghost (lib w) |` (- H)"
proof -
  have "lib (forget H w) = (lib w)\<lparr>t_posted := t_posted (lib w) |` (- H)\<rparr>" by (simp add: forget_def)
  then have "toy_posted (lib (forget H w)) = toy_posted (lib w) |` (- H)" by (simp only: toy_posted_simps)
  then show ?thesis by (auto simp: toy_ghost_def restrict_map_def)
qed

lemma toy_request_store: "toy_request (store_int False p (uint (toy_free l)) m) p = toy_free l"
proof -
  have "is_int (uint (toy_free l))" by (simp add: toy_free_def is_int_def)
  then show ?thesis by (simp add: toy_request_def load_store_int)
qed

lemma int_cells_bytes: "int_cells p = bytes_at 4 p"
proof -
  have "{..<4} = {0, 1, 2, 3 :: nat}" by auto
  then show ?thesis by (simp add: int_cells_def bytes_at_def)
qed

lemma toy_call_law:
  assumes c: "\<nexists>p q. c = Init p q" and valid: "toy_valid c w"
  shows "call_law toy_ghost toy_mpi c w"
proof -
  let ?w' = "toy_call c w" and ?P = "posted toy_ghost (lib w)"
  have awaited: "a \<in> \<Union> (ran ?P)" if "a \<in> set (awaited (lib w) h)" for a h
  proof (cases "toy_posted (lib w) h")
    case (Some cs)
    then have "?P h = Some (set cs)" by (simp add: toy_ghost_def)
    then have "set cs \<in> ran ?P" by (rule ranI)
    moreover have "a \<in> set cs" using that Some by (simp add: awaited_def)
    ultimately show ?thesis by blast
  qed (use that in \<open>simp add: awaited_def\<close>)
  have "?w' = w\<lparr>mem := mem ?w', lib := lib ?w'\<rparr>"
    using c by (cases c) (auto simp: deliver_def forget_def)
  moreover have "posts toy_mpi c (mem w) (mem ?w') ?P (posted toy_ghost (lib ?w'))"
  proof (cases c)
    case (Irecv b n d source tag comm request)
    then show ?thesis using valid by (auto simp: toy_mpi_def toy_request_store toy_ghost_def)
  next
    case (Wait request status)
    then show ?thesis by (simp add: toy_mpi_def toy_posted_forget restrict_complement_singleton_eq)
  next
    case (Waitall n requests statuses)
    then show ?thesis by (simp add: toy_mpi_def toy_posted_forget)
  qed (use c in simp_all)
  moreover have "mem ?w' a = (case c of
        Get_rank comm p \<Rightarrow> store_int False p 0 (mem w) a
      | Get_size comm p \<Rightarrow> store_int False p 2 (mem w) a
      | _ \<Rightarrow> mem w a)"
    if "a \<notin> receives toy_mpi toy_ghost c w" "a \<notin> controls toy_mpi c" "a \<notin> \<Union> (ran ?P)" for a
  proof -
    have "a \<notin> set (awaited (lib w) h)" for h using that(3) awaited by blast
    then have "a \<notin> set (concat (map (\<lambda>i. awaited (lib w) (h i)) is))" for h and "is" :: "nat list" by simp
    with \<open>\<And>h. a \<notin> set (awaited (lib w) h)\<close> that(1,2) c show ?thesis
      by (cases c) (simp_all add: toy_mpi_def forget_def store_int_frame int_cells_bytes toy_ghost_def split: if_splits)
  qed
  ultimately show ?thesis
    unfolding call_law_def
    by (intro exI [of _ "mem ?w'"] exI [of _ "lib ?w'"]) (simp add: toy_mpi_def cong: mpi_call.case_cong)
qed

lemma toy_request_law: "request_law toy_mpi"
  by (auto simp: request_law_def toy_mpi_def toy_request_def int_cells_bytes intro!: arg_cong [of _ _ "word_of_int :: int \<Rightarrow> u64"] load_int_cong)

lemma toy_mpi_laws: "mpi_laws toy_ghost toy_mpi"
  using toy_file_laws toy_request_law toy_call_law by (simp add: mpi_laws_def) (simp add: toy_ghost_def)

lemma toy_fortran_laws: "fortran_laws toy_ghost toy_mpi"
proof -
  have fits: "sint (word_of_int i :: u64) = i" if "is_int i" for i
    using that by (simp add: is_int_def sint_sbintrunc' signed_take_bit_int_eq_self)
  have handle: "h = 1 \<or> h = 2" if "posted toy_ghost l h \<noteq> None" for l h
    using that by (simp add: toy_ghost_def toy_posted_def split: if_splits)
  have "conversion_laws toy_ghost toy_mpi"
    unfolding conversion_laws_def
  proof (intro conjI allI impI)
    fix l h
    assume "posted toy_ghost l h \<noteq> None"
    then show "is_int (Request_c2f toy_mpi h)" "Request_f2c toy_mpi (Request_c2f toy_mpi h) = h"
      using handle [of l h] by (auto simp: toy_mpi_def is_int_def)
  qed (simp_all add: toy_mpi_def toy_request_def load_store_int fits store_int_frame int_cells_bytes)
  moreover have "other_law toy_ghost toy_mpi c w" for c w
    unfolding other_law_def
    by (intro exI [of _ "mem (toy_f_call c w)"] exI [of _ "lib w"], cases c)
      (simp_all add: toy_mpi_def MPI_SUCCESS_def)
  ultimately show ?thesis by (simp add: fortran_laws_def)
qed

lemma toy_allocator: "good_allocator 40 toy_mpi"
  using first_fit_good by (simp add: good_allocator_def toy_mpi_def)

end
