(* ===== verification/Capture_Log.thy ===== *)
theory Capture_Log
  imports Capture Toy_Mpi
begin

text \<open>
  What the capture library does: the log file a call writes, the directory and the files
  \<open>init_MPIre\<close> creates, and that the program sees nothing but the MPI library.
\<close>

section \<open>Writing a log file\<close>

definition dump_on :: "('w, 'a) capture_scheme \<Rightarrow> bool" where
  "dump_on s \<longleftrightarrow> (\<exists>d a. env (world s) ''MPIRE_ACTIVE_DUMP'' = Some d \<and> atoi d = Inr a \<and> a \<noteq> 0)"

text \<open>The file system after \<open>bs\<close> was written to a log file, over its old content if it has one.\<close>

definition logged :: "path \<Rightarrow> u8 list \<Rightarrow> (path \<Rightarrow> u8 list option) \<Rightarrow> path \<Rightarrow> u8 list option" where
  "logged p bs fs = fs(p \<mapsto> overwrite bs (case fs p of None \<Rightarrow> [] | Some old \<Rightarrow> old))"

lemma write_in_file_frame:
  assumes "write_in_file M b n d s = Inr s'"
  shows "heap s' = heap s" "requestHtab s' = requestHtab s" "MPIre_rank s' = MPIre_rank s"
    "MPIre_output_path s' = MPIre_output_path s"
  using assms by (auto simp: write_in_file_def Let_def split: if_splits prod.splits)

interpretation capture: log_transfer al "write_in_file M" for al M
  by unfold_locales (simp add: write_in_file_frame)

lemma write_in_file_ok:
  assumes laws: "file_laws G M" and on: "dump_on s" and k: "is_int (cpt_write s)" "is_int (cpt_write s + 1)"
    and dir: "log_dir (world s) (MPIre_output_path s)" and n: "0 \<le> n"
  shows "\<exists>l. write_in_file M b n d s = Inr (s\<lparr>cpt_write := cpt_write s + 1,
      world := (world s)\<lparr>files := logged (log_path (MPIre_output_path s) (cpt_write s))
        (map (mem (world s)) (cells M d n b)) (files (world s)), lib := l\<rparr>\<rparr>) \<and>
    same_comm G M (lib (world s)) l"
proof -
  let ?w = "world s" and ?d = "MPIre_output_path s" and ?name = "log_name (MPIre_output_path s) (cpt_write s)"
  let ?p = "log_path ?d (cpt_write s)" and ?bs = "map (mem (world s)) (cells M d n b)"
  have path: "resolve ?name = ?p" using log_entry(1) [of ?d "cpt_write s"] dir k(1) by (simp add: log_dir_def)
  obtain fh l1 where open1: "File_open M ?name Create_rdwr ?w = (MPI_SUCCESS, fh,
      ?w\<lparr>files := (files ?w)(?p \<mapsto> (case files ?w ?p of None \<Rightarrow> [] | Some old \<Rightarrow> old)), lib := l1\<rparr>)"
    "opened G l1 fh = Some ?p" "same_comm G M (lib ?w) l1"
    using file_lawsD(1) [OF laws log_can_create [OF dir k(1)]] unfolding path by blast
  let ?w1 = "?w\<lparr>files := (files ?w)(?p \<mapsto> (case files ?w ?p of None \<Rightarrow> [] | Some old \<Rightarrow> old)), lib := l1\<rparr>"
  obtain e l2 where wr: "File_write M fh b n d ?w1 = (e, ?w1\<lparr>files := logged ?p ?bs (files ?w), lib := l2\<rparr>)"
    "same_comm G M l1 l2"
    using file_lawsD(4) [OF laws, where w = ?w1 and fh = fh and p = ?p and
        old = "case files ?w ?p of None \<Rightarrow> [] | Some old \<Rightarrow> old" and n = n and d = d and b = b] open1(2) n
    by (auto simp: logged_def)
  let ?w2 = "?w\<lparr>files := logged ?p ?bs (files ?w), lib := l2\<rparr>"
  obtain l3 where cl: "File_close M fh ?w2 = ?w2\<lparr>lib := l3\<rparr>" "same_comm G M l2 l3"
    using file_lawsD(6) [OF laws, of fh ?w2] by auto
  have "write_in_file M b n d s = Inr (s\<lparr>cpt_write := cpt_write s + 1, world := ?w2\<lparr>lib := l3\<rparr>\<rparr>)"
    using on k open1(1) wr(1) cl(1)
    by (auto simp: write_in_file_def dump_on_def c_int_def Let_def MPI_SUCCESS_def)
  then show ?thesis
    using same_comm_trans [OF same_comm_trans [OF open1(3) wr(2)] cl(2)] by auto
qed

text \<open>For the witnesses: process 0 when it starts, with two integers in its memory, and with a log directory \<open>log\<close>.\<close>

definition toy_start :: "toy capture" where
  "toy_start =
     \<lparr>heap = Map.empty, requestHtab = static_table,
      world = \<lparr>files = Map.empty, dirs = {}, denied = {}, env = [''MPIRE_RANK'' \<mapsto> ''0''], mem = (\<lambda>_. 0)(256 := 3, 260 := 1),
        lib = \<lparr>t_open = None, t_posted = Map.empty\<rparr>\<rparr>,
      MPIre_rank = 0, cpt_write = 0, MPIre_active_dump = 0, MPIre_output_path = []\<rparr>"

definition toy_logging :: "toy capture" where
  "toy_logging =
     toy_start\<lparr>world := (world toy_start)\<lparr>dirs := {[''log'']}, env := [''MPIRE_ACTIVE_DUMP'' \<mapsto> ''1'']\<rparr>,
       requestHtab := htable_init, MPIre_active_dump := 1, MPIre_output_path := ''log''\<rparr>"

lemma toy_logging_ok:
  "log_dir (world toy_logging) ''log''" "dump_on toy_logging" "MPIre_output_path toy_logging = ''log''"
  "cpt_write toy_logging = 0" "heap toy_logging = Map.empty" "requestHtab toy_logging = htable_init"
proof -
  have "resolve ''log'' = [''log'']" by (simp add: resolve_def)
  then show "log_dir (world toy_logging) ''log''"
    by (simp add: log_dir_def toy_logging_def toy_start_def is_dir_def)
  have "atoi ''1'' = Inr 1" by code_simp
  then show "dump_on toy_logging" by (simp add: dump_on_def toy_logging_def)
qed (simp_all add: toy_logging_def toy_start_def)

text \<open>C19. With dumping on, \<open>write_in_file\<close> puts the cells of the buffer at the beginning of the next log
  file, leaves all other files, the memory and the requests alone, and counts the file; with
  MPIRE_ACTIVE_DUMP=0 it does nothing.\<close>

theorem write_in_file_correct:
  assumes "file_laws G M" "is_int (cpt_write s)" "is_int (cpt_write s + 1)"
    "log_dir (world s) (MPIre_output_path s)" "0 \<le> n"
  shows "(dump_on s \<longrightarrow> (\<exists>s'. write_in_file M b n d s = Inr s' \<and> cpt_write s' = cpt_write s + 1 \<and>
      files (world s') = logged (log_path (MPIre_output_path s) (cpt_write s))
        (map (mem (world s)) (cells M d n b)) (files (world s)) \<and>
      mem (world s') = mem (world s) \<and> heap s' = heap s \<and> requestHtab s' = requestHtab s)) \<and>
    (\<forall>t. env (world s) ''MPIRE_ACTIVE_DUMP'' = Some t \<longrightarrow> atoi t = Inr 0 \<longrightarrow> write_in_file M b n d s = Inr s)"
proof (intro conjI impI allI)
  assume "dump_on s"
  from write_in_file_ok [OF assms(1) this assms(2-5), of b d]
  show "\<exists>s'. write_in_file M b n d s = Inr s' \<and> cpt_write s' = cpt_write s + 1 \<and>
      files (world s') = logged (log_path (MPIre_output_path s) (cpt_write s))
        (map (mem (world s)) (cells M d n b)) (files (world s)) \<and>
      mem (world s') = mem (world s) \<and> heap s' = heap s \<and> requestHtab s' = requestHtab s"
    by auto
qed (simp add: write_in_file_def)

theorem write_in_file_correct_witness:
  "\<exists>s'. write_in_file toy_mpi 64 3 9 toy_logging = Inr s' \<and> cpt_write s' = cpt_write toy_logging + 1 \<and>
     files (world s') = logged (log_path (MPIre_output_path toy_logging) (cpt_write toy_logging))
       (map (mem (world toy_logging)) (cells toy_mpi 9 3 64)) (files (world toy_logging)) \<and>
     mem (world s') = mem (world toy_logging) \<and> heap s' = heap toy_logging \<and>
     requestHtab s' = requestHtab toy_logging"
proof -
  have "is_int (cpt_write toy_logging)" "is_int (cpt_write toy_logging + 1)"
    "log_dir (world toy_logging) (MPIre_output_path toy_logging)" "(0 :: int) \<le> 3"
    by (simp_all add: toy_logging_ok is_int_def)
  from write_in_file_correct [OF toy_file_laws this, of 64 9] toy_logging_ok(2) show ?thesis by blast
qed

section \<open>The directory of the log\<close>

lemma resolve_slash:
  assumes "t \<noteq> []"
  shows "resolve (t @ CHR ''/'' # n) = resolve t @ filter (\<lambda>w. w \<noteq> [] \<and> w \<noteq> ''.'') (split_slash n)"
  using assms by (simp add: resolve_def split_slash_append)

lemma path_prefixes_snoc:
  "path_prefixes (s @ [c]) = path_prefixes s @ (if c = CHR ''/'' \<and> s \<noteq> [] then [s] else [])"
proof -
  have "map (\<lambda>i. take i (s @ [c])) (filter (\<lambda>i. (s @ [c]) ! i = CHR ''/'') [1..<length s]) =
      map (\<lambda>i. take i s) (filter (\<lambda>i. s ! i = CHR ''/'') [1..<length s])"
    by (rule map_cong) (auto intro!: filter_cong simp: nth_append)
  then show ?thesis by (cases "s = []") (auto simp: path_prefixes_def Suc_le_eq)
qed

lemma in_path_prefixes: "t \<in> set (path_prefixes s) \<longleftrightarrow> t \<noteq> [] \<and> (\<exists>n. s = t @ CHR ''/'' # n)"
proof
  assume "t \<in> set (path_prefixes s)"
  then obtain i where i: "1 \<le> i" "i < length s" "s ! i = CHR ''/''" "t = take i s" by (auto simp: path_prefixes_def)
  then have "s = t @ CHR ''/'' # drop (Suc i) s" using id_take_nth_drop [of i s] by simp
  then show "t \<noteq> [] \<and> (\<exists>n. s = t @ CHR ''/'' # n)" using i by auto
next
  assume "t \<noteq> [] \<and> (\<exists>n. s = t @ CHR ''/'' # n)"
  then obtain n where "t \<noteq> []" "s = t @ CHR ''/'' # n" by blast
  then show "t \<in> set (path_prefixes s)"
    unfolding path_prefixes_def by (auto intro!: image_eqI [of _ _ "length t"] simp: Suc_le_eq)
qed

lemma mkpath_loop_append:
  "mkpath_loop (ps @ [q]) w = (case mkpath_loop ps w of
     (r, w) \<Rightarrow> if r \<noteq> 0 then (r, w) else mkpath_loop [q] w)"
  by (induction ps arbitrary: w) (auto split: prod.splits option.splits errno.splits)

lemma mkdir_frame:
  assumes "mkdir s w = (r, w')"
  shows "\<exists>D. w' = w\<lparr>dirs := D\<rparr> \<and> dirs w \<subseteq> D \<and> D \<subseteq> insert (resolve s) (dirs w)"
proof (cases "r = None")
  case True
  then have "w' = w\<lparr>dirs := insert (resolve s) (dirs w)\<rparr>"
    using assms by (auto simp: mkdir_def Let_def split: if_splits)
  then show ?thesis by blast
next
  case False
  then have "w' = w" using assms by (auto simp: mkdir_def Let_def split: if_splits)
  then show ?thesis by (intro exI [of _ "dirs w"]) auto
qed

lemma mkpath_loop_frame:
  assumes "mkpath_loop ps w = (r, w')"
  shows "\<exists>D. w' = w\<lparr>dirs := D\<rparr> \<and> dirs w \<subseteq> D \<and> D \<subseteq> resolve ` set ps \<union> dirs w"
  using assms
proof (induction ps arbitrary: w)
  case Nil
  then show ?case by (intro exI [of _ "dirs w"]) simp
next
  case (Cons p ps)
  obtain e w1 where w1: "mkdir p w = (e, w1)" by (cases "mkdir p w")
  obtain D where D: "w1 = w\<lparr>dirs := D\<rparr>" "dirs w \<subseteq> D" "D \<subseteq> insert (resolve p) (dirs w)"
    using mkdir_frame [OF w1] by blast
  consider "w' = w1" | "mkpath_loop ps w1 = (r, w')"
    using Cons.prems w1 by (auto split: option.splits errno.splits)
  then show ?case
  proof cases
    case 1
    then show ?thesis using D by (intro exI [of _ D]) auto
  next
    case 2
    from Cons.IH [OF 2] obtain D' where "w' = w1\<lparr>dirs := D'\<rparr>" "dirs w1 \<subseteq> D'" "D' \<subseteq> resolve ` set ps \<union> dirs w1"
      by blast
    then show ?thesis using D by (intro exI [of _ D']) auto
  qed
qed

lemma resolve_last:
  assumes "CHR ''/'' \<notin> set n"
  shows "resolve (t @ CHR ''/'' # n) = resolve (t @ ''/'') @ (if n = [] \<or> n = ''.'' then [] else [n])"
proof (cases "t = []")
  case True
  then show ?thesis using assms by (simp add: resolve_def split_slash_single)
next
  case False
  then show ?thesis using assms resolve_slash [of t n] resolve_slash [of t "[]"] by (simp add: split_slash_single)
qed

lemma resolve_no_slash:
  assumes "CHR ''/'' \<notin> set n"
  shows "resolve n = (if n = [] \<or> n = ''.'' then [] else [n])"
  using assms by (cases n) (auto simp: resolve_def split_slash_single)

lemma last_slash:
  "CHR ''/'' \<notin> set s \<or> (\<exists>t n. s = t @ CHR ''/'' # n \<and> CHR ''/'' \<notin> set n)"
  using split_list_last [of "CHR ''/''" s] by blast

lemma is_dir_mono: "is_dir w p \<Longrightarrow> dirs w \<subseteq> dirs w' \<Longrightarrow> is_dir w' p"
  by (auto simp: is_dir_def)

lemma mkdir_makes:
  assumes "s \<noteq> []" "files w (resolve s) = None" "denied w = {}" "is_dir w (butlast (resolve s)) \<or> is_dir w (resolve s)"
  shows "\<exists>e w'. mkdir s w = (e, w') \<and> e \<noteq> Some Other_errno \<and> is_dir w' (resolve s)"
  using assms by (auto simp: mkdir_def Let_def is_dir_def)

text \<open>If no file is in the way and every directory can be written, all the prefixes are created.\<close>

lemma mkpath_loop_creates:
  assumes free: "\<And>t. t \<in> set (path_prefixes s) \<Longrightarrow> files w (resolve t) = None" and "denied w = {}"
  shows "\<exists>w'. mkpath_loop (path_prefixes s) w = (0, w') \<and>
    (\<forall>t n. s = t @ CHR ''/'' # n \<longrightarrow> CHR ''/'' \<notin> set n \<longrightarrow> is_dir w' (resolve (t @ ''/'')))"
  using free
proof (induction s rule: rev_induct)
  case Nil
  then show ?case by (simp add: path_prefixes_def)
next
  case (snoc c s)
  have "\<And>t. t \<in> set (path_prefixes s) \<Longrightarrow> files w (resolve t) = None"
    using snoc.prems by (simp add: path_prefixes_snoc)
  from snoc.IH [OF this] obtain w1 where w1: "mkpath_loop (path_prefixes s) w = (0, w1)"
    "\<And>t n. s = t @ CHR ''/'' # n \<Longrightarrow> CHR ''/'' \<notin> set n \<Longrightarrow> is_dir w1 (resolve (t @ ''/''))" by blast
  show ?case
  proof (cases "c = CHR ''/'' \<and> s \<noteq> []")
    case True
    have "is_dir w1 (butlast (resolve s)) \<or> is_dir w1 (resolve s)"
      using last_slash [of s]
    proof (elim disjE exE conjE)
      assume "CHR ''/'' \<notin> set s"
      then show ?thesis using True by (simp add: resolve_no_slash is_dir_def)
    next
      fix t n
      assume split: "s = t @ CHR ''/'' # n" "CHR ''/'' \<notin> set n"
      have "resolve s = resolve (t @ ''/'') @ (if n = [] \<or> n = ''.'' then [] else [n])"
        unfolding split(1) by (rule resolve_last [OF split(2)])
      then show ?thesis using w1(2) [OF split] by (simp split: if_splits)
    qed
    moreover have "files w1 = files w" "denied w1 = {}" using mkpath_loop_frame [OF w1(1)] assms(2) by force+
    moreover have "files w (resolve s) = None" using snoc.prems True by (simp add: path_prefixes_snoc)
    ultimately obtain e w2 where w2: "mkdir s w1 = (e, w2)" "e \<noteq> Some Other_errno" "is_dir w2 (resolve s)"
      using mkdir_makes [of s w1] True by auto
    have "resolve (s @ ''/'') = resolve s" using True resolve_slash [of s "[]"] by simp
    moreover have "t = s" if "s @ [c] = t @ CHR ''/'' # n" "CHR ''/'' \<notin> set n" for t n
      using that True by (cases n rule: rev_cases) auto
    moreover have "mkpath_loop (path_prefixes (s @ [c])) w = (0, w2)"
      using True w1(1) w2(1,2) by (cases e) (auto simp: path_prefixes_snoc mkpath_loop_append split: errno.splits)
    ultimately show ?thesis using w2(3) by metis
  next
    case False
    then have "mkpath_loop (path_prefixes (s @ [c])) w = (0, w1)"
      using w1(1) by (auto simp: path_prefixes_snoc)
    moreover have "is_dir w1 (resolve (t @ ''/''))" if split: "s @ [c] = t @ CHR ''/'' # n" "CHR ''/'' \<notin> set n" for t n
    proof (cases n rule: rev_cases)
      case Nil
      then have "t = []" using False split by auto
      then show ?thesis by (simp add: resolve_def is_dir_def)
    next
      case (snoc n' c')
      then show ?thesis using split w1(2) [of t n'] by auto
    qed
    ultimately show ?thesis by blast
  qed
qed

text \<open>Nothing but the prefixes is created.\<close>

lemma mkpath_loop_only:
  assumes "mkpath_loop (path_prefixes s) w = (r, w')" "CHR ''/'' \<notin> set n" "n \<noteq> []" "n \<noteq> ''.''"
    "s = t @ n" "t = [] \<or> List.last t = CHR ''/''" "\<not> is_dir w (resolve s)"
  shows "\<not> is_dir w' (resolve s)"
proof
  assume "is_dir w' (resolve s)"
  with assms(7) have "resolve s \<in> dirs w'" "resolve s \<notin> dirs w" by (auto simp: is_dir_def)
  then obtain q where q: "q \<in> set (path_prefixes s)" "resolve q = resolve s"
    using mkpath_loop_frame [OF assms(1)] by force
  then obtain u where u: "q \<noteq> []" "s = q @ CHR ''/'' # u" by (auto simp: in_path_prefixes)
  then have "resolve s = resolve q @ filter (\<lambda>w. w \<noteq> [] \<and> w \<noteq> ''.'') (split_slash u)" by (simp add: resolve_slash)
  moreover have "List.last (split_slash u) = n"
  proof (cases t rule: rev_cases)
    case Nil
    then show ?thesis using u(2) assms(2,5) by auto
  next
    case (snoc t' c)
    then have s: "s = t' @ CHR ''/'' # n" using assms(5,6) by simp
    have "List.last (split_slash s) = n" by (simp add: s split_slash_append split_slash_single assms(2))
    moreover have "List.last (split_slash s) = List.last (split_slash u)" by (simp add: u(2) split_slash_append)
    ultimately show ?thesis by simp
  qed
  then have "n \<in> set (split_slash u)" using last_in_set [of "split_slash u"] by simp
  ultimately show False using q(2) assms(3,4) by (auto simp: filter_empty_conv)
qed

section \<open>Initialisation\<close>

lemma output_path_length: "length (output_path s) \<le> 127"
  by (auto simp: output_path_def snprintf_def split: option.splits)

lemma output_path_cong:
  "env (world s) ''MPIRE_OUTPUT_PATH'' = env (world s') ''MPIRE_OUTPUT_PATH'' \<Longrightarrow> MPIre_rank s = MPIre_rank s' \<Longrightarrow>
    output_path s = output_path s'"
  by (simp add: output_path_def split: option.split)

lemma nprocs_name:
  assumes "d \<noteq> []" "length d \<le> 127"
  shows "snprintf 1024 (d @ ''/nprocs'') = d @ ''/nprocs''" "resolve (d @ ''/nprocs'') = resolve d @ [''nprocs'']"
    "\<not> names_dir (d @ ''/nprocs'')"
  using assms resolve_entry [of "''nprocs''" d] by (simp_all add: snprintf_def names_dir_def)

text \<open>The captured process: \<open>MPIRE_RANK\<close> is a number, and it is the rank of this process.\<close>

definition to_capture :: "'w mpi \<Rightarrow> int \<Rightarrow> ('w, 'a) capture_scheme \<Rightarrow> bool" where
  "to_capture M r s \<longleftrightarrow> (\<exists>t. env (world s) ''MPIRE_RANK'' = Some t \<and> atoi t = Inr r) \<and>
     rank_of M (COMM_WORLD M) s = r"

lemma init_dump_ok:
  assumes "\<forall>d. env (world s) ''MPIRE_ACTIVE_DUMP'' = Some d \<longrightarrow> (\<exists>a. atoi d = Inr a)"
  shows "\<exists>s1. init_dump s = Inr s1 \<and> files (world s1) = files (world s) \<and> dirs (world s1) = dirs (world s) \<and>
    denied (world s1) = denied (world s) \<and> lib (world s1) = lib (world s) \<and> mem (world s1) = mem (world s) \<and>
    env (world s1) ''MPIRE_OUTPUT_PATH'' = env (world s) ''MPIRE_OUTPUT_PATH'' \<and> MPIre_rank s1 = MPIre_rank s \<and>
    heap s1 = heap s \<and> cpt_write s1 = cpt_write s \<and>
    (env (world s) ''MPIRE_ACTIVE_DUMP'' = None \<or> dump_on s \<longrightarrow> dump_on s1)"
proof (cases "env (world s) ''MPIRE_ACTIVE_DUMP''")
  case None
  have "atoi ''1'' = Inr 1" by code_simp
  then show ?thesis using None by (simp add: init_dump_def dump_on_def)
next
  case (Some d)
  then show ?thesis using assms by (auto simp: init_dump_def dump_on_def)
qed

lemma make_output_dir_ok:
  assumes d: "MPIre_output_path s = d @ ''/''" "d \<noteq> []" and way: "denied (world s) = {}"
    "\<And>t n. MPIre_output_path s = t @ CHR ''/'' # n \<Longrightarrow> files (world s) (resolve t) = None"
  shows "\<exists>D. make_output_dir s = Inr (s\<lparr>world := (world s)\<lparr>dirs := D\<rparr>\<rparr>) \<and>
    is_dir ((world s)\<lparr>dirs := D\<rparr>) (resolve d) \<and> dirs (world s) \<subseteq> D \<and>
    D \<subseteq> resolve ` set (path_prefixes (d @ ''/'')) \<union> dirs (world s)"
proof -
  have same: "resolve (d @ ''/'') = resolve d" using resolve_slash [OF d(2), of "[]"] by simp
  show ?thesis
  proof (cases "stat_ok (world s) (MPIre_output_path s)")
    case True
    then have "is_dir (world s) (resolve d)"
      using same d(1) by (auto simp: stat_ok_def names_dir_def)
    then show ?thesis using True by (intro exI [of _ "dirs (world s)"]) (simp add: make_output_dir_def)
  next
    case False
    have free: "files (world s) (resolve t) = None" if "t \<in> set (path_prefixes (d @ ''/''))" for t
      using that way(2) d(1) by (auto simp: in_path_prefixes)
    from mkpath_loop_creates [of "d @ ''/''" "world s", OF free way(1)] obtain w where w: "mkpath_loop (path_prefixes (d @ ''/'')) (world s) = (0, w)"
      "is_dir w (resolve (d @ ''/''))" by auto
    obtain D where "w = (world s)\<lparr>dirs := D\<rparr>" "dirs (world s) \<subseteq> D"
      "D \<subseteq> resolve ` set (path_prefixes (d @ ''/'')) \<union> dirs (world s)"
      using mkpath_loop_frame [OF w(1)] by blast
    then show ?thesis
      using False w d(1) same by (intro exI [of _ D]) (auto simp: make_output_dir_def mkpath_def)
  qed
qed

text \<open>The name of a log file or of \<open>nprocs\<close> is longer than any prefix of the path of its directory.\<close>

lemma resolve_prefix_shorter:
  assumes "t \<in> set (path_prefixes s)"
  shows "length (resolve t) \<le> length (resolve s)"
  using assms by (auto simp: in_path_prefixes resolve_slash)

lemma entry_not_prefix:
  assumes "resolve d @ [n] \<notin> dirs w" "D \<subseteq> resolve ` set (path_prefixes (d @ ''/'')) \<union> dirs w" "d \<noteq> []"
  shows "resolve d @ [n] \<notin> D"
proof
  assume "resolve d @ [n] \<in> D"
  then obtain t where t: "t \<in> set (path_prefixes (d @ ''/''))" "resolve t = resolve d @ [n]"
    using assms(1,2) by auto
  have "length (resolve t) \<le> length (resolve d)"
    using resolve_prefix_shorter [OF t(1)] resolve_slash [OF assms(3), of "[]"] by simp
  then show False by (simp add: t(2))
qed

lemma can_create_nprocs:
  assumes "d \<noteq> []" "length d \<le> 127" "is_dir w (resolve d)" "denied w = {}" "resolve d @ [''nprocs''] \<notin> dirs w"
  shows "can_create w (d @ ''/nprocs'')"
  using assms nprocs_name [OF assms(1,2)] by (simp add: can_create_def is_dir_def)

lemma can_create_needs_dir: "\<not> is_dir w (butlast (resolve name)) \<Longrightarrow> write_text name t w = None"
  by (simp add: write_text_def can_create_def)

lemma init_creates:
  assumes "to_capture M r s" "\<forall>t. env (world s) ''MPIRE_ACTIVE_DUMP'' = Some t \<longrightarrow> (\<exists>a. atoi t = Inr a)"
    "output_path (s\<lparr>MPIre_rank := r\<rparr>) = d @ ''/''" "d \<noteq> []" "denied (world s) = {}" "finite (dom (heap s))"
    "\<forall>t n. d @ ''/'' = t @ CHR ''/'' # n \<longrightarrow> files (world s) (resolve t) = None"
    "\<forall>n. resolve d @ [n] \<notin> dirs (world s)"
  shows "\<exists>s'. init_MPIre M s = Inr s' \<and> MPIre_rank s' = r \<and> MPIre_output_path s' = d @ ''/'' \<and>
    log_dir (world s') (d @ ''/'') \<and>
    files (world s') = (files (world s))(resolve d @ [''nprocs''] \<mapsto>
      text_bytes (print_int (size_of_comm M (COMM_WORLD M) s))) \<and>
    mem (world s') = mem (world s) \<and> lib (world s') = lib (world s) \<and> heap s' = heap s \<and> cpt_write s' = cpt_write s \<and>
    pending hb be s' Map.empty \<and> (env (world s) ''MPIRE_ACTIVE_DUMP'' = None \<or> dump_on s \<longrightarrow> dump_on s')"
proof -
  let ?s0 = "s\<lparr>MPIre_rank := r\<rparr>" and ?path = "d @ ''/''"
  have dump: "\<forall>t. env (world ?s0) ''MPIRE_ACTIVE_DUMP'' = Some t \<longrightarrow> (\<exists>a. atoi t = Inr a)" using assms(2) by simp
  from init_dump_ok [OF this] obtain s1 where s1: "init_dump ?s0 = Inr s1"
    "files (world s1) = files (world s)" "dirs (world s1) = dirs (world s)" "denied (world s1) = {}"
    "lib (world s1) = lib (world s)" "env (world s1) ''MPIRE_OUTPUT_PATH'' = env (world s) ''MPIRE_OUTPUT_PATH''"
    "MPIre_rank s1 = r" "heap s1 = heap s" "mem (world s1) = mem (world s)" "cpt_write s1 = cpt_write s"
    "env (world s) ''MPIRE_ACTIVE_DUMP'' = None \<or> dump_on s \<longrightarrow> dump_on s1"
    using assms(5) by (elim exE conjE, intro that) (simp_all add: dump_on_def)
  let ?s2 = "s1\<lparr>MPIre_output_path := ?path, requestHtab := htable_init\<rparr>"
  have path: "output_path s1 = ?path" using assms(3) output_path_cong [of s1 ?s0] s1(6,7) by simp
  have len: "length ?path \<le> 127" using output_path_length [of s1] path by simp
  have same: "resolve ?path = resolve d" using resolve_slash [OF assms(4), of "[]"] by simp
  obtain D where D: "make_output_dir ?s2 = Inr (?s2\<lparr>world := (world ?s2)\<lparr>dirs := D\<rparr>\<rparr>)"
    "is_dir ((world ?s2)\<lparr>dirs := D\<rparr>) (resolve d)"
    "D \<subseteq> resolve ` set (path_prefixes ?path) \<union> dirs (world s1)"
    using make_output_dir_ok [of ?s2 d] assms(4,7) s1(2,4) by auto
  let ?s3 = "?s2\<lparr>world := (world s1)\<lparr>dirs := D\<rparr>\<rparr>"
  have entry: "resolve d @ [n] \<notin> D" for n
    using entry_not_prefix [OF _ D(3) assms(4)] assms(8) s1(3) by simp
  have "can_create (world ?s3) (?path @ ''/nprocs'')"
    using can_create_nprocs [of ?path "world ?s3"] len D(2) s1(4) entry by (simp add: same is_dir_def)
  then have "save_nprocs M ?s3 = Inr (?s3\<lparr>world := (world ?s3)\<lparr>files := (files (world s))(resolve d @ [''nprocs''] \<mapsto>
      text_bytes (print_int (size_of_comm M (COMM_WORLD M) s)))\<rparr>\<rparr>)"
    using nprocs_name [of ?path] len s1(2,5) same
    by (simp add: save_nprocs_def write_text_def size_of_comm_def)
  moreover have "init_MPIre M s = and_then (make_output_dir ?s2) (save_nprocs M)"
    using assms(1) s1(1) path by (auto simp: to_capture_def init_MPIre_def rank_of_def Let_def)
  ultimately have init: "init_MPIre M s = Inr (?s3\<lparr>world := (world ?s3)\<lparr>files := (files (world s))(resolve d @ [''nprocs''] \<mapsto>
      text_bytes (print_int (size_of_comm M (COMM_WORLD M) s)))\<rparr>\<rparr>)" (is "_ = Inr ?s4")
    using D(1) by simp
  have "log_dir (world ?s4) ?path"
    using len D(2) s1(4) entry by (simp add: log_dir_def same is_dir_def)
  moreover have "pending hb be ?s4 Map.empty"
    using s1(8) assms(6) by (intro pending_start) simp_all
  moreover have "dump_on ?s4 = dump_on s1" by (simp add: dump_on_def)
  ultimately show ?thesis using init s1(5,7-11) by (intro exI [of _ ?s4]) simp
qed

text \<open>In a file system every directory lies in a directory; \<open>init_MPIre\<close> keeps it so.\<close>

definition file_tree :: "'a os_scheme \<Rightarrow> bool" where
  "file_tree w \<longleftrightarrow> (\<forall>p \<in> dirs w. is_dir w (butlast p))"

lemma file_tree_parent: "file_tree w \<Longrightarrow> is_dir w p \<Longrightarrow> is_dir w (butlast p)"
  by (auto simp: file_tree_def is_dir_def)

lemma file_tree_take: "file_tree w \<Longrightarrow> is_dir w p \<Longrightarrow> is_dir w (take i p)"
proof (induction p rule: rev_induct)
  case (snoc n p)
  then have "is_dir w p" using file_tree_parent [of w "p @ [n]"] by simp
  then show ?case using snoc by (cases "i \<le> length p") simp_all
qed (simp add: is_dir_def)

lemma mkdir_tree:
  assumes "mkdir s w = (r, w')" "file_tree w"
  shows "file_tree w'"
proof (cases "w' = w")
  case False
  then have "w' = w\<lparr>dirs := insert (resolve s) (dirs w)\<rparr>" "is_dir w (butlast (resolve s))"
    using assms(1) by (auto simp: mkdir_def Let_def split: if_splits)
  then show ?thesis using assms(2) by (auto simp: file_tree_def is_dir_def)
qed (simp add: assms(2))

lemma mkpath_loop_tree: "mkpath_loop ps w = (r, w') \<Longrightarrow> file_tree w \<Longrightarrow> file_tree w'"
proof (induction ps arbitrary: w)
  case (Cons p ps)
  obtain e w1 where w1: "mkdir p w = (e, w1)" by (cases "mkdir p w")
  then have "file_tree w1" using mkdir_tree Cons.prems(2) by blast
  then show ?case using Cons.IH [of w1] Cons.prems(1) w1 by (cases e) (auto split: errno.splits)
qed simp

lemma make_output_dir_tree: "make_output_dir s = Inr s' \<Longrightarrow> file_tree (world s) \<Longrightarrow> file_tree (world s')"
  by (auto simp: make_output_dir_def mkpath_def intro: mkpath_loop_tree split: if_splits)

lemma init_tree:
  assumes "init_MPIre M s = Inr s'" "file_tree (world s)"
  shows "file_tree (world s')"
proof -
  have dump: "file_tree (world s2)" if "init_dump s1 = Inr s2" "file_tree (world s1)" for s1 s2
    using that by (auto simp: init_dump_def file_tree_def is_dir_def split: option.splits)
  have save: "file_tree (world s2)" if "save_nprocs M s1 = Inr s2" "file_tree (world s1)" for s1 s2
    using that by (auto simp: save_nprocs_def write_text_def Let_def file_tree_def is_dir_def split: if_splits)
  show ?thesis
    using assms by (auto simp: init_MPIre_def Let_def split: option.splits if_splits
        dest!: dump save make_output_dir_tree)
qed

text \<open>C13. \<open>init_MPIre\<close> in the process to be captured, if the output path ends with a slash, MPIRE_ACTIVE_DUMP
  is a number or not set, no directory is write-protected, no file is where a directory of the path
  goes and no directory where a file of the log goes. Afterwards the log directory exists and log
  files can be created in it; all the directories of its path exist, in a file system where every
  directory lies in a directory; the file \<open>nprocs\<close> holds the number of processes, no receive is
  pending, memory, heap and MPI library are unchanged, and dumping is on unless MPIRE_ACTIVE_DUMP
  turned it off.\<close>

theorem init_creates_log:
  assumes "to_capture M r s" "\<forall>t. env (world s) ''MPIRE_ACTIVE_DUMP'' = Some t \<longrightarrow> (\<exists>a. atoi t = Inr a)"
    "output_path (s\<lparr>MPIre_rank := r\<rparr>) = d @ ''/''" "d \<noteq> []" "denied (world s) = {}" "finite (dom (heap s))"
    "\<forall>t n. d @ ''/'' = t @ CHR ''/'' # n \<longrightarrow> files (world s) (resolve t) = None"
    "\<forall>n. resolve d @ [n] \<notin> dirs (world s)"
  shows "\<exists>s'. init_MPIre M s = Inr s' \<and> MPIre_rank s' = r \<and> MPIre_output_path s' = d @ ''/'' \<and>
    log_dir (world s') (d @ ''/'') \<and> (file_tree (world s) \<longrightarrow> (\<forall>i. is_dir (world s') (take i (resolve d)))) \<and>
    files (world s') = (files (world s))(resolve d @ [''nprocs''] \<mapsto>
      text_bytes (print_int (size_of_comm M (COMM_WORLD M) s))) \<and>
    mem (world s') = mem (world s) \<and> lib (world s') = lib (world s) \<and> heap s' = heap s \<and> cpt_write s' = cpt_write s \<and>
    pending hb be s' Map.empty \<and> (env (world s) ''MPIRE_ACTIVE_DUMP'' = None \<or> dump_on s \<longrightarrow> dump_on s')"
proof -
  have "is_dir (world s') (take i (resolve d))"
    if "init_MPIre M s = Inr s'" "log_dir (world s') (d @ ''/'')" "file_tree (world s)" for s' i
  proof -
    have "is_dir (world s') (resolve d)"
      using that(2) resolve_slash [OF assms(4), of "[]"] by (simp add: log_dir_def)
    then show ?thesis using file_tree_take init_tree [OF that(1,3)] by blast
  qed
  then show ?thesis using init_creates [OF assms, of hb be] by blast
qed

lemma toy_start_path:
  "to_capture toy_mpi 0 toy_start" "output_path (toy_start\<lparr>MPIre_rank := 0\<rparr>) = ''.mpire/dumps/0/log'' @ ''/''"
proof -
  have "atoi ''0'' = Inr 0" by code_simp
  then show "to_capture toy_mpi 0 toy_start"
    by (simp add: to_capture_def toy_start_def rank_of_def toy_mpi_def)
  have "print_int 0 = ''0''" by code_simp
  then show "output_path (toy_start\<lparr>MPIre_rank := 0\<rparr>) = ''.mpire/dumps/0/log'' @ ''/''"
    by (simp add: output_path_def toy_start_def default_path_def snprintf_def)
qed

theorem init_creates_log_witness:
  "\<exists>s'. init_MPIre toy_mpi toy_start = Inr s' \<and> MPIre_rank s' = 0 \<and>
    MPIre_output_path s' = ''.mpire/dumps/0/log'' @ ''/'' \<and> log_dir (world s') (''.mpire/dumps/0/log'' @ ''/'') \<and>
    is_dir (world s') [''.mpire''] \<and> is_dir (world s') [''.mpire'', ''dumps''] \<and> is_dir (world s') [''.mpire'', ''dumps'', ''0''] \<and>
    files (world s') = (files (world toy_start))(resolve ''.mpire/dumps/0/log'' @ [''nprocs''] \<mapsto>
      text_bytes (print_int (size_of_comm toy_mpi (COMM_WORLD toy_mpi) toy_start))) \<and>
    mem (world s') = mem (world toy_start) \<and> lib (world s') = lib (world toy_start) \<and> heap s' = heap toy_start \<and>
    cpt_write s' = cpt_write toy_start \<and> pending 40 False s' Map.empty \<and> dump_on s'"
proof -
  let ?d = "''.mpire/dumps/0/log''"
  have tree: "file_tree (world toy_start)" by (simp add: file_tree_def toy_start_def)
  have "\<exists>s'. init_MPIre toy_mpi toy_start = Inr s' \<and> MPIre_rank s' = 0 \<and> MPIre_output_path s' = ?d @ ''/'' \<and>
    log_dir (world s') (?d @ ''/'') \<and> (file_tree (world toy_start) \<longrightarrow> (\<forall>i. is_dir (world s') (take i (resolve ?d)))) \<and>
    files (world s') = (files (world toy_start))(resolve ?d @ [''nprocs''] \<mapsto>
      text_bytes (print_int (size_of_comm toy_mpi (COMM_WORLD toy_mpi) toy_start))) \<and>
    mem (world s') = mem (world toy_start) \<and> lib (world s') = lib (world toy_start) \<and> heap s' = heap toy_start \<and>
    cpt_write s' = cpt_write toy_start \<and> pending 40 False s' Map.empty \<and>
    (env (world toy_start) ''MPIRE_ACTIVE_DUMP'' = None \<or> dump_on toy_start \<longrightarrow> dump_on s')"
    by (rule init_creates_log [OF toy_start_path(1) _ toy_start_path(2)]) (simp_all add: toy_start_def)
  moreover have "resolve ?d = [''.mpire'', ''dumps'', ''0'', ''log'']" by (simp add: resolve_def)
  moreover have "env (world toy_start) ''MPIRE_ACTIVE_DUMP'' = None" by (simp add: toy_start_def)
  moreover have "take 1 xs = [a]" "take 2 xs = [a, b]" "take 3 xs = [a, b, c]" if "xs = [a, b, c, d]" for a b c d and xs :: path
    using that by simp_all
  ultimately show ?thesis using tree by metis
qed

text \<open>C30. An output path without a slash at its end is not created: \<open>mkpath\<close> makes the directories in
  front of the last slash only, and \<open>init_MPIre\<close> ends the program, because the file \<open>nprocs\<close> cannot be
  opened, unless the directory was there before.\<close>

theorem init_needs_slash:
  assumes "to_capture M r s" "\<forall>t. env (world s) ''MPIRE_ACTIVE_DUMP'' = Some t \<longrightarrow> (\<exists>a. atoi t = Inr a)"
    "output_path (s\<lparr>MPIre_rank := r\<rparr>) = t @ n" "t = [] \<or> List.last t = CHR ''/''"
    "CHR ''/'' \<notin> set n" "n \<noteq> []" "n \<noteq> ''.''" "\<not> is_dir (world s) (resolve (t @ n))"
  shows "init_MPIre M s = Inl Exit_failure"
proof -
  let ?s0 = "s\<lparr>MPIre_rank := r\<rparr>" and ?path = "t @ n"
  have dump: "\<forall>t. env (world ?s0) ''MPIRE_ACTIVE_DUMP'' = Some t \<longrightarrow> (\<exists>a. atoi t = Inr a)" using assms(2) by simp
  from init_dump_ok [OF this] obtain s1 where s1: "init_dump ?s0 = Inr s1"
    "dirs (world s1) = dirs (world s)" "MPIre_rank s1 = r"
    "env (world s1) ''MPIRE_OUTPUT_PATH'' = env (world s) ''MPIRE_OUTPUT_PATH''"
    by auto
  let ?s2 = "s1\<lparr>MPIre_output_path := ?path, requestHtab := htable_init\<rparr>"
  have path: "output_path s1 = ?path" using assms(3) output_path_cong [of s1 ?s0] s1(3,4) by simp
  have len: "?path \<noteq> []" "length ?path \<le> 127" using output_path_length [of s1] path assms(6) by simp_all
  have absent: "\<not> is_dir (world s1) (resolve ?path)" using assms(8) s1(2) by (simp add: is_dir_def)
  have "\<exists>w. make_output_dir ?s2 = Inr (?s2\<lparr>world := w\<rparr>) \<and> \<not> is_dir w (resolve ?path)"
  proof (cases "stat_ok (world s1) ?path")
    case True
    then show ?thesis using absent by (intro exI [of _ "world s1"]) (simp add: make_output_dir_def)
  next
    case False
    obtain e w where w: "mkpath_loop (path_prefixes ?path) (world s1) = (e, w)"
      by (cases "mkpath_loop (path_prefixes ?path) (world s1)")
    from mkpath_loop_only [OF w assms(5-7) refl assms(4) absent] show ?thesis
      using False w assms(6) by (intro exI [of _ w]) (auto simp: make_output_dir_def mkpath_def)
  qed
  then obtain w where w: "make_output_dir ?s2 = Inr (?s2\<lparr>world := w\<rparr>)" "\<not> is_dir w (resolve ?path)" by blast
  have "write_text (?path @ ''/nprocs'') x w = None" for x
    using can_create_needs_dir [of w "?path @ ''/nprocs''"] w(2) nprocs_name(2) [OF len] by simp
  then have "save_nprocs M (?s2\<lparr>world := w\<rparr>) = Inl Exit_failure"
    using nprocs_name(1) [OF len] by (simp add: save_nprocs_def)
  moreover have "init_MPIre M s = and_then (make_output_dir ?s2) (save_nprocs M)"
    using assms(1) s1(1) path by (auto simp: to_capture_def init_MPIre_def rank_of_def Let_def)
  ultimately show ?thesis using w(1) by simp
qed

definition toy_no_slash :: "toy capture" where
  "toy_no_slash = toy_start\<lparr>world := (world toy_start)\<lparr>
     env := [''MPIRE_RANK'' \<mapsto> ''0'', ''MPIRE_OUTPUT_PATH'' \<mapsto> ''your/path'']\<rparr>\<rparr>"

theorem init_needs_slash_witness:
  "init_MPIre toy_mpi toy_no_slash = Inl Exit_failure"
proof (rule init_needs_slash)
  show "to_capture toy_mpi 0 toy_no_slash"
    using toy_start_path(1) by (simp add: to_capture_def toy_no_slash_def toy_start_def rank_of_def)
  show "output_path (toy_no_slash\<lparr>MPIre_rank := 0\<rparr>) = ''your/'' @ ''path''"
    by (simp add: output_path_def toy_no_slash_def snprintf_def)
  show "\<not> is_dir (world toy_no_slash) (resolve (''your/'' @ ''path''))"
    by (simp add: is_dir_def toy_no_slash_def toy_start_def resolve_def)
qed (simp_all add: toy_no_slash_def toy_start_def)

end
