(* ===== verification/Replay.thy ===== *)
theory Replay
  imports Mpi_World
begin

text \<open>
  The replay library (src/src/mpire/mpire_replay.c): the MPI functions a captured program calls,
  answered without the MPI library. Receiving functions read the next file of the log, all
  others do nothing and return MPI_SUCCESS. The commented-out functions are left out, the code
  under DEBUG is in \<open>Debug_Trace\<close>. Where the capture library has a function of the same name, the
  one here carries the prefix \<open>R_\<close> or \<open>r_\<close>; a trailing \<open>_f\<close> is the Fortran underscore.
\<close>

section \<open>State\<close>

record 'w replay = "'w process" +
  cpt_read :: int
  MPIre_input_path :: string
  MPIre_size :: int

section \<open>The log\<close>

definition read_in_file ::
  "'w mpi \<Rightarrow> ptr \<Rightarrow> int \<Rightarrow> u64 \<Rightarrow> ('w, 'a) replay_scheme \<Rightarrow> stop + ('w, 'a) replay_scheme" where
  "read_in_file M buf cnt datatype s =
     and_then (c_int (cpt_read s + 1)) (\<lambda>k.
       let filename = log_name (MPIre_input_path s) (cpt_read s);
           s = s\<lparr>cpt_read := k\<rparr>;
           (fp, file, w) = File_open M filename Rdonly (world s)
       in if fp \<noteq> MPI_SUCCESS then Inl Exit_failure
          else let (_, w) = File_read M file buf cnt datatype w;
                   w = File_close M file w
               in Inr (s\<lparr>world := w\<rparr>))"

section \<open>Start and end\<close>

definition input_path :: "('w, 'a) replay_scheme \<Rightarrow> string" where
  "input_path s =
     snprintf 1024 (case env (world s) ''MPIRE_INPUT_PATH'' of
       None \<Rightarrow> ''.mpire/dumps/'' @ print_int (MPIre_rank s) @ ''/log/''
     | Some p \<Rightarrow> p)"

text \<open>\<open>fscanf\<close> leaves \<open>MPIre_size\<close> alone if the file \<open>nprocs\<close> holds no number.\<close>

definition load_nprocs :: "('w, 'a) replay_scheme \<Rightarrow> stop + ('w, 'a) replay_scheme" where
  "load_nprocs s =
     (case read_text (snprintf 1024 (MPIre_input_path s @ ''/nprocs'')) (world s) of
        None \<Rightarrow> Inl Exit_failure
      | Some t \<Rightarrow> (case scan_int t of
            None \<Rightarrow> Inr s
          | Some n \<Rightarrow> and_then (c_int n) (\<lambda>n. Inr (s\<lparr>MPIre_size := n\<rparr>))))"

definition init_replay :: "('w, 'a) replay_scheme \<Rightarrow> stop + ('w, 'a) replay_scheme" where
  "init_replay s =
     (case env (world s) ''MPIRE_RANK'' of
        None \<Rightarrow> Inl Exit_failure
      | Some r \<Rightarrow> and_then (atoi r) (\<lambda>r.
          let s = s\<lparr>MPIre_rank := r\<rparr>;
              s = s\<lparr>MPIre_input_path := input_path s, requestHtab := htable_init\<rparr>
          in load_nprocs s))"

text \<open>A second MPI_Init starts the log again.\<close>

definition R_MPI_Init :: "'w mpi \<Rightarrow> ptr \<Rightarrow> ptr \<Rightarrow> ('w, 'a) replay_scheme \<Rightarrow> ('w, 'a) replay_scheme result" where
  "R_MPI_Init M argc argv s =
     (if Initialized M (lib (world s)) then Inr (MPI_SUCCESS, s\<lparr>cpt_read := 0\<rparr>)
      else and_then (init_replay s) (\<lambda>s. Inr (pmpi M (Init argc argv) s)))"

definition r_mpi_init_f :: "'w mpi \<Rightarrow> ptr \<Rightarrow> ('w, 'a) replay_scheme \<Rightarrow> stop + ('w, 'a) replay_scheme" where
  "r_mpi_init_f M ierror s =
     (if Initialized M (lib (world s)) then Inr (put_int M ierror MPI_SUCCESS (s\<lparr>cpt_read := 0\<rparr>))
      else and_then (init_replay s) (\<lambda>s.
        let (ret, s) = pmpi M (Init 0 NULL) s in Inr (put_int M ierror ret s)))"

definition R_MPI_Finalize :: "'w mpi \<Rightarrow> ('w, 'a) replay_scheme \<Rightarrow> ('w, 'a) replay_scheme result" where
  "R_MPI_Finalize M s =
     (let (ret, s) = pmpi M Finalize s in Inr (ret, s\<lparr>requestHtab := htable_clear (requestHtab s)\<rparr>))"

definition r_mpi_finalize_f :: "'w mpi \<Rightarrow> ptr \<Rightarrow> ('w, 'a) replay_scheme \<Rightarrow> stop + ('w, 'a) replay_scheme" where
  "r_mpi_finalize_f M ierror s =
     (let (ret, s) = pmpi M Finalize s; s = put_int M ierror ret s
      in Inr (s\<lparr>requestHtab := htable_clear (requestHtab s)\<rparr>))"

definition R_MPI_Finalized :: "'w mpi \<Rightarrow> ptr \<Rightarrow> ('w, 'a) replay_scheme \<Rightarrow> ('w, 'a) replay_scheme result" where
  "R_MPI_Finalized M flag s = Inr (MPI_SUCCESS, put_int M flag 1 s)"

definition r_mpi_finalized_f :: "'w mpi \<Rightarrow> ptr \<Rightarrow> ptr \<Rightarrow> ('w, 'a) replay_scheme \<Rightarrow> stop + ('w, 'a) replay_scheme" where
  "r_mpi_finalized_f M flag ierror s = Inr (put_int M ierror MPI_SUCCESS (put_int M flag 1 s))"

section \<open>Functions that receive\<close>

definition R_MPI_Irecv ::
  "'w mpi \<Rightarrow> ptr \<Rightarrow> int \<Rightarrow> u64 \<Rightarrow> int \<Rightarrow> int \<Rightarrow> u64 \<Rightarrow> ptr \<Rightarrow> ('w, 'a) replay_scheme \<Rightarrow> ('w, 'a) replay_scheme result"
where
  "R_MPI_Irecv M buf cnt datatype source tag comm request s =
     and_then (add_request M buf cnt datatype request s) (\<lambda>s. Inr (MPI_SUCCESS, s))"

definition r_mpi_irecv_f ::
  "'w mpi \<Rightarrow> ptr \<Rightarrow> ptr \<Rightarrow> ptr \<Rightarrow> ptr \<Rightarrow> ptr \<Rightarrow> ptr \<Rightarrow> ptr \<Rightarrow> ptr \<Rightarrow> ('w, 'a) replay_scheme \<Rightarrow>
   stop + ('w, 'a) replay_scheme"
where
  "r_mpi_irecv_f M buf cnt datatype source tag comm request ierror s =
     and_then (add_request M buf (get_int M cnt s) (Type_f2c M (get_int M datatype s)) request s)
       (\<lambda>s. Inr (put_int M ierror MPI_SUCCESS s))"

definition R_MPI_Recv ::
  "'w mpi \<Rightarrow> ptr \<Rightarrow> int \<Rightarrow> u64 \<Rightarrow> int \<Rightarrow> int \<Rightarrow> u64 \<Rightarrow> ptr \<Rightarrow> ('w, 'a) replay_scheme \<Rightarrow> ('w, 'a) replay_scheme result"
where
  "R_MPI_Recv M buf cnt datatype source tag comm status s =
     and_then (read_in_file M buf cnt datatype s) (\<lambda>s. Inr (MPI_SUCCESS, s))"

definition r_mpi_recv_f ::
  "'w mpi \<Rightarrow> ptr \<Rightarrow> ptr \<Rightarrow> ptr \<Rightarrow> ptr \<Rightarrow> ptr \<Rightarrow> ptr \<Rightarrow> ptr \<Rightarrow> ptr \<Rightarrow> ('w, 'a) replay_scheme \<Rightarrow>
   stop + ('w, 'a) replay_scheme"
where
  "r_mpi_recv_f M buf cnt datatype source tag comm status ierror s =
     (let c_datatype = Type_f2c M (get_int M datatype s);
          c_comm = Comm_f2c M (get_int M comm s);
          s = on_mem (Status_f2c M status (c_status M)) s
      in store_ierror M ierror (R_MPI_Recv M buf (get_int M cnt s) c_datatype (get_int M source s)
           (get_int M tag s) c_comm (c_status M) s))"

definition R_MPI_Wait :: "'w mpi \<Rightarrow> ptr \<Rightarrow> ptr \<Rightarrow> ('w, 'a) replay_scheme \<Rightarrow> ('w, 'a) replay_scheme result" where
  "R_MPI_Wait M request status s =
     and_then (complete_request M (read_in_file M) request request s) (\<lambda>s. Inr (MPI_SUCCESS, s))"

definition r_mpi_wait_f :: "'w mpi \<Rightarrow> ptr \<Rightarrow> ptr \<Rightarrow> ptr \<Rightarrow> ('w, 'a) replay_scheme \<Rightarrow> stop + ('w, 'a) replay_scheme" where
  "r_mpi_wait_f M request status ierror s =
     and_then (complete_request M (read_in_file M) request request s) (\<lambda>s. Inr (put_int M ierror MPI_SUCCESS s))"

definition R_MPI_Waitall :: "'w mpi \<Rightarrow> int \<Rightarrow> ptr \<Rightarrow> ptr \<Rightarrow> ('w, 'a) replay_scheme \<Rightarrow> ('w, 'a) replay_scheme result" where
  "R_MPI_Waitall M cnt requests statuses s =
     and_then (for_each [0..<nat cnt] (\<lambda>i. complete_request M (read_in_file M)
         (element (sizeof_request M) requests i) (element (sizeof_request M) requests i)) s)
       (\<lambda>s. Inr (MPI_SUCCESS, s))"

definition r_mpi_waitall_f :: "'w mpi \<Rightarrow> ptr \<Rightarrow> ptr \<Rightarrow> ptr \<Rightarrow> ptr \<Rightarrow> ('w, 'a) replay_scheme \<Rightarrow> stop + ('w, 'a) replay_scheme" where
  "r_mpi_waitall_f M cnt requests statuses ierror s =
     and_then (count_up (get_int M cnt)
         (\<lambda>i. complete_request M (read_in_file M) (element 4 requests i) (element 4 requests i)) 0 s)
       (\<lambda>s. Inr (put_int M ierror MPI_SUCCESS s))"

definition R_MPI_Bcast ::
  "'w mpi \<Rightarrow> ptr \<Rightarrow> int \<Rightarrow> u64 \<Rightarrow> int \<Rightarrow> u64 \<Rightarrow> ('w, 'a) replay_scheme \<Rightarrow> ('w, 'a) replay_scheme result"
where
  "R_MPI_Bcast M buffer cnt datatype root comm s =
     and_then (if MPIre_rank s \<noteq> root then read_in_file M buffer cnt datatype s else Inr s)
       (\<lambda>s. Inr (MPI_SUCCESS, s))"

definition r_mpi_bcast_f ::
  "'w mpi \<Rightarrow> ptr \<Rightarrow> ptr \<Rightarrow> ptr \<Rightarrow> ptr \<Rightarrow> ptr \<Rightarrow> ptr \<Rightarrow> ('w, 'a) replay_scheme \<Rightarrow> stop + ('w, 'a) replay_scheme"
where
  "r_mpi_bcast_f M buffer cnt datatype root comm ierror s =
     store_ierror M ierror (R_MPI_Bcast M buffer (get_int M cnt s) (Type_f2c M (get_int M datatype s))
       (get_int M root s) (Comm_f2c M (get_int M comm s)) s)"

definition R_MPI_Comm_size :: "'w mpi \<Rightarrow> u64 \<Rightarrow> ptr \<Rightarrow> ('w, 'a) replay_scheme \<Rightarrow> ('w, 'a) replay_scheme result" where
  "R_MPI_Comm_size M comm psize s = Inr (MPI_SUCCESS, put_int M psize (MPIre_size s) s)"

definition r_mpi_comm_size_f :: "'w mpi \<Rightarrow> u64 \<Rightarrow> ptr \<Rightarrow> ptr \<Rightarrow> ('w, 'a) replay_scheme \<Rightarrow> stop + ('w, 'a) replay_scheme" where
  "r_mpi_comm_size_f M comm psize ierror s = Inr (put_int M ierror MPI_SUCCESS (put_int M psize (MPIre_size s) s))"

definition R_MPI_Comm_rank :: "'w mpi \<Rightarrow> u64 \<Rightarrow> ptr \<Rightarrow> ('w, 'a) replay_scheme \<Rightarrow> ('w, 'a) replay_scheme result" where
  "R_MPI_Comm_rank M comm rank s = Inr (MPI_SUCCESS, put_int M rank (MPIre_rank s) s)"

definition r_mpi_comm_rank_f :: "'w mpi \<Rightarrow> u64 \<Rightarrow> ptr \<Rightarrow> ptr \<Rightarrow> ('w, 'a) replay_scheme \<Rightarrow> stop + ('w, 'a) replay_scheme" where
  "r_mpi_comm_rank_f M comm rank ierror s = Inr (put_int M ierror MPI_SUCCESS (put_int M rank (MPIre_rank s) s))"

text \<open>\<open>MPI_Alltoall\<close> and \<open>MPI_Alltoallv\<close> call the \<open>MPI_Comm_size\<close> of this library: every communicator has
  \<open>MPIre_size\<close> processes.\<close>

definition R_MPI_Alltoall ::
  "'w mpi \<Rightarrow> ptr \<Rightarrow> int \<Rightarrow> u64 \<Rightarrow> ptr \<Rightarrow> int \<Rightarrow> u64 \<Rightarrow> u64 \<Rightarrow> ('w, 'a) replay_scheme \<Rightarrow> ('w, 'a) replay_scheme result"
where
  "R_MPI_Alltoall M sendbuf sendcount sendtype recvbuf recvcount recvtype comm s =
     and_then (c_int (recvcount * MPIre_size s)) (\<lambda>n.
     and_then (read_in_file M recvbuf n recvtype s) (\<lambda>s. Inr (MPI_SUCCESS, s)))"

definition r_mpi_alltoall_f ::
  "'w mpi \<Rightarrow> ptr \<Rightarrow> ptr \<Rightarrow> ptr \<Rightarrow> ptr \<Rightarrow> ptr \<Rightarrow> ptr \<Rightarrow> ptr \<Rightarrow> ptr \<Rightarrow> ('w, 'a) replay_scheme \<Rightarrow>
   stop + ('w, 'a) replay_scheme"
where
  "r_mpi_alltoall_f M sendbuf sendcount sendtype recvbuf recvcount recvtype comm ierror s =
     store_ierror M ierror (R_MPI_Alltoall M sendbuf (get_int M sendcount s) (Type_f2c M (get_int M sendtype s))
       recvbuf (get_int M recvcount s) (Type_f2c M (get_int M recvtype s)) (Comm_f2c M (get_int M comm s)) s)"

definition R_MPI_Alltoallv ::
  "'w mpi \<Rightarrow> ptr \<Rightarrow> ptr \<Rightarrow> ptr \<Rightarrow> u64 \<Rightarrow> ptr \<Rightarrow> ptr \<Rightarrow> ptr \<Rightarrow> u64 \<Rightarrow> u64 \<Rightarrow> ('w, 'a) replay_scheme \<Rightarrow>
   ('w, 'a) replay_scheme result"
where
  "R_MPI_Alltoallv M sendbuf sendcounts sdispls sendtype recvbuf recvcounts rdispls recvtype comm s =
     and_then (sum_ints M recvcounts (MPIre_size s) s) (\<lambda>n.
     and_then (read_in_file M recvbuf n recvtype s) (\<lambda>s. Inr (MPI_SUCCESS, s)))"

definition r_mpi_alltoallv_f ::
  "'w mpi \<Rightarrow> ptr \<Rightarrow> ptr \<Rightarrow> ptr \<Rightarrow> ptr \<Rightarrow> ptr \<Rightarrow> ptr \<Rightarrow> ptr \<Rightarrow> ptr \<Rightarrow> ptr \<Rightarrow> ptr \<Rightarrow> ('w, 'a) replay_scheme \<Rightarrow>
   stop + ('w, 'a) replay_scheme"
where
  "r_mpi_alltoallv_f M sendbuf sendcounts sdispls sendtype recvbuf recvcounts rdispls recvtype comm ierror s =
     store_ierror M ierror (R_MPI_Alltoallv M sendbuf (get_ptr M sendcounts s) (get_ptr M sdispls s)
       (Type_f2c M (get_int M sendtype s)) recvbuf (get_ptr M recvcounts s) (get_ptr M rdispls s)
       (Type_f2c M (get_int M recvtype s)) (Comm_f2c M (get_int M comm s)) s)"

definition R_MPI_Allreduce ::
  "'w mpi \<Rightarrow> ptr \<Rightarrow> ptr \<Rightarrow> int \<Rightarrow> u64 \<Rightarrow> u64 \<Rightarrow> u64 \<Rightarrow> ('w, 'a) replay_scheme \<Rightarrow> ('w, 'a) replay_scheme result"
where
  "R_MPI_Allreduce M sendbuf recvbuf cnt datatype op comm s =
     and_then (read_in_file M recvbuf cnt datatype s) (\<lambda>s. Inr (MPI_SUCCESS, s))"

definition r_mpi_allreduce_f ::
  "'w mpi \<Rightarrow> ptr \<Rightarrow> ptr \<Rightarrow> ptr \<Rightarrow> ptr \<Rightarrow> ptr \<Rightarrow> ptr \<Rightarrow> ptr \<Rightarrow> ('w, 'a) replay_scheme \<Rightarrow> stop + ('w, 'a) replay_scheme"
where
  "r_mpi_allreduce_f M sendbuf recvbuf cnt datatype op comm ierror s =
     store_ierror M ierror (R_MPI_Allreduce M sendbuf recvbuf (get_int M cnt s) (Type_f2c M (get_int M datatype s))
       (Op_f2c M (get_int M op s)) (Comm_f2c M (get_int M comm s)) s)"

definition R_MPI_Reduce ::
  "'w mpi \<Rightarrow> ptr \<Rightarrow> ptr \<Rightarrow> int \<Rightarrow> u64 \<Rightarrow> u64 \<Rightarrow> int \<Rightarrow> u64 \<Rightarrow> ('w, 'a) replay_scheme \<Rightarrow> ('w, 'a) replay_scheme result"
where
  "R_MPI_Reduce M sendbuf recvbuf cnt datatype op root comm s =
     and_then (if MPIre_rank s = root then read_in_file M recvbuf cnt datatype s else Inr s)
       (\<lambda>s. Inr (MPI_SUCCESS, s))"

text \<open>The one Fortran function whose name has no underscore at the end: \<open>mpi_reduce\<close>.\<close>

definition r_mpi_reduce ::
  "'w mpi \<Rightarrow> ptr \<Rightarrow> ptr \<Rightarrow> ptr \<Rightarrow> ptr \<Rightarrow> ptr \<Rightarrow> ptr \<Rightarrow> ptr \<Rightarrow> ptr \<Rightarrow> ('w, 'a) replay_scheme \<Rightarrow>
   stop + ('w, 'a) replay_scheme"
where
  "r_mpi_reduce M sendbuf recvbuf cnt datatype op root comm ierror s =
     store_ierror M ierror (R_MPI_Reduce M sendbuf recvbuf (get_int M cnt s) (Type_f2c M (get_int M datatype s))
       (Op_f2c M (get_int M op s)) (get_int M root s) (Comm_f2c M (get_int M comm s)) s)"

section \<open>Functions that do nothing\<close>

definition R_MPI_Abort :: "u64 \<Rightarrow> int \<Rightarrow> ('w, 'a) replay_scheme \<Rightarrow> ('w, 'a) replay_scheme result" where
  "R_MPI_Abort comm errorcode s = Inr (MPI_SUCCESS, s)"

definition R_MPI_Barrier :: "u64 \<Rightarrow> ('w, 'a) replay_scheme \<Rightarrow> ('w, 'a) replay_scheme result" where
  "R_MPI_Barrier comm s = Inr (MPI_SUCCESS, s)"

definition R_MPI_Send ::
  "ptr \<Rightarrow> int \<Rightarrow> u64 \<Rightarrow> int \<Rightarrow> int \<Rightarrow> u64 \<Rightarrow> ('w, 'a) replay_scheme \<Rightarrow> ('w, 'a) replay_scheme result" where
  "R_MPI_Send buf cnt datatype dest tag comm s = Inr (MPI_SUCCESS, s)"

definition R_MPI_Isend ::
  "ptr \<Rightarrow> int \<Rightarrow> u64 \<Rightarrow> int \<Rightarrow> int \<Rightarrow> u64 \<Rightarrow> ptr \<Rightarrow> ('w, 'a) replay_scheme \<Rightarrow> ('w, 'a) replay_scheme result" where
  "R_MPI_Isend buf cnt datatype dest tag comm request s = Inr (MPI_SUCCESS, s)"

definition R_MPI_Start :: "ptr \<Rightarrow> ('w, 'a) replay_scheme \<Rightarrow> ('w, 'a) replay_scheme result" where
  "R_MPI_Start request s = Inr (MPI_SUCCESS, s)"

text \<open>The Fortran functions that only set \<open>ierror\<close>: abort, barrier, send, isend and start.\<close>

definition r_set_ierror :: "'w mpi \<Rightarrow> ptr \<Rightarrow> ('w, 'a) replay_scheme \<Rightarrow> stop + ('w, 'a) replay_scheme" where
  "r_set_ierror M ierror s = Inr (put_int M ierror MPI_SUCCESS s)"

definition r_mpi_abort_f :: "'w mpi \<Rightarrow> u64 \<Rightarrow> int \<Rightarrow> ptr \<Rightarrow> ('w, 'a) replay_scheme \<Rightarrow> stop + ('w, 'a) replay_scheme" where
  "r_mpi_abort_f M comm errorcode ierror = r_set_ierror M ierror"

definition r_mpi_barrier_f :: "'w mpi \<Rightarrow> ptr \<Rightarrow> ptr \<Rightarrow> ('w, 'a) replay_scheme \<Rightarrow> stop + ('w, 'a) replay_scheme" where
  "r_mpi_barrier_f M comm ierror = r_set_ierror M ierror"

definition r_mpi_send_f ::
  "'w mpi \<Rightarrow> ptr \<Rightarrow> ptr \<Rightarrow> ptr \<Rightarrow> ptr \<Rightarrow> ptr \<Rightarrow> ptr \<Rightarrow> ptr \<Rightarrow> ('w, 'a) replay_scheme \<Rightarrow> stop + ('w, 'a) replay_scheme" where
  "r_mpi_send_f M buf cnt datatype dest tag comm ierror = r_set_ierror M ierror"

definition r_mpi_isend_f ::
  "'w mpi \<Rightarrow> ptr \<Rightarrow> int \<Rightarrow> u64 \<Rightarrow> int \<Rightarrow> int \<Rightarrow> u64 \<Rightarrow> ptr \<Rightarrow> ptr \<Rightarrow> ('w, 'a) replay_scheme \<Rightarrow>
   stop + ('w, 'a) replay_scheme" where
  "r_mpi_isend_f M buf cnt datatype dest tag comm request ierror = r_set_ierror M ierror"

definition r_mpi_start_f :: "'w mpi \<Rightarrow> ptr \<Rightarrow> ptr \<Rightarrow> ('w, 'a) replay_scheme \<Rightarrow> stop + ('w, 'a) replay_scheme" where
  "r_mpi_start_f M request ierror = r_set_ierror M ierror"

end
