(* ===== verification/Replay_Log.thy ===== *)
theory Replay_Log
  imports Replay Capture_Log
begin

text \<open>
  What the replay library reads: the number of processes, and the log files in the order they
  were written, which give the buffers their captured content.
\<close>

section \<open>Reading a log file\<close>

lemma read_in_file_frame:
  assumes "read_in_file M b n d s = Inr s'"
  shows "heap s' = heap s" "requestHtab s' = requestHtab s" "MPIre_rank s' = MPIre_rank s"
    "MPIre_input_path s' = MPIre_input_path s" "MPIre_size s' = MPIre_size s"
  using assms by (auto simp: read_in_file_def Let_def split: if_splits prod.splits)

interpretation replay: log_transfer al "read_in_file M" for al M
  by unfold_locales (simp add: read_in_file_frame)

lemma read_in_file_ok:
  assumes laws: "file_laws G M" and k: "is_int (cpt_read s)" "is_int (cpt_read s + 1)"
    and dir: "MPIre_input_path s \<noteq> []" "length (MPIre_input_path s) \<le> 1000" and n: "0 \<le> n"
    and content: "files (world s) (log_path (MPIre_input_path s) (cpt_read s)) = Some bs"
  shows "\<exists>l. read_in_file M b n d s = Inr (s\<lparr>cpt_read := cpt_read s + 1,
    world := (world s)\<lparr>mem := fill (cells M d n b) bs (mem (world s)), lib := l\<rparr>\<rparr>)"
proof -
  let ?w = "world s" and ?name = "log_name (MPIre_input_path s) (cpt_read s)"
  note path = log_entry [OF dir k(1)]
  obtain fh l1 where open1: "File_open M ?name Rdonly ?w = (MPI_SUCCESS, fh, ?w\<lparr>lib := l1\<rparr>)"
    "opened G l1 fh = Some (log_path (MPIre_input_path s) (cpt_read s))"
    using file_lawsD(2) [OF laws, of ?w ?name] path content by auto
  obtain e l2 where rd: "File_read M fh b n d (?w\<lparr>lib := l1\<rparr>) =
      (e, ?w\<lparr>mem := fill (cells M d n b) bs (mem ?w), lib := l2\<rparr>)"
    using file_lawsD(5) [OF laws, where w = "?w\<lparr>lib := l1\<rparr>" and fh = fh and bs = bs and p = "log_path (MPIre_input_path s) (cpt_read s)" and n = n and d = d and b = b]
      open1(2) content n by auto
  obtain l3 where "File_close M fh (?w\<lparr>mem := fill (cells M d n b) bs (mem ?w), lib := l2\<rparr>) =
      ?w\<lparr>mem := fill (cells M d n b) bs (mem ?w), lib := l3\<rparr>"
    using file_lawsD(6) [OF laws, of fh "?w\<lparr>mem := fill (cells M d n b) bs (mem ?w), lib := l2\<rparr>"] by auto
  then show ?thesis
    using k open1(1) rd by (intro exI [of _ l3]) (simp add: read_in_file_def c_int_def Let_def)
qed

lemma read_in_file_missing:
  assumes "file_laws G M" "is_int (cpt_read s)" "is_int (cpt_read s + 1)"
    "MPIre_input_path s \<noteq> []" "length (MPIre_input_path s) \<le> 1000"
    "files (world s) (log_path (MPIre_input_path s) (cpt_read s)) = None"
  shows "read_in_file M b n d s = Inl Exit_failure"
proof -
  have "fst (File_open M (log_name (MPIre_input_path s) (cpt_read s)) Rdonly (world s)) \<noteq> MPI_SUCCESS"
    using file_lawsD(3) [OF assms(1)] log_entry [OF assms(4,5,2)] assms(6) by simp
  then show ?thesis
    using assms(2,3) by (simp add: read_in_file_def c_int_def Let_def split_beta)
qed

definition toy_replaying :: "toy replay" where
  "toy_replaying =
     \<lparr>heap = Map.empty, requestHtab = htable_init,
      world = (world toy_start)\<lparr>files := [[''log'', ''0''] \<mapsto> [1, 2, 3, 4]]\<rparr>,
      MPIre_rank = 0, cpt_read = 0, MPIre_input_path = ''log'', MPIre_size = 2\<rparr>"

lemma toy_log_path: "log_path ''log'' 0 = [''log'', ''0'']"
proof -
  have "print_int 0 = ''0''" by code_simp
  then show ?thesis by (simp add: log_path_def resolve_def)
qed

text \<open>C20. \<open>read_in_file\<close> fills the cells of the buffer from the beginning of the next log file and counts
  the file; where the file is missing it ends the program.\<close>

theorem read_in_file_correct:
  assumes "file_laws G M" "is_int (cpt_read s)" "is_int (cpt_read s + 1)"
    "MPIre_input_path s \<noteq> []" "length (MPIre_input_path s) \<le> 1000" "0 \<le> n"
  shows "case files (world s) (log_path (MPIre_input_path s) (cpt_read s)) of
      None \<Rightarrow> read_in_file M b n d s = Inl Exit_failure
    | Some bs \<Rightarrow> \<exists>s'. read_in_file M b n d s = Inr s' \<and> cpt_read s' = cpt_read s + 1 \<and>
        mem (world s') = fill (cells M d n b) bs (mem (world s)) \<and> files (world s') = files (world s) \<and>
        heap s' = heap s \<and> requestHtab s' = requestHtab s"
proof (cases "files (world s) (log_path (MPIre_input_path s) (cpt_read s))")
  case None
  then show ?thesis using read_in_file_missing [OF assms(1-5) None, of b n d] by simp
next
  case (Some bs)
  from read_in_file_ok [OF assms Some, of b d] Some show ?thesis by auto
qed

theorem read_in_file_correct_witness:
  "case files (world toy_replaying) (log_path (MPIre_input_path toy_replaying) (cpt_read toy_replaying)) of
      None \<Rightarrow> read_in_file toy_mpi 64 3 9 toy_replaying = Inl Exit_failure
    | Some bs \<Rightarrow> \<exists>s'. read_in_file toy_mpi 64 3 9 toy_replaying = Inr s' \<and> cpt_read s' = cpt_read toy_replaying + 1 \<and>
        mem (world s') = fill (cells toy_mpi 9 3 64) bs (mem (world toy_replaying)) \<and>
        files (world s') = files (world toy_replaying) \<and>
        heap s' = heap toy_replaying \<and> requestHtab s' = requestHtab toy_replaying"
  by (rule read_in_file_correct [OF toy_file_laws]) (simp_all add: toy_replaying_def is_int_def)

text \<open>C10. A buffer survives the log: what \<open>write_in_file\<close> wrote, \<open>read_in_file\<close> puts back into the same
  buffer, whatever was in the file before and whatever is in the replay's memory; the other
  cells stay as they are in the replay.\<close>

theorem log_roundtrip:
  assumes "file_laws G M" "file_laws G' M'" "cells M' = cells M" "dump_on s" "is_int (cpt_write s)" "is_int (cpt_write s + 1)"
    "log_dir (world s) (MPIre_output_path s)" "0 \<le> n" "write_in_file M b n d s = Inr s'"
    "files (world r) = files (world s')" "MPIre_input_path r = MPIre_output_path s" "cpt_read r = cpt_write s"
  shows "\<exists>r'. read_in_file M' b n d r = Inr r' \<and> cpt_read r' = cpt_write s' \<and>
    (\<forall>a. mem (world r') a = (if a \<in> set (cells M d n b) then mem (world s) a else mem (world r) a))"
proof -
  let ?p = "log_path (MPIre_output_path s) (cpt_write s)"
  obtain l where "s' = s\<lparr>cpt_write := cpt_write s + 1, world := (world s)\<lparr>files := logged ?p
      (map (mem (world s)) (cells M d n b)) (files (world s)), lib := l\<rparr>\<rparr>"
    using write_in_file_ok [OF assms(1,4-8), of b d] assms(9) by auto
  then have s': "cpt_write s' = cpt_write s + 1"
    "files (world s') ?p = Some (overwrite (map (mem (world s)) (cells M d n b))
      (case files (world s) ?p of None \<Rightarrow> [] | Some old \<Rightarrow> old))"
    by (simp_all add: logged_def)
  have path: "MPIre_input_path r \<noteq> []" "length (MPIre_input_path r) \<le> 1000"
    using assms(7,11) by (auto simp: log_dir_def)
  have content: "files (world r) (log_path (MPIre_input_path r) (cpt_read r)) = Some (overwrite (map (mem (world s)) (cells M d n b))
      (case files (world s) ?p of None \<Rightarrow> [] | Some old \<Rightarrow> old))"
    using s'(2) assms(10-12) by simp
  have k: "is_int (cpt_read r)" "is_int (cpt_read r + 1)" using assms(5,6,12) by simp_all
  obtain l' where "read_in_file M' b n d r = Inr (r\<lparr>cpt_read := cpt_read r + 1,
      world := (world r)\<lparr>mem := fill (cells M' d n b) (overwrite (map (mem (world s)) (cells M d n b))
        (case files (world s) ?p of None \<Rightarrow> [] | Some old \<Rightarrow> old)) (mem (world r)), lib := l'\<rparr>\<rparr>)"
    using read_in_file_ok [OF assms(2) k path assms(8) content, of b d] by blast
  then show ?thesis by (simp add: assms(3,12) s'(1) fill_overwrite)
qed

theorem log_roundtrip_witness:
  "\<exists>s' r'. write_in_file toy_mpi 64 3 9 toy_logging = Inr s' \<and>
     read_in_file toy_mpi 64 3 9 (toy_replaying\<lparr>world := (world toy_replaying)\<lparr>files := files (world s')\<rparr>\<rparr>) = Inr r' \<and>
     cpt_read r' = cpt_write s' \<and>
     (\<forall>a. mem (world r') a = (if a \<in> set (cells toy_mpi 9 3 64) then mem (world toy_logging) a
        else mem (world (toy_replaying\<lparr>world := (world toy_replaying)\<lparr>files := files (world s')\<rparr>\<rparr>)) a))"
proof -
  have k: "is_int (cpt_write toy_logging)" "is_int (cpt_write toy_logging + 1)"
    by (simp_all add: toy_logging_ok is_int_def)
  have dir: "log_dir (world toy_logging) (MPIre_output_path toy_logging)" by (simp add: toy_logging_ok)
  obtain l where w: "write_in_file toy_mpi 64 3 9 toy_logging = Inr (toy_logging\<lparr>cpt_write := cpt_write toy_logging + 1,
      world := (world toy_logging)\<lparr>files := logged (log_path (MPIre_output_path toy_logging) (cpt_write toy_logging))
        (map (mem (world toy_logging)) (cells toy_mpi 9 3 64)) (files (world toy_logging)), lib := l\<rparr>\<rparr>)" (is "_ = Inr ?s'")
    using write_in_file_ok [OF toy_file_laws toy_logging_ok(2) k dir, of 3 64 9] by auto
  let ?r = "toy_replaying\<lparr>world := (world toy_replaying)\<lparr>files := files (world ?s')\<rparr>\<rparr>"
  have "\<exists>r'. read_in_file toy_mpi 64 3 9 ?r = Inr r' \<and> cpt_read r' = cpt_write ?s' \<and>
     (\<forall>a. mem (world r') a = (if a \<in> set (cells toy_mpi 9 3 64) then mem (world toy_logging) a else mem (world ?r) a))"
    by (rule log_roundtrip [OF toy_file_laws toy_file_laws refl toy_logging_ok(2) k dir _ w])
      (simp_all add: toy_replaying_def toy_logging_ok)
  then show ?thesis using w by blast
qed

section \<open>Initialisation\<close>

lemma init_replay_start:
  assumes "env (world s) ''MPIRE_RANK'' = Some t" "atoi t = Inr rank" "input_path (s\<lparr>MPIre_rank := rank\<rparr>) = d"
  shows "init_replay s = load_nprocs (s\<lparr>MPIre_rank := rank, MPIre_input_path := d, requestHtab := htable_init\<rparr>)"
  using assms by (simp add: init_replay_def Let_def)

lemma nprocs_file:
  assumes "d \<noteq> []" "length d \<le> 1000"
  shows "snprintf 1024 (d @ ''/nprocs'') = d @ ''/nprocs''" "resolve (d @ ''/nprocs'') = resolve d @ [''nprocs'']"
    "\<not> names_dir (d @ ''/nprocs'')"
  using assms resolve_entry [of "''nprocs''" d] by (simp_all add: snprintf_def names_dir_def)

lemma init_replay_ok:
  assumes "env (world s) ''MPIRE_RANK'' = Some t" "atoi t = Inr rank" "input_path (s\<lparr>MPIre_rank := rank\<rparr>) = d"
    "d \<noteq> []" "length d \<le> 1000" "is_int n"
    "files (world s) (resolve d @ [''nprocs'']) = Some (text_bytes (print_int n))"
  shows "init_replay s = Inr (s\<lparr>MPIre_rank := rank, MPIre_input_path := d, requestHtab := htable_init, MPIre_size := n\<rparr>)"
proof -
  have "read_text (d @ ''/nprocs'') (world s) = Some (print_int n)"
    using nprocs_file [OF assms(4,5)] assms(7) by (simp add: read_text_def)
  then show ?thesis
    using assms(6) nprocs_file(1) [OF assms(4,5)] scan_print_int [of "[]" n]
    by (simp add: init_replay_start [OF assms(1-3)] load_nprocs_def c_int_def)
qed

text \<open>C12. The replay starts where the capture was started: with MPIRE_RANK and the path of the log,
  \<open>init_MPIre\<close> finds the rank, and in the file \<open>nprocs\<close> the number of processes that was printed
  there; no receive is pending. Without the file it ends the program.\<close>

theorem init_replay_restores:
  assumes "env (world s) ''MPIRE_RANK'' = Some t" "atoi t = Inr rank"
    "input_path (s\<lparr>MPIre_rank := rank\<rparr>) = d" "d \<noteq> []" "length d \<le> 1000" "finite (dom (heap s))"
  shows "(\<forall>n. is_int n \<longrightarrow> files (world s) (resolve d @ [''nprocs'']) = Some (text_bytes (print_int n)) \<longrightarrow>
      (\<exists>s'. init_replay s = Inr s' \<and> MPIre_rank s' = rank \<and> MPIre_size s' = n \<and> MPIre_input_path s' = d \<and>
        world s' = world s \<and> cpt_read s' = cpt_read s \<and> pending hb be s' Map.empty)) \<and>
    (files (world s) (resolve d @ [''nprocs'']) = None \<longrightarrow> init_replay s = Inl Exit_failure)"
proof (intro conjI allI impI)
  fix n
  assume n: "is_int n" "files (world s) (resolve d @ [''nprocs'']) = Some (text_bytes (print_int n))"
  let ?s' = "s\<lparr>MPIre_rank := rank, MPIre_input_path := d, requestHtab := htable_init, MPIre_size := n\<rparr>"
  have "pending hb be ?s' Map.empty" using assms(6) by (intro pending_start) simp_all
  then show "\<exists>s'. init_replay s = Inr s' \<and> MPIre_rank s' = rank \<and> MPIre_size s' = n \<and> MPIre_input_path s' = d \<and>
      world s' = world s \<and> cpt_read s' = cpt_read s \<and> pending hb be s' Map.empty"
    using init_replay_ok [OF assms(1-5) n] by (intro exI [of _ ?s']) simp
next
  assume "files (world s) (resolve d @ [''nprocs'']) = None"
  then have "read_text (d @ ''/nprocs'') (world s) = None"
    using nprocs_file [OF assms(4,5)] by (simp add: read_text_def)
  then show "init_replay s = Inl Exit_failure"
    using nprocs_file(1) [OF assms(4,5)] by (simp add: init_replay_start [OF assms(1-3)] load_nprocs_def)
qed

definition toy_replay_start :: "toy replay" where
  "toy_replay_start =
     \<lparr>heap = Map.empty, requestHtab = static_table,
      world = (world toy_start)\<lparr>files := [[''log'', ''nprocs''] \<mapsto> text_bytes (print_int 2)],
        env := [''MPIRE_RANK'' \<mapsto> ''0'', ''MPIRE_INPUT_PATH'' \<mapsto> ''log'']\<rparr>,
      MPIre_rank = 0, cpt_read = 0, MPIre_input_path = [], MPIre_size = 0\<rparr>"

theorem init_replay_restores_witness:
  "\<exists>s'. init_replay toy_replay_start = Inr s' \<and> MPIre_rank s' = 0 \<and> MPIre_size s' = 2 \<and>
     MPIre_input_path s' = ''log'' \<and> world s' = world toy_replay_start \<and>
     cpt_read s' = cpt_read toy_replay_start \<and> pending 40 False s' Map.empty"
proof -
  have rank: "env (world toy_replay_start) ''MPIRE_RANK'' = Some ''0''" "atoi ''0'' = Inr 0"
    "input_path (toy_replay_start\<lparr>MPIre_rank := 0\<rparr>) = ''log''"
    by (simp_all add: toy_replay_start_def input_path_def snprintf_def) code_simp
  have "files (world toy_replay_start) (resolve ''log'' @ [''nprocs'']) = Some (text_bytes (print_int 2))"
    by (simp add: toy_replay_start_def resolve_def)
  moreover have "is_int 2" by (simp add: is_int_def)
  moreover have "finite (dom (heap toy_replay_start))" by (simp add: toy_replay_start_def)
  ultimately show ?thesis using init_replay_restores [OF rank] by simp
qed

end
