(* ===== verification/Calls.thy ===== *)
theory Calls
  imports Capture_Log Replay_Log
begin

text \<open>
  The interfaces of both libraries as a whole: what a call of the program, in C or in Fortran,
  does in the capture and in the replay. The capture hands the calls of C to MPI unchanged.
\<close>

section \<open>Dispatch\<close>

text \<open>A call the capture library has no wrapper for goes to the MPI library.\<close>

fun capture_call :: "'w mpi \<Rightarrow> mpi_call \<Rightarrow> ('w, 'a) capture_scheme \<Rightarrow> ('w, 'a) capture_scheme result" where
  "capture_call M (Init argc argv) s = MPI_Init M argc argv s"
| "capture_call M Finalize s = MPI_Finalize M s"
| "capture_call M (Irecv b n d source tag comm request) s = MPI_Irecv M b n d source tag comm request s"
| "capture_call M (Recv b n d source tag comm status) s = MPI_Recv M b n d source tag comm status s"
| "capture_call M (Wait request status) s = MPI_Wait M request status s"
| "capture_call M (Waitall n requests statuses) s = MPI_Waitall M n requests statuses s"
| "capture_call M (Bcast b n d root comm) s = MPI_Bcast M b n d root comm s"
| "capture_call M (Alltoall sb sn sd rb rn rd comm) s = MPI_Alltoall M sb sn sd rb rn rd comm s"
| "capture_call M (Alltoallv sb sn sv sd rb rn rv rd comm) s = MPI_Alltoallv M sb sn sv sd rb rn rv rd comm s"
| "capture_call M (Allreduce sb rb n d op comm) s = MPI_Allreduce M sb rb n d op comm s"
| "capture_call M (Reduce sb rb n d op root comm) s = MPI_Reduce M sb rb n d op root comm s"
| "capture_call M c s = Inr (pmpi M c s)"

fun replay_call :: "'w mpi \<Rightarrow> mpi_call \<Rightarrow> ('w, 'a) replay_scheme \<Rightarrow> ('w, 'a) replay_scheme result" where
  "replay_call M (Init argc argv) s = R_MPI_Init M argc argv s"
| "replay_call M Finalize s = R_MPI_Finalize M s"
| "replay_call M (Irecv b n d source tag comm request) s = R_MPI_Irecv M b n d source tag comm request s"
| "replay_call M (Recv b n d source tag comm status) s = R_MPI_Recv M b n d source tag comm status s"
| "replay_call M (Wait request status) s = R_MPI_Wait M request status s"
| "replay_call M (Waitall n requests statuses) s = R_MPI_Waitall M n requests statuses s"
| "replay_call M (Bcast b n d root comm) s = R_MPI_Bcast M b n d root comm s"
| "replay_call M (Alltoall sb sn sd rb rn rd comm) s = R_MPI_Alltoall M sb sn sd rb rn rd comm s"
| "replay_call M (Alltoallv sb sn sv sd rb rn rv rd comm) s = R_MPI_Alltoallv M sb sn sv sd rb rn rv rd comm s"
| "replay_call M (Allreduce sb rb n d op comm) s = R_MPI_Allreduce M sb rb n d op comm s"
| "replay_call M (Reduce sb rb n d op root comm) s = R_MPI_Reduce M sb rb n d op root comm s"
| "replay_call M (Send b n d dest tag comm) s = R_MPI_Send b n d dest tag comm s"
| "replay_call M (Isend b n d dest tag comm request) s = R_MPI_Isend b n d dest tag comm request s"
| "replay_call M (Start request) s = R_MPI_Start request s"
| "replay_call M (Barrier comm) s = R_MPI_Barrier comm s"
| "replay_call M (Get_rank comm p) s = R_MPI_Comm_rank M comm p s"
| "replay_call M (Get_size comm p) s = R_MPI_Comm_size M comm p s"

text \<open>
  The same for the calls of a Fortran program. The functions of the replay that take some of their
  arguments by value get the addresses the program passes. The replay has no function of the name
  mpi_reduce_ (its own is called mpi_reduce), so this call goes to the MPI library.
\<close>

definition int_of_arg :: "ptr \<Rightarrow> int" where
  "int_of_arg p = sint (ucast p :: u32)"

definition pmpi_f :: "'w mpi \<Rightarrow> f_call \<Rightarrow> ('w, 'a) process_scheme \<Rightarrow> ('w, 'a) process_scheme" where
  "pmpi_f M c s = s\<lparr>world := PMPI_f M c (world s)\<rparr>"

fun capture_f :: "'w mpi \<Rightarrow> f_call \<Rightarrow> ('w, 'a) capture_scheme \<Rightarrow> stop + ('w, 'a) capture_scheme" where
  "capture_f M (F_Init ierror) s = mpi_init_f M ierror s"
| "capture_f M (F_Finalize ierror) s = mpi_finalize_f M ierror s"
| "capture_f M (F_Irecv b n d source tag comm request ierror) s = mpi_irecv_f M b n d source tag comm request ierror s"
| "capture_f M (F_Recv b n d source tag comm status ierror) s = mpi_recv_f M b n d source tag comm status ierror s"
| "capture_f M (F_Wait request status ierror) s = mpi_wait_f M request status ierror s"
| "capture_f M (F_Waitall n requests statuses ierror) s = mpi_waitall_f M n requests statuses ierror s"
| "capture_f M (F_Bcast b n d root comm ierror) s = mpi_bcast_f M b n d root comm ierror s"
| "capture_f M (F_Alltoall sb sn sd rb rn rd comm ierror) s = mpi_alltoall_f M sb sn sd rb rn rd comm ierror s"
| "capture_f M (F_Alltoallv sb sn sv sd rb rn rv rd comm ierror) s = mpi_alltoallv_f M sb sn sv sd rb rn rv rd comm ierror s"
| "capture_f M (F_Allreduce sb rb n d op comm ierror) s = mpi_allreduce_f M sb rb n d op comm ierror s"
| "capture_f M (F_Reduce sb rb n d op root comm ierror) s = mpi_reduce_f M sb rb n d op root comm ierror s"
| "capture_f M c s = Inr (pmpi_f M c s)"

fun replay_f :: "'w mpi \<Rightarrow> f_call \<Rightarrow> ('w, 'a) replay_scheme \<Rightarrow> stop + ('w, 'a) replay_scheme" where
  "replay_f M (F_Init ierror) s = r_mpi_init_f M ierror s"
| "replay_f M (F_Finalize ierror) s = r_mpi_finalize_f M ierror s"
| "replay_f M (F_Irecv b n d source tag comm request ierror) s = r_mpi_irecv_f M b n d source tag comm request ierror s"
| "replay_f M (F_Recv b n d source tag comm status ierror) s = r_mpi_recv_f M b n d source tag comm status ierror s"
| "replay_f M (F_Wait request status ierror) s = r_mpi_wait_f M request status ierror s"
| "replay_f M (F_Waitall n requests statuses ierror) s = r_mpi_waitall_f M n requests statuses ierror s"
| "replay_f M (F_Bcast b n d root comm ierror) s = r_mpi_bcast_f M b n d root comm ierror s"
| "replay_f M (F_Alltoall sb sn sd rb rn rd comm ierror) s = r_mpi_alltoall_f M sb sn sd rb rn rd comm ierror s"
| "replay_f M (F_Alltoallv sb sn sv sd rb rn rv rd comm ierror) s = r_mpi_alltoallv_f M sb sn sv sd rb rn rv rd comm ierror s"
| "replay_f M (F_Allreduce sb rb n d op comm ierror) s = r_mpi_allreduce_f M sb rb n d op comm ierror s"
| "replay_f M (F_Reduce sb rb n d op root comm ierror) s = Inr (pmpi_f M (F_Reduce sb rb n d op root comm ierror) s)"
| "replay_f M (F_Send b n d dest tag comm ierror) s = r_mpi_send_f M b n d dest tag comm ierror s"
| "replay_f M (F_Isend b n d dest tag comm request ierror) s =
     r_mpi_isend_f M b (int_of_arg n) d (int_of_arg dest) (int_of_arg tag) comm request ierror s"
| "replay_f M (F_Start request ierror) s = r_mpi_start_f M request ierror s"
| "replay_f M (F_Barrier comm ierror) s = r_mpi_barrier_f M comm ierror s"
| "replay_f M (F_Rank comm p ierror) s = r_mpi_comm_rank_f M comm p ierror s"
| "replay_f M (F_Size comm p ierror) s = r_mpi_comm_size_f M comm p ierror s"

section \<open>The capture is transparent\<close>

text \<open>The input and output functions of MPI do not change the memory of the program.\<close>

definition quiet_files :: "'w mpi \<Rightarrow> bool" where
  "quiet_files M \<longleftrightarrow> (\<forall>name mode w. mem (snd (snd (File_open M name mode w))) = mem w) \<and>
     (\<forall>fh b n d w. mem (snd (File_write M fh b n d w)) = mem w) \<and> (\<forall>fh w. mem (File_close M fh w) = mem w)"

lemma write_in_file_mem:
  assumes "quiet_files M" "write_in_file M b n d s = Inr s'"
  shows "mem (world s') = mem (world s)"
proof (cases "world s' = world s")
  case False
  obtain fp fh w1 where open1: "File_open M (log_name (MPIre_output_path s) (cpt_write s)) Create_rdwr (world s) = (fp, fh, w1)"
    by (cases "File_open M (log_name (MPIre_output_path s) (cpt_write s)) Create_rdwr (world s)")
  have "world s' = File_close M fh (snd (File_write M fh b n d w1))"
    using assms(2) False open1 by (auto simp: write_in_file_def Let_def split: if_splits prod.splits)
  moreover have "mem w1 = mem (world s)" using assms(1) open1 unfolding quiet_files_def by (metis snd_conv)
  ultimately show ?thesis using assms(1) by (simp add: quiet_files_def)
qed simp

lemma complete_request_mem:
  assumes "quiet_files M" "complete_request M (write_in_file M) k h s = Inr s'"
  shows "mem (world s') = mem (world s)"
  using assms write_in_file_mem [OF assms(1)]
  by (auto simp: complete_request_def del_request_def or_undefined_def split: if_splits prod.splits option.splits)

lemma mkpath_mem:
  assumes "mkpath p w = Inr (r, w')"
  shows "mem w' = mem (w :: 'w world)"
proof -
  have "mkpath_loop (path_prefixes p) w = (r, w')" using assms by (simp add: mkpath_def split: if_splits)
  from mkpath_loop_frame [OF this] show ?thesis by auto
qed

lemma init_steps_mem:
  "init_dump s = Inr s' \<Longrightarrow> mem (world s') = mem (world s)"
  "make_output_dir s = Inr s' \<Longrightarrow> mem (world s') = mem (world s)"
  "save_nprocs M s = Inr s' \<Longrightarrow> mem (world s') = mem (world s)"
  using mkpath_mem
  by (auto simp: init_dump_def make_output_dir_def save_nprocs_def write_text_def Let_def
      split: option.splits if_splits)

lemma init_MPIre_mem: "init_MPIre M s = Inr s' \<Longrightarrow> mem (world s') = mem (world s)"
  by (auto simp: init_MPIre_def Let_def split: option.splits if_splits dest!: init_steps_mem)

lemma add_request_world: "add_request M b n d k s = Inr s' \<Longrightarrow> world s' = world s"
  by (auto simp: add_request_def Let_def split: if_splits prod.splits)

lemma for_each_complete_mem:
  assumes "quiet_files M"
    "for_each is (\<lambda>i s. complete_request M (write_in_file M) (k i s) (h i) s) s = Inr s'"
  shows "mem (world s') = mem (world s)"
  using assms(2)
proof (induction "is" arbitrary: s)
  case (Cons i "is")
  then obtain s1 where s1: "complete_request M (write_in_file M) (k i s) (h i) s = Inr s1"
    "for_each is (\<lambda>i s. complete_request M (write_in_file M) (k i s) (h i) s) s1 = Inr s'" by auto
  then show ?case using Cons.IH [OF s1(2)] complete_request_mem [OF assms(1) s1(1)] by simp
qed simp

lemma capture_call_transparent:
  assumes quiet: "quiet_files M" and c: "capture_call M c s = Inr (ret, s')"
  shows "ret = fst (PMPI M c (world s)) \<and> mem (world s') = mem (snd (PMPI M c (world s)))"
proof (cases c)
  case (Waitall n requests statuses)
  then show ?thesis using c
    by (auto simp: MPI_Waitall_def pmpi_def Let_def split: prod.splits if_splits
        dest!: for_each_complete_mem [OF quiet])
next
  case (Irecv b n d source tag comm request)
  then obtain s1 where "world s1 = world s" "pmpi M c s1 = (ret, s')"
    using c by (auto simp: MPI_Irecv_def dest: add_request_world split: if_splits)
  then show ?thesis by (auto simp: pmpi_def split: prod.splits)
qed (use c in \<open>auto simp: MPI_Init_def MPI_Finalize_def MPI_Recv_def MPI_Wait_def MPI_Bcast_def MPI_Alltoall_def
    MPI_Alltoallv_def MPI_Allreduce_def MPI_Reduce_def pmpi_def Let_def split: prod.splits if_splits
    dest!: init_MPIre_mem write_in_file_mem [OF quiet] complete_request_mem [OF quiet]\<close>)

end
