(* ===== verification/Completion.thy ===== *)
theory Completion
  imports Calls
begin

text \<open>
  What the two libraries do with a list of buffers: the capture writes them to the next files of
  the log (\<open>took\<close>), the replay fills them from there (\<open>gave\<close>); and the loops that complete the
  pending receives of several requests.
\<close>

section \<open>Loops\<close>

lemma for_each_skip: "(\<And>i. i \<in> set is \<Longrightarrow> f i s = Inr s) \<Longrightarrow> for_each is f s = Inr s"
  by (induction "is") auto

lemma for_each_cong:
  "(\<And>i s. i \<in> set is \<Longrightarrow> f i s = g i s) \<Longrightarrow> for_each is f s = for_each is g s"
proof (induction "is" arbitrary: s)
  case (Cons i "is")
  then have "for_each is f = for_each is g" by (intro ext) simp
  then show ?case using Cons.prems by simp
qed simp

lemma for_each_map: "for_each (map g is) f s = for_each is (\<lambda>i. f (g i)) s"
proof (induction "is" arbitrary: s)
  case (Cons i "is")
  then have "for_each (map g is) f = for_each is (\<lambda>i. f (g i))" by (intro ext)
  then show ?case by simp
qed simp

lemma for_each_on_mem: "for_each is (\<lambda>i s. Inr (on_mem (f i) s)) s = Inr (on_mem (fold f is) s)"
  by (induction "is" arbitrary: s) (simp_all add: on_mem_def)

text \<open>A loop that reads its bound again in every round, as long as no round changes it.\<close>

lemma count_up_steps:
  assumes "\<And>j. i \<le> j \<Longrightarrow> j \<le> n \<Longrightarrow> \<exists>sj. for_each [i..<j] f s = Inr sj \<and> bound sj = int n" "i \<le> n" "n < 2 ^ 31"
  shows "count_up bound f i s = for_each [i..<n] f s"
  using assms(1,2)
proof (induction "n - i" arbitrary: i s)
  case 0
  then have "bound s = int i" "n = i" using 0(2) [of i] by auto
  then show ?case by (subst count_up.simps) simp
next
  case (Suc x)
  have up: "[i..<j] = i # [Suc i..<j]" if "Suc i \<le> j" for j using that by (simp add: upt_conv_Cons)
  have "bound s = int n" using Suc.prems(1) [of i] Suc.prems(2) by simp
  moreover obtain s1 where s1: "f i s = Inr s1"
    using Suc.prems(1) [of "Suc i"] Suc.hyps(2) by fastforce
  moreover have "count_up bound f (Suc i) s1 = for_each [Suc i..<n] f s1"
  proof (rule Suc.hyps(1))
    fix j
    assume "Suc i \<le> j" "j \<le> n"
    then show "\<exists>sj. for_each [Suc i..<j] f s1 = Inr sj \<and> bound sj = int n"
      using Suc.prems(1) [of j] s1 by (simp add: up)
  qed (use Suc.hyps(2) in auto)
  moreover have "i < n" using Suc.hyps(2) by simp
  ultimately show ?case
    using assms(3) by (subst count_up.simps) (simp add: up)
qed

lemma get_int_is_int: "is_int (get_int M p s)"
  by (simp add: get_int_def load_int_is_int)

lemma is_int_nat: "is_int n \<Longrightarrow> nat n < 2 ^ 31"
  by (auto simp: is_int_def nat_less_iff)

lemma get_int_cong: "(\<And>a. a \<in> int_cells p \<Longrightarrow> mem (world s') a = mem (world s) a) \<Longrightarrow> get_int M p s' = get_int M p s"
  unfolding get_int_def by (rule load_int_cong)

lemma sum_ints_cong:
  assumes "big_endian M' = big_endian M"
    "\<And>i a. i < nat n \<Longrightarrow> a \<in> int_cells (element 4 p i) \<Longrightarrow> mem (world s') a = mem (world s) a"
  shows "sum_ints M' p n s' = sum_ints M p n s"
  unfolding sum_ints_def get_int_def assms(1)
  using assms(2) by (intro for_each_cong arg_cong [of _ _ c_int] arg_cong2 [of _ _ _ _ plus] refl load_int_cong) auto

lemma on_mem_simps [simp]:
  "world (on_mem f s) = (world s)\<lparr>mem := f (mem (world s))\<rparr>" "heap (on_mem f s) = heap s"
  "requestHtab (on_mem f s) = requestHtab s" "MPIre_rank (on_mem f s) = MPIre_rank s"
  by (simp_all add: on_mem_def)

lemma on_mem_capture [simp]:
  "cpt_write (on_mem f s) = cpt_write s" "MPIre_output_path (on_mem f s) = MPIre_output_path s"
  by (simp_all add: on_mem_def)

lemma on_mem_replay [simp]:
  "cpt_read (on_mem f s) = cpt_read s" "MPIre_input_path (on_mem f s) = MPIre_input_path s"
  "MPIre_size (on_mem f s) = MPIre_size s"
  by (simp_all add: on_mem_def)

lemma pending_on_mem [simp]: "pending hb be (on_mem f s) m = pending hb be s m"
  by (rule pending_cong) simp_all

lemma pending_world [simp]: "pending hb be (s\<lparr>world := w\<rparr>) m = pending hb be s m"
  by (rule pending_cong) simp_all

section \<open>Buffers\<close>

text \<open>A buffer is an address, a number of elements and a datatype.\<close>

type_synonym data = "ptr \<times> int \<times> u64"

definition data_of :: "request_t \<Rightarrow> data" where
  "data_of r = (r_buffer r, r_bufsize r, r_datatype r)"

definition data_cells :: "'w mpi \<Rightarrow> data \<Rightarrow> ptr list" where
  "data_cells M x = (case x of (b, n, d) \<Rightarrow> cells M d n b)"

definition received_cells :: "'w mpi \<Rightarrow> data list \<Rightarrow> ptr set" where
  "received_cells M L = (\<Union>x \<in> set L. set (data_cells M x))"

definition cells_of :: "'w mpi \<Rightarrow> request_t \<Rightarrow> ptr set" where
  "cells_of M r = set (data_cells M (data_of r))"

definition buffers :: "'w mpi \<Rightarrow> (ptr \<rightharpoonup> request_t) \<Rightarrow> ptr set" where
  "buffers M m = (\<Union>r \<in> ran m. cells_of M r)"

lemma received_cells_simps [simp]:
  "received_cells M [] = {}" "received_cells M ((b, n, d) # L) = set (cells M d n b) \<union> received_cells M L"
  "received_cells M (L @ L') = received_cells M L \<union> received_cells M L'"
  by (auto simp: received_cells_def data_cells_def)

lemma received_cells_of: "received_cells M (map data_of rs) = (\<Union>r \<in> set rs. cells_of M r)"
  by (simp add: received_cells_def cells_of_def)

text \<open>The files after the buffers with the contents \<open>bss\<close> were written, from number \<open>k\<close> on.\<close>

fun log_all :: "string \<Rightarrow> int \<Rightarrow> u8 list list \<Rightarrow> (path \<Rightarrow> u8 list option) \<Rightarrow> path \<Rightarrow> u8 list option" where
  "log_all d k [] fs = fs"
| "log_all d k (bs # bss) fs = log_all d (k + 1) bss (logged (log_path d k) bs fs)"

definition contents :: "'w mpi \<Rightarrow> memory \<Rightarrow> data list \<Rightarrow> u8 list list" where
  "contents M mm L = map (\<lambda>x. map mm (data_cells M x)) L"

lemma contents_simps [simp]:
  "contents M mm [] = []" "contents M mm (x # L) = map mm (data_cells M x) # contents M mm L"
  "contents M mm (L @ L') = contents M mm L @ contents M mm L'" "length (contents M mm L) = length L"
  by (simp_all add: contents_def)

lemma contents_cong: "(\<And>a. a \<in> received_cells M L \<Longrightarrow> mm a = mm' a) \<Longrightarrow> contents M mm L = contents M mm' L"
  by (auto simp: contents_def received_cells_def)

lemma log_all_append: "log_all d k (xs @ ys) fs = log_all d (k + int (length xs)) ys (log_all d k xs fs)"
  by (induction xs arbitrary: k fs) (simp_all add: ac_simps)

lemma log_all_other: "(\<And>i. i < length bss \<Longrightarrow> p \<noteq> log_path d (k + int i)) \<Longrightarrow> log_all d k bss fs p = fs p"
proof (induction bss arbitrary: k fs)
  case (Cons bs bss)
  have "p \<noteq> log_path d (k + 1 + int i)" if "i < length bss" for i
    using Cons.prems [of "Suc i"] that by (simp add: ac_simps)
  moreover have "p \<noteq> log_path d k" using Cons.prems [of 0] by simp
  ultimately show ?case using Cons.IH [of "k + 1"] by (simp add: logged_def)
qed simp

lemma log_all_at:
  "i < length bss \<Longrightarrow> \<exists>old. log_all d k bss fs (log_path d (k + int i)) = Some (overwrite (bss ! i) old)"
proof (induction bss arbitrary: k fs i)
  case (Cons bs bss)
  show ?case
  proof (cases i)
    case 0
    have "log_all d (k + 1) bss fs' (log_path d k) = fs' (log_path d k)" for fs'
      by (rule log_all_other) simp
    then show ?thesis using 0 by (auto simp: logged_def)
  next
    case (Suc j)
    then show ?thesis using Cons.IH [of j "k + 1"] Cons.prems by (simp add: ac_simps)
  qed
qed simp

section \<open>The capture takes\<close>

definition logging :: "'w mpi \<Rightarrow> ('w, 'a) capture_scheme \<Rightarrow> bool" where
  "logging M s \<longleftrightarrow> rank_of M (COMM_WORLD M) s = MPIre_rank s \<and> dump_on s \<and>
     log_dir (world s) (MPIre_output_path s) \<and> is_int (cpt_write s) \<and> 0 \<le> cpt_write s"

text \<open>The effect of logging the buffers \<open>L\<close>, from the state \<open>s\<close>.\<close>

definition took :: "'w ghost \<Rightarrow> 'w mpi \<Rightarrow> data list \<Rightarrow> ('w, 'a) capture_scheme \<Rightarrow> ('w, 'a) capture_scheme \<Rightarrow> bool" where
  "took G M L s s' \<longleftrightarrow> mem (world s') = mem (world s) \<and> dirs (world s') = dirs (world s) \<and>
     denied (world s') = denied (world s) \<and> env (world s') = env (world s) \<and>
     same_comm G M (lib (world s)) (lib (world s')) \<and>
     MPIre_output_path s' = MPIre_output_path s \<and> MPIre_rank s' = MPIre_rank s \<and>
     cpt_write s' = cpt_write s + int (length L) \<and>
     files (world s') = log_all (MPIre_output_path s) (cpt_write s) (contents M (mem (world s)) L) (files (world s))"

lemma took_none: "took G M [] s s"
  by (simp add: took_def)

lemma took_append: "took G M L s s1 \<Longrightarrow> took G M L' s1 s' \<Longrightarrow> took G M (L @ L') s s'"
  using same_comm_trans [of G M "lib (world s)" "lib (world s1)" "lib (world s')"] by (simp add: took_def log_all_append)

lemma took_table: "took G M L s s' \<Longrightarrow> took G M L s (s'\<lparr>requestHtab := t\<rparr>)"
  by (simp add: took_def)

lemma logging_took:
  assumes "logging M s" "took G M L s s'" "is_int (cpt_write s + int (length L))"
  shows "logging M s'"
  using assms by (simp add: logging_def took_def dump_on_def log_dir_def is_dir_def rank_of_def same_comm_def)

lemma write_took:
  assumes "file_laws G M" "logging M s" "is_int (cpt_write s + 1)" "0 \<le> n"
  shows "\<exists>s'. write_in_file M b n d s = Inr s' \<and> took G M [(b, n, d)] s s' \<and>
    heap s' = heap s \<and> requestHtab s' = requestHtab s"
  using write_in_file_ok [OF assms(1) _ _ assms(3) _ assms(4), of b d] assms(2)
  by (auto simp: logging_def took_def data_cells_def)

text \<open>The pending receives a wait for the requests \<open>ks\<close> completes, in this order.\<close>

fun completed :: "(ptr \<rightharpoonup> request_t) \<Rightarrow> ptr list \<Rightarrow> request_t list" where
  "completed m [] = []"
| "completed m (k # ks) = (case m k of None \<Rightarrow> [] | Some r \<Rightarrow> [r]) @ completed (m(k := None)) ks"

lemma completed_ran: "r \<in> set (completed m ks) \<Longrightarrow> r \<in> ran m"
proof (induction ks arbitrary: m)
  case (Cons k ks)
  have "ran (m(k := None)) \<subseteq> ran m" by (auto simp: ran_def split: if_splits)
  moreover have "r \<in> ran (m(k := None))" if "r \<in> set (completed (m(k := None)) ks)" using that by (rule Cons.IH)
  ultimately show ?case using Cons.prems by (auto split: option.splits intro: ranI simp del: fun_upd_apply)
qed simp

lemma completed_skip: "m k = None \<Longrightarrow> completed m (k # ks) = completed m ks"
  by (simp add: fun_upd_idem)

lemma completed_dom: "k \<in> set ks \<Longrightarrow> m k = Some r \<Longrightarrow> r \<in> set (completed m ks)"
proof (induction ks arbitrary: m)
  case (Cons k' ks)
  show ?case
  proof (cases "k' = k")
    case False
    then have "k \<in> set ks" "(m(k' := None)) k = Some r" using Cons.prems by simp_all
    then have "r \<in> set (completed (m(k' := None)) ks)" by (rule Cons.IH)
    then show ?thesis by simp
  qed (use Cons.prems in simp)
qed simp

lemma restrict_rest: "(m(k := None)) |` (- set ks) = m |` (- set (k # ks))"
  by (auto simp: restrict_map_def fun_eq_iff)

lemma completed_append: "completed m (xs @ ys) = completed m xs @ completed (m |` (- set xs)) ys"
proof (induction xs arbitrary: m)
  case (Cons k xs)
  show ?case unfolding append_Cons completed.simps Cons.IH restrict_rest by simp
qed (simp add: restrict_map_def)

lemma capture_completes:
  assumes laws: "file_laws G M" and log: "logging M s" and pend: "pending hb (big_endian M) s m"
    and n: "\<And>r. r \<in> set (completed m ks) \<Longrightarrow> 0 \<le> r_bufsize r" and k: "is_int (cpt_write s + int (length (completed m ks)))"
  shows "\<exists>s'. for_each ks (\<lambda>k. complete_request M (write_in_file M) k k) s = Inr s' \<and>
    took G M (map data_of (completed m ks)) s s' \<and> pending hb (big_endian M) s' (m |` (- set ks)) \<and> heap s' = heap s"
  using log pend n k
proof (induction ks arbitrary: s m)
  case Nil
  then show ?case by (auto simp: took_none)
next
  case (Cons key ks)
  define m' where "m' = m(key := None)"
  have rest: "m' |` (- set ks) = m |` (- set (key # ks))" unfolding m'_def by (rule restrict_rest)
  show ?case
  proof (cases "m key")
    case None
    then have m: "m' = m" by (simp add: m'_def fun_upd_idem)
    have "complete_request M (write_in_file M) key key s = Inr s"
      using capture.complete_unknown [where al = M and M = M, OF Cons.prems(2) None] by blast
    then show ?thesis
      using Cons.IH [OF Cons.prems(1,2)] Cons.prems(3,4) completed_skip [of m key ks] None rest
      unfolding m by (simp del: completed.simps)
  next
    case (Some r)
    let ?rs = "completed m' ks"
    have rs: "completed m (key # ks) = r # ?rs" using Some by (simp add: m'_def)
    have b: "0 \<le> r_bufsize r" and ran: "\<And>x. x \<in> set ?rs \<Longrightarrow> 0 \<le> r_bufsize x"
      using Cons.prems(3) unfolding rs by simp_all
    have k1: "is_int (cpt_write s + 1)"
      using Cons.prems(1,4) unfolding rs by (simp add: is_int_def logging_def)
    obtain s1 where s1: "write_in_file M (r_buffer r) (r_bufsize r) (r_datatype r) s = Inr s1"
      "took G M [data_of r] s s1" "heap s1 = heap s"
      using write_took [OF laws Cons.prems(1) k1 b] unfolding data_of_def by blast
    obtain t where t: "complete_request M (write_in_file M) key key s = Inr (s1\<lparr>requestHtab := t\<rparr>)"
      "pending hb (big_endian M) (s1\<lparr>requestHtab := t\<rparr>) m'"
      using capture.complete_known [where al = M and M = M, OF Cons.prems(2) Some s1(1)] unfolding m'_def by blast
    let ?s2 = "s1\<lparr>requestHtab := t\<rparr>"
    have took2: "took G M [data_of r] s ?s2" using s1(2) by (rule took_table)
    have log2: "logging M ?s2" using logging_took [OF Cons.prems(1) took2] k1 by simp
    have "is_int (cpt_write ?s2 + int (length ?rs))"
      using Cons.prems(4) took2 unfolding rs by (simp add: ac_simps took_def)
    from Cons.IH [OF log2 t(2) ran this] obtain s' where s':
      "for_each ks (\<lambda>k. complete_request M (write_in_file M) k k) ?s2 = Inr s'" "took G M (map data_of ?rs) ?s2 s'"
      "pending hb (big_endian M) s' (m |` (- set (key # ks)))" "heap s' = heap s"
      unfolding rest using s1(3) by auto
    have "took G M (map data_of (r # ?rs)) s s'" using took_append [OF took2 s'(2)] by simp
    then show ?thesis using t(1) s' unfolding rs by simp
  qed
qed

section \<open>The replay gives\<close>

text \<open>The log holds the buffers \<open>L\<close> with the contents they have in the memory \<open>mm\<close>.\<close>

definition available :: "'w mpi \<Rightarrow> memory \<Rightarrow> data list \<Rightarrow> ('v, 'b) replay_scheme \<Rightarrow> bool" where
  "available M mm L r \<longleftrightarrow> (\<forall>i < length L. \<exists>old.
     files (world r) (log_path (MPIre_input_path r) (cpt_read r + int i)) = Some (overwrite (contents M mm L ! i) old))"

definition gave :: "'w mpi \<Rightarrow> memory \<Rightarrow> data list \<Rightarrow> ('v, 'b) replay_scheme \<Rightarrow> ('v, 'b) replay_scheme \<Rightarrow> bool" where
  "gave M mm L r r' \<longleftrightarrow> files (world r') = files (world r) \<and>
     MPIre_input_path r' = MPIre_input_path r \<and> MPIre_rank r' = MPIre_rank r \<and> MPIre_size r' = MPIre_size r \<and>
     cpt_read r' = cpt_read r + int (length L) \<and>
     (\<forall>a. mem (world r') a = (if a \<in> received_cells M L then mm a else mem (world r) a))"

lemma gave_none: "gave M mm [] r r"
  by (simp add: gave_def)

lemma gave_append: "gave M mm L r r1 \<Longrightarrow> gave M mm L' r1 r' \<Longrightarrow> gave M mm (L @ L') r r'"
  by (auto simp: gave_def)

lemma gave_table: "gave M mm L r r' \<Longrightarrow> gave M mm L r (r'\<lparr>requestHtab := t\<rparr>)"
  by (simp add: gave_def)

lemma available_Cons:
  assumes "available M mm (x # L) r" "gave M mm [x] r r1"
  shows "available M mm L r1"
  unfolding available_def
proof (intro allI impI)
  fix i
  assume "i < length L"
  then show "\<exists>old. files (world r1) (log_path (MPIre_input_path r1) (cpt_read r1 + int i)) = Some (overwrite (contents M mm L ! i) old)"
    using assms(1) [unfolded available_def, rule_format, of "Suc i"] assms(2) by (simp add: gave_def ac_simps)
qed

lemma available_append:
  assumes "available M mm (L @ L') r"
  shows "available M mm L r"
  unfolding available_def
proof (intro allI impI)
  fix i
  assume "i < length L"
  then show "\<exists>old. files (world r) (log_path (MPIre_input_path r) (cpt_read r + int i)) = Some (overwrite (contents M mm L ! i) old)"
    using assms [unfolded available_def, rule_format, of i] by (simp add: nth_append)
qed

lemma available_cong:
  "files (world r') = files (world r) \<Longrightarrow> MPIre_input_path r' = MPIre_input_path r \<Longrightarrow> cpt_read r' = cpt_read r \<Longrightarrow>
    available M mm L r' = available M mm L r"
  by (simp add: available_def)

text \<open>A replay that can go on reading up to \<open>n\<close> more files.\<close>

definition reading :: "nat \<Rightarrow> ('v, 'b) replay_scheme \<Rightarrow> bool" where
  "reading n r \<longleftrightarrow> MPIre_input_path r \<noteq> [] \<and> length (MPIre_input_path r) \<le> 1000 \<and>
     is_int (cpt_read r) \<and> is_int (cpt_read r + int n)"

lemma reading_gave: "reading (length L + n) r \<Longrightarrow> gave M mm L r r' \<Longrightarrow> reading n r'"
  by (auto simp: reading_def gave_def is_int_def)

lemma reading_less: "reading n r \<Longrightarrow> i \<le> n \<Longrightarrow> reading i r"
  by (auto simp: reading_def is_int_def)

lemma read_gave:
  assumes "file_laws G M" "reading 1 r" "available M mm [(b, n, d)] r" "0 \<le> n"
  shows "\<exists>r'. read_in_file M b n d r = Inr r' \<and> gave M mm [(b, n, d)] r r' \<and>
    heap r' = heap r \<and> requestHtab r' = requestHtab r"
proof -
  obtain old where "files (world r) (log_path (MPIre_input_path r) (cpt_read r)) = Some (overwrite (map mm (cells M d n b)) old)"
    using assms(3) by (auto simp: available_def data_cells_def)
  from read_in_file_ok [OF assms(1) _ _ _ _ assms(4) this, of b d] assms(2)
  show ?thesis by (auto simp: reading_def gave_def fill_overwrite)
qed

lemma replay_completes:
  assumes laws: "file_laws G M" and rd: "reading (length (completed m ks)) r" and pend: "pending hb (big_endian M) r m"
    and n: "\<And>x. x \<in> set (completed m ks) \<Longrightarrow> 0 \<le> r_bufsize x" and log: "available M mm (map data_of (completed m ks)) r"
  shows "\<exists>r'. for_each ks (\<lambda>k. complete_request M (read_in_file M) k k) r = Inr r' \<and>
    gave M mm (map data_of (completed m ks)) r r' \<and> pending hb (big_endian M) r' (m |` (- set ks)) \<and> heap r' = heap r"
  using rd pend n log
proof (induction ks arbitrary: r m)
  case Nil
  then show ?case by (auto simp: gave_none)
next
  case (Cons key ks)
  define m' where "m' = m(key := None)"
  have rest: "m' |` (- set ks) = m |` (- set (key # ks))" unfolding m'_def by (rule restrict_rest)
  show ?case
  proof (cases "m key")
    case None
    then have m: "m' = m" by (simp add: m'_def fun_upd_idem)
    have "complete_request M (read_in_file M) key key r = Inr r"
      using replay.complete_unknown [where al = M and M = M, OF Cons.prems(2) None] by blast
    then show ?thesis
      using Cons.IH [of m r] Cons.prems completed_skip [of m key ks] None rest
      unfolding m by (simp del: completed.simps)
  next
    case (Some x)
    let ?rs = "completed m' ks"
    have rs: "completed m (key # ks) = x # ?rs" using Some by (simp add: m'_def)
    have b: "0 \<le> r_bufsize x" and ran: "\<And>y. y \<in> set ?rs \<Longrightarrow> 0 \<le> r_bufsize y"
      using Cons.prems(3) unfolding rs by simp_all
    have rd: "reading (1 + length ?rs) r" and av: "available M mm (data_of x # map data_of ?rs) r"
      using Cons.prems(1,4) unfolding rs by simp_all
    have "available M mm [data_of x] r" using available_append [of M mm "[data_of x]" "map data_of ?rs" r] av by simp
    from read_gave [OF laws reading_less [OF rd] this [unfolded data_of_def] b] obtain r1 where
      r1: "read_in_file M (r_buffer x) (r_bufsize x) (r_datatype x) r = Inr r1" "gave M mm [data_of x] r r1" "heap r1 = heap r"
      unfolding data_of_def by auto
    obtain t where t: "complete_request M (read_in_file M) key key r = Inr (r1\<lparr>requestHtab := t\<rparr>)"
      "pending hb (big_endian M) (r1\<lparr>requestHtab := t\<rparr>) m'"
      using replay.complete_known [where al = M and M = M, OF Cons.prems(2) Some r1(1)] unfolding m'_def by blast
    let ?r2 = "r1\<lparr>requestHtab := t\<rparr>"
    have gave2: "gave M mm [data_of x] r ?r2" using r1(2) by (rule gave_table)
    have "reading (length ?rs) ?r2" using reading_gave [of "[data_of x]" _ r, OF _ gave2] rd by simp
    from Cons.IH [OF this t(2) ran available_Cons [OF av gave2]] obtain r' where
      r': "for_each ks (\<lambda>k. complete_request M (read_in_file M) k k) ?r2 = Inr r'" "gave M mm (map data_of ?rs) ?r2 r'"
        "pending hb (big_endian M) r' (m |` (- set (key # ks)))" "heap r' = heap r"
      unfolding rest using r1(3) by auto
    have "gave M mm (map data_of (x # ?rs)) r r'" using gave_append [OF gave2 r'(2)] by simp
    then show ?thesis using t(1) r' unfolding rs by simp
  qed
qed

end
