(* ===== verification/Promises.thy ===== *)
theory Promises
  imports Completion
begin

text \<open>
  What a call of the program promises, in both libraries: which buffers it receives, which receives
  are pending afterwards, what else it does to memory; and the states between calls.
\<close>

section \<open>What one call promises\<close>

text \<open>
  The specification both libraries implement. \<open>received\<close> are the buffers a call of the process \<open>rank\<close>
  receives into, given the number of processes, the memory the counts of MPI_Alltoallv are in,
  and the pending receives; \<open>pending_after\<close> are the pending receives after the call.
\<close>

definition counts_sum :: "bool \<Rightarrow> memory \<Rightarrow> ptr \<Rightarrow> int \<Rightarrow> int" where
  "counts_sum be mm p n = (\<Sum>i<nat n. load_int be mm (element 4 p i))"

fun received :: "bool \<Rightarrow> int \<Rightarrow> int \<Rightarrow> memory \<Rightarrow> (ptr \<rightharpoonup> request_t) \<Rightarrow> mpi_call \<Rightarrow> data list" where
  "received be sz rank mm m (Recv b n d source tag comm status) = [(b, n, d)]"
| "received be sz rank mm m (Wait request status) = map data_of (completed m [request])"
| "received be sz rank mm m (Bcast b n d root comm) = (if rank = root then [] else [(b, n, d)])"
| "received be sz rank mm m (Alltoall sb sn sd rb rn rd comm) = [(rb, rn * sz, rd)]"
| "received be sz rank mm m (Alltoallv sb sn sv sd rb rn rv rd comm) = [(rb, counts_sum be mm rn sz, rd)]"
| "received be sz rank mm m (Allreduce sb rb n d op comm) = [(rb, n, d)]"
| "received be sz rank mm m (Reduce sb rb n d op root comm) = (if rank = root then [(rb, n, d)] else [])"
| "received be sz rank mm m c = []"

fun pending_after :: "mpi_call \<Rightarrow> (ptr \<rightharpoonup> request_t) \<Rightarrow> ptr \<rightharpoonup> request_t" where
  "pending_after (Irecv b n d source tag comm request) m =
     m(request \<mapsto> \<lparr>r_request = request, r_datatype = d, r_buffer = b, r_bufsize = n\<rparr>)"
| "pending_after (Wait request status) m = m |` (- {request})"
| "pending_after c m = m"

text \<open>How many receives a call starts, and what it does to memory apart from what it receives.\<close>

fun starts :: "mpi_call \<Rightarrow> nat" where
  "starts (Irecv b n d source tag comm request) = 1"
| "starts c = 0"

fun answers :: "bool \<Rightarrow> int \<Rightarrow> int \<Rightarrow> mpi_call \<Rightarrow> memory \<Rightarrow> memory" where
  "answers be sz rank (Get_rank comm p) mm = store_int be p rank mm"
| "answers be sz rank (Get_size comm p) mm = store_int be p sz mm"
| "answers be sz rank c mm = mm"

fun answer_cells :: "mpi_call \<Rightarrow> ptr set" where
  "answer_cells (Get_rank comm p) = int_cells p"
| "answer_cells (Get_size comm p) = int_cells p"
| "answer_cells c = {}"

text \<open>A function of the memory that computes each byte from the byte of the same address.\<close>

definition pointwise :: "(memory \<Rightarrow> memory) \<Rightarrow> bool" where
  "pointwise g \<longleftrightarrow> (\<forall>mm mm' a. mm a = mm' a \<longrightarrow> g mm a = g mm' a)"

lemma pointwiseD: "pointwise g \<Longrightarrow> mm a = mm' a \<Longrightarrow> g mm a = g mm' a"
  unfolding pointwise_def by blast

lemma pointwise_store_int: "pointwise (store_int be p i)"
  unfolding pointwise_def using store_int_agree by blast

lemma pointwise_comp: "pointwise f \<Longrightarrow> pointwise g \<Longrightarrow> pointwise (\<lambda>mm. f (g mm))"
  unfolding pointwise_def by blast

lemma pointwise_answers: "pointwise (answers be sz rank c)"
proof (cases c)
  case (Get_rank comm p)
  then have "answers be sz rank c = store_int be p rank" by (simp add: fun_eq_iff)
  then show ?thesis by (simp add: pointwise_store_int)
next
  case (Get_size comm p)
  then have "answers be sz rank c = store_int be p sz" by (simp add: fun_eq_iff)
  then show ?thesis by (simp add: pointwise_store_int)
qed (simp_all add: pointwise_def)

section \<open>The memory of the program\<close>

text \<open>
  What the program cannot rely on: the buffers of pending receives, and the variables of requests
  and statuses, given as the set \<open>Q\<close>.
\<close>

definition hidden :: "'w mpi \<Rightarrow> ptr set \<Rightarrow> (ptr \<rightharpoonup> request_t) \<Rightarrow> ptr set" where
  "hidden M Q m = Q \<union> buffers M m"

definition agree :: "ptr set \<Rightarrow> memory \<Rightarrow> memory \<Rightarrow> bool" where
  "agree H m m' \<longleftrightarrow> (\<forall>a. a \<notin> H \<longrightarrow> m a = m' a)"

text \<open>
  The pending receives belong to variables of the program, of type MPI_Request or, for the
  addresses \<open>F\<close>, integers of Fortran: \<open>handle_of\<close> is the handle in such a variable. A receive
  that MPI is still filling (\<open>posted\<close>) is pending under a variable with its handle.
\<close>

definition request_var :: "'w mpi \<Rightarrow> ptr set \<Rightarrow> ptr \<Rightarrow> ptr set" where
  "request_var M F k = (if k \<in> F then int_cells k else request_cells M k)"

definition handle_of :: "'w mpi \<Rightarrow> ptr set \<Rightarrow> memory \<Rightarrow> ptr \<Rightarrow> u64" where
  "handle_of M F mm k = (if k \<in> F then Request_f2c M (load_int (big_endian M) mm k) else load_request M mm k)"

definition vars :: "'w mpi \<Rightarrow> ptr set \<Rightarrow> ptr set \<Rightarrow> ptr set" where
  "vars M F K = (\<Union>k \<in> K. request_var M F k)"

definition separate :: "'w mpi \<Rightarrow> ptr set \<Rightarrow> (ptr \<rightharpoonup> request_t) \<Rightarrow> bool" where
  "separate M F m \<longleftrightarrow> buffers M m \<inter> vars M F (dom m) = {}"

definition posted_ok :: "'w ghost \<Rightarrow> 'w mpi \<Rightarrow> ptr set \<Rightarrow> 'w world \<Rightarrow> (ptr \<rightharpoonup> request_t) \<Rightarrow> bool" where
  "posted_ok G M F w m \<longleftrightarrow> (\<forall>h C. posted G (lib w) h = Some C \<longrightarrow>
     (\<exists>k r. m k = Some r \<and> handle_of M F (mem w) k = h \<and> C = cells_of M r))"

lemma posted_okD:
  "posted_ok G M F w m \<Longrightarrow> posted G (lib w) h = Some C \<Longrightarrow>
    \<exists>k r. m k = Some r \<and> handle_of M F (mem w) k = h \<and> C = cells_of M r"
  unfolding posted_ok_def by blast

lemma handle_of_cong:
  "mpi_laws G M \<Longrightarrow> (\<And>a. a \<in> request_var M F k \<Longrightarrow> mm a = mm' a) \<Longrightarrow> handle_of M F mm k = handle_of M F mm' k"
  using load_int_cong [of k mm mm'] load_request_cong [of G M k mm mm'] by (simp add: handle_of_def request_var_def)

lemma buffers_restrict: "buffers M (m |` A) \<subseteq> buffers M m"
  by (auto simp: buffers_def ran_def restrict_map_def split: if_splits)

lemma cells_of_buffers: "m k = Some r \<Longrightarrow> cells_of M r \<subseteq> buffers M m"
  by (auto simp: buffers_def intro: ranI)

lemma separate_restrict: "separate M F m \<Longrightarrow> separate M F (m |` A)"
  using buffers_restrict [of M m A] unfolding separate_def vars_def by auto

lemma posted_buffers:
  assumes "posted_ok G M F w m"
  shows "\<Union> (ran (posted G (lib w))) \<subseteq> buffers M m"
proof
  fix a
  assume "a \<in> \<Union> (ran (posted G (lib w)))"
  then obtain h C where "posted G (lib w) h = Some C" "a \<in> C" by (auto simp: ran_def)
  then obtain k r where "m k = Some r" "a \<in> cells_of M r" using posted_okD [OF assms] by blast
  then show "a \<in> buffers M m" by (auto simp: buffers_def ran_def)
qed

text \<open>The receives with the variables \<open>K\<close> are completed: their handles are posted no more.\<close>

lemma posted_ok_done:
  assumes laws: "mpi_laws G M" and w: "posted_ok G M F w m" and P: "posted G l = posted G (lib w) |` (- H)"
    and H: "\<And>k. k \<in> K \<Longrightarrow> k \<in> dom m \<Longrightarrow> handle_of M F (mem w) k \<in> H"
    and kept: "\<And>a. a \<in> vars M F (dom m - K) \<Longrightarrow> mm a = mem w a"
  shows "posted_ok G M F (w\<lparr>mem := mm, lib := l\<rparr>) (m |` (- K))"
  unfolding posted_ok_def
proof (intro allI impI)
  fix h C
  assume "posted G (lib (w\<lparr>mem := mm, lib := l\<rparr>)) h = Some C"
  then have h: "posted G (lib w) h = Some C" "h \<notin> H" by (auto simp: P restrict_map_def split: if_splits)
  then obtain k r where k: "m k = Some r" "handle_of M F (mem w) k = h" "C = cells_of M r"
    using posted_okD [OF w] by blast
  have "k \<notin> K" using H [of k] h(2) k by auto
  then have "handle_of M F mm k = h"
    using k kept handle_of_cong [OF laws, of F k mm "mem w"] by (auto simp: vars_def)
  then show "\<exists>k r. (m |` (- K)) k = Some r \<and> handle_of M F (mem (w\<lparr>mem := mm, lib := l\<rparr>)) k = h \<and> C = cells_of M r"
    using k \<open>k \<notin> K\<close> by (intro exI [of _ k] exI [of _ r]) simp
qed

lemma restrict_UNIV [simp]: "m |` UNIV = m"
  by (simp add: restrict_map_def)

lemma posted_ok_kept:
  assumes laws: "mpi_laws G M" and w: "posted_ok G M F w m" and P: "posted G l = posted G (lib w)"
    and kept: "\<And>a. a \<in> vars M F (dom m) \<Longrightarrow> mm a = mem w a"
  shows "posted_ok G M F (w\<lparr>mem := mm, lib := l\<rparr>) m"
  using posted_ok_done [OF laws w, of l "{}" "{}" mm] P kept by simp

text \<open>A new receive is posted.\<close>

lemma posted_ok_new:
  assumes laws: "mpi_laws G M" and w: "posted_ok G M F w m" and P: "posted G l = (posted G (lib w))(h \<mapsto> cells_of M r)"
    and k: "m k = None" "handle_of M F mm k = h" and kept: "\<And>a. a \<in> vars M F (dom m) \<Longrightarrow> mm a = mem w a"
  shows "posted_ok G M F (w\<lparr>mem := mm, lib := l\<rparr>) (m(k \<mapsto> r))"
  unfolding posted_ok_def
proof (intro allI impI)
  fix h' C
  assume h': "posted G (lib (w\<lparr>mem := mm, lib := l\<rparr>)) h' = Some C"
  show "\<exists>k' r'. (m(k \<mapsto> r)) k' = Some r' \<and> handle_of M F (mem (w\<lparr>mem := mm, lib := l\<rparr>)) k' = h' \<and> C = cells_of M r'"
  proof (cases "h' = h")
    case True
    then show ?thesis using h' k P by (intro exI [of _ k] exI [of _ r]) simp
  next
    case False
    then have "posted G (lib w) h' = Some C" using h' P by simp
    then obtain k' r' where k': "m k' = Some r'" "handle_of M F (mem w) k' = h'" "C = cells_of M r'"
      using posted_okD [OF w] by blast
    then have "handle_of M F mm k' = h'"
      using kept handle_of_cong [OF laws, of F k' mm "mem w"] by (auto simp: vars_def)
    then show ?thesis using k k' by (intro exI [of _ k'] exI [of _ r']) auto
  qed
qed

section \<open>Calls a log can stand for\<close>

text \<open>
  The arguments: communicators with the ranks and the size of MPI_COMM_WORLD, requests that are
  not pending yet, buffers of a length, and no MPI_Waitall and no MPI_Finalize while a receive is
  pending. The blocks MPI_Alltoallv receives lie in the sum of their lengths.
\<close>

definition world_comm :: "'w mpi \<Rightarrow> u64 \<Rightarrow> ('w, 'a) process_scheme \<Rightarrow> bool" where
  "world_comm M comm s \<longleftrightarrow> rank_of M comm s = MPIre_rank s \<and> size_of_comm M comm s = size_of_comm M (COMM_WORLD M) s"

fun args_ok :: "'w mpi \<Rightarrow> 'w ghost \<Rightarrow> ptr set \<Rightarrow> ptr set \<Rightarrow> (ptr \<rightharpoonup> request_t) \<Rightarrow> mpi_call \<Rightarrow> ('w, 'a) process_scheme \<Rightarrow> bool" where
  "args_ok M G Q F m (Irecv b n d source tag comm request) s \<longleftrightarrow> world_comm M comm s \<and> 0 \<le> n \<and> m request = None \<and>
     request \<notin> F \<and> request_cells M request \<subseteq> Q \<and> card (dom (heap s)) < max_elems"
| "args_ok M G Q F m (Recv b n d source tag comm status) s \<longleftrightarrow> world_comm M comm s \<and> 0 \<le> n \<and> status_cells M status \<subseteq> Q"
| "args_ok M G Q F m (Wait request status) s \<longleftrightarrow> request \<notin> F \<and>
     request_cells M request \<subseteq> Q \<and> status_cells M status \<subseteq> Q \<and> (\<forall>r. m request = Some r \<longrightarrow> 0 \<le> r_bufsize r)"
| "args_ok M G Q F m (Waitall n requests statuses) s \<longleftrightarrow>
     m = Map.empty \<and> 1 \<le> n \<and> controls M (Waitall n requests statuses) \<subseteq> Q"
| "args_ok M G Q F m (Bcast b n d root comm) s \<longleftrightarrow> world_comm M comm s \<and> 0 \<le> n"
| "args_ok M G Q F m (Alltoall sb sn sd rb rn rd comm) s \<longleftrightarrow>
     world_comm M comm s \<and> 0 \<le> rn * size_of_comm M comm s \<and> is_int (rn * size_of_comm M comm s)"
| "args_ok M G Q F m (Alltoallv sb sn sv sd rb rn rv rd comm) s \<longleftrightarrow> world_comm M comm s \<and>
     (let n = counts_sum (big_endian M) (mem (world s)) rn (size_of_comm M comm s);
          buffer = set (cells M rd n rb)
      in 0 \<le> n \<and> sum_ints M rn (size_of_comm M comm s) s = Inr n \<and>
         scattered G (Alltoallv sb sn sv sd rb rn rv rd comm) (world s) \<subseteq> buffer \<and>
         (\<forall>i<nat (size_of_comm M comm s). \<forall>a \<in> int_cells (element 4 rn i). a \<notin> hidden M Q m \<and> a \<notin> buffer))"
| "args_ok M G Q F m (Allreduce sb rb n d op comm) s \<longleftrightarrow> world_comm M comm s \<and> 0 \<le> n"
| "args_ok M G Q F m (Reduce sb rb n d op root comm) s \<longleftrightarrow> world_comm M comm s \<and> 0 \<le> n"
| "args_ok M G Q F m (Isend b n d dest tag comm request) s \<longleftrightarrow> request_cells M request \<subseteq> Q"
| "args_ok M G Q F m (Start request) s \<longleftrightarrow> request_cells M request \<subseteq> Q"
| "args_ok M G Q F m (Send b n d dest tag comm) s \<longleftrightarrow> True"
| "args_ok M G Q F m (Barrier comm) s \<longleftrightarrow> True"
| "args_ok M G Q F m (Get_rank comm p) s \<longleftrightarrow> world_comm M comm s"
| "args_ok M G Q F m (Get_size comm p) s \<longleftrightarrow> world_comm M comm s"
| "args_ok M G Q F m Finalize s \<longleftrightarrow> m = Map.empty"
| "args_ok M G Q F m (Init argc argv) s \<longleftrightarrow> False"

text \<open>
  The cells a call writes, apart from the buffers of receives that are pending already. It must not
  write the variables of receives that stay pending, and these must not lie in pending buffers.
\<close>

definition written :: "'w mpi \<Rightarrow> 'w ghost \<Rightarrow> mpi_call \<Rightarrow> 'w world \<Rightarrow> ptr set" where
  "written M G c w = receives M G c w \<union> controls M c \<union> answer_cells c"

definition call_ok :: "'w mpi \<Rightarrow> 'w ghost \<Rightarrow> ptr set \<Rightarrow> ptr set \<Rightarrow> (ptr \<rightharpoonup> request_t) \<Rightarrow> mpi_call \<Rightarrow>
    ('w, 'a) process_scheme \<Rightarrow> bool" where
  "call_ok M G Q F m c s \<longleftrightarrow> args_ok M G Q F m c s \<and> valid G c (world s) \<and>
     written M G c (world s) \<inter> vars M F (dom m \<inter> dom (pending_after c m)) = {} \<and> separate M F (pending_after c m)"

section \<open>States between calls\<close>

text \<open>The state of a capture: the log can be written and the table holds the pending receives \<open>m\<close>.\<close>

definition recording :: "nat \<Rightarrow> 'w ghost \<Rightarrow> 'w mpi \<Rightarrow> ptr set \<Rightarrow> ('w, 'a) capture_scheme \<Rightarrow> (ptr \<rightharpoonup> request_t) \<Rightarrow> bool" where
  "recording hb G M F s m \<longleftrightarrow> logging M s \<and> pending hb (big_endian M) s m \<and> posted_ok G M F (world s) m \<and> separate M F m"

lemma logging_on_mem: "logging M (on_mem f s) = logging M s"
  by (simp add: logging_def rank_of_def dump_on_def log_dir_def is_dir_def)

lemma recording_on_mem:
  assumes laws: "mpi_laws G M" and s: "recording hb G M F s m"
    and f: "\<And>a. a \<in> vars M F (dom m) \<Longrightarrow> f (mem (world s)) a = mem (world s) a"
  shows "recording hb G M F (on_mem f s) m"
proof -
  have "posted_ok G M F ((world s)\<lparr>mem := f (mem (world s)), lib := lib (world s)\<rparr>) m"
    using s f by (intro posted_ok_kept [OF laws]) (auto simp: recording_def)
  then show ?thesis using s by (simp add: recording_def logging_on_mem posted_ok_def)
qed

text \<open>
  A replay in step with a capture: it has the same pending receives, rank and number of processes,
  the counter points to the file the capture writes next, and the memory is the same where it
  is not hidden.
\<close>

definition in_step :: "nat \<Rightarrow> 'w mpi \<Rightarrow> ptr set \<Rightarrow> (ptr \<rightharpoonup> request_t) \<Rightarrow>
    ('w, 'a) capture_scheme \<Rightarrow> ('v, 'b) replay_scheme \<Rightarrow> bool" where
  "in_step hb M Q m s r \<longleftrightarrow> pending hb (big_endian M) r m \<and> card (dom (heap r)) = card (dom (heap s)) \<and>
     MPIre_rank r = MPIre_rank s \<and> MPIre_size r = size_of_comm M (COMM_WORLD M) s \<and>
     MPIre_input_path r = MPIre_output_path s \<and> cpt_read r = cpt_write s \<and>
     agree (hidden M Q m) (mem (world s)) (mem (world r))"

text \<open>
  What the replay needs of its MPI library: files, memory, the same data types, and MPI_Finalize;
  its own \<open>c_status\<close> is hidden, too.
\<close>

definition compatible :: "nat \<Rightarrow> ptr set \<Rightarrow> 'v ghost \<Rightarrow> 'v mpi \<Rightarrow> 'w mpi \<Rightarrow> bool" where
  "compatible hb Q G' M' M \<longleftrightarrow> file_laws G' M' \<and> good_allocator hb M' \<and> cells M' = cells M \<and>
     big_endian M' = big_endian M \<and> Type_f2c M' = Type_f2c M \<and> status_cells M' (c_status M') \<subseteq> Q \<and>
     (\<forall>p q mm a. a \<notin> status_cells M' q \<longrightarrow> Status_f2c M' p q mm a = mm a) \<and>
     (\<forall>w. \<exists>l. PMPI M' Finalize w = (MPI_SUCCESS, w\<lparr>lib := l\<rparr>))"

lemma compatibleD:
  assumes "compatible hb Q G' M' M"
  shows "file_laws G' M'" "good_allocator hb M'" "cells M' = cells M" "big_endian M' = big_endian M"
    "Type_f2c M' = Type_f2c M" "a \<notin> Q \<Longrightarrow> Status_f2c M' p (c_status M') mm a = mm a"
  using assms unfolding compatible_def by blast+

lemma compatible_cells:
  assumes "compatible hb Q G' M' M"
  shows "data_cells M' = data_cells M" "received_cells M' = received_cells M" "contents M' = contents M"
    "gave M' = gave M" "available M' = available M"
proof -
  show "data_cells M' = data_cells M" by (simp add: data_cells_def compatibleD(3) [OF assms] fun_eq_iff)
  then show "received_cells M' = received_cells M" "contents M' = contents M"
    by (simp_all add: received_cells_def [abs_def] contents_def [abs_def])
  then show "gave M' = gave M" "available M' = available M"
    by (simp_all add: gave_def [abs_def] available_def [abs_def])
qed

section \<open>Steps\<close>

text \<open>
  A step of the capture that receives the buffers \<open>L\<close>, changes the other memory by \<open>g\<close>, starts \<open>n\<close>
  receives and leaves \<open>m'\<close> pending; and the same step of the replay, where the log has the
  contents the buffers have in the memory \<open>mm\<close>.
\<close>

definition keeps :: "nat \<Rightarrow> 'w ghost \<Rightarrow> 'w mpi \<Rightarrow> ptr set \<Rightarrow> ptr set \<Rightarrow> data list \<Rightarrow> (memory \<Rightarrow> memory) \<Rightarrow> nat \<Rightarrow>
    (ptr \<rightharpoonup> request_t) \<Rightarrow> ('w, 'a) capture_scheme \<Rightarrow> ('w, 'a) capture_scheme \<Rightarrow> bool" where
  "keeps hb G M Q F L g n m' s s' \<longleftrightarrow> recording hb G M F s' m' \<and>
     MPIre_output_path s' = MPIre_output_path s \<and> MPIre_rank s' = MPIre_rank s \<and>
     size_of_comm M (COMM_WORLD M) s' = size_of_comm M (COMM_WORLD M) s \<and>
     card (dom (heap s')) = card (dom (heap s)) + n \<and> cpt_write s' = cpt_write s + int (length L) \<and>
     files (world s') = log_all (MPIre_output_path s) (cpt_write s) (contents M (mem (world s')) L) (files (world s)) \<and>
     (\<forall>a. a \<notin> hidden M Q m' \<longrightarrow> a \<notin> received_cells M L \<longrightarrow> mem (world s') a = g (mem (world s)) a)"

definition replays :: "nat \<Rightarrow> 'w mpi \<Rightarrow> ptr set \<Rightarrow> data list \<Rightarrow> (memory \<Rightarrow> memory) \<Rightarrow> nat \<Rightarrow> (ptr \<rightharpoonup> request_t) \<Rightarrow>
    memory \<Rightarrow> ('v, 'b) replay_scheme \<Rightarrow> ('v, 'b) replay_scheme \<Rightarrow> bool" where
  "replays hb M Q L g n m' mm r r' \<longleftrightarrow> pending hb (big_endian M) r' m' \<and> files (world r') = files (world r) \<and>
     MPIre_input_path r' = MPIre_input_path r \<and> MPIre_rank r' = MPIre_rank r \<and> MPIre_size r' = MPIre_size r \<and>
     card (dom (heap r')) = card (dom (heap r)) + n \<and> cpt_read r' = cpt_read r + int (length L) \<and>
     (\<forall>a. a \<notin> Q \<longrightarrow> mem (world r') a = (if a \<in> received_cells M L then mm a else g (mem (world r)) a))"

lemma in_step_keeps:
  assumes r: "in_step hb' M Q m s r" and s': "keeps hb G M Q F L g n m' s s'"
    and r': "replays hb' M Q L g n m' (mem (world s')) r r'" and g: "pointwise g"
    and H: "hidden M Q m \<subseteq> hidden M Q m' \<union> received_cells M L"
  shows "in_step hb' M Q m' s' r'"
proof -
  have "mem (world s') a = mem (world r') a" if a: "a \<notin> hidden M Q m'" for a
  proof (cases "a \<in> received_cells M L")
    case True
    then show ?thesis using a r' by (simp add: replays_def hidden_def)
  next
    case False
    then have "a \<notin> hidden M Q m" using a H by blast
    then have "g (mem (world s)) a = g (mem (world r)) a"
      using r by (intro pointwiseD [OF g]) (simp add: in_step_def agree_def)
    then show ?thesis using a False s' r' by (simp add: keeps_def replays_def hidden_def)
  qed
  then show ?thesis using r s' r' by (simp add: in_step_def keeps_def replays_def agree_def)
qed

text \<open>The log of a step of the capture is what the replay needs.\<close>

lemma keeps_available:
  assumes s': "keeps hb G M Q F L g n m' s s'" and r: "in_step hb' M Q m s r"
    and log: "\<And>k. cpt_write s \<le> k \<Longrightarrow> k < cpt_write s' \<Longrightarrow>
      files (world r) (log_path (MPIre_output_path s) k) = files (world s') (log_path (MPIre_output_path s) k)"
  shows "available M (mem (world s')) L r"
  unfolding available_def
proof (intro allI impI)
  fix i
  assume i: "i < length L"
  have "files (world r) (log_path (MPIre_output_path s) (cpt_write s + int i)) =
      log_all (MPIre_output_path s) (cpt_write s) (contents M (mem (world s')) L) (files (world s))
        (log_path (MPIre_output_path s) (cpt_write s + int i))"
    using log [of "cpt_write s + int i"] s' i by (simp add: keeps_def)
  then show "\<exists>old. files (world r) (log_path (MPIre_input_path r) (cpt_read r + int i)) =
      Some (overwrite (contents M (mem (world s')) L ! i) old)"
    using log_all_at [of i "contents M (mem (world s')) L"] i r by (simp add: in_step_def)
qed

lemma keeps_files:
  assumes "keeps hb G M Q F L g n m' s s'"
  shows "(\<And>k. cpt_write s \<le> k \<Longrightarrow> k < cpt_write s' \<Longrightarrow> p \<noteq> log_path (MPIre_output_path s) k) \<Longrightarrow> files (world s') p = files (world s) p"
  using assms log_all_other [of "contents M (mem (world s')) L" p "MPIre_output_path s" "cpt_write s" "files (world s)"]
  by (auto simp: keeps_def)

end
