(* ===== verification/Call_Specs.thy ===== *)
theory Call_Specs
  imports Promises
begin

text \<open>The calls of the C interface keep what \<open>Promises\<close> says, in the capture and in the replay.\<close>

section \<open>The call of MPI\<close>

lemma mpi_effect:
  assumes laws: "mpi_laws G M" and valid: "valid G c w" "\<nexists>p q. c = Init p q" and posted: "posted_ok G M F w m"
  shows "\<exists>m1 l. PMPI M c w = (MPI_SUCCESS, w\<lparr>mem := m1, lib := l\<rparr>) \<and>
    (\<forall>comm. Comm_rank M comm l = Comm_rank M comm (lib w) \<and> Comm_size M comm l = Comm_size M comm (lib w)) \<and>
    posts M c (mem w) m1 (posted G (lib w)) (posted G l) \<and>
    (\<forall>a. a \<notin> receives M G c w \<longrightarrow> a \<notin> controls M c \<longrightarrow> a \<notin> buffers M m \<longrightarrow>
       m1 a = (case c of
                 Get_rank comm p \<Rightarrow> store_int (big_endian M) p (Comm_rank M comm (lib w)) (mem w) a
               | Get_size comm p \<Rightarrow> store_int (big_endian M) p (Comm_size M comm (lib w)) (mem w) a
               | _ \<Rightarrow> mem w a))"
proof -
  have "call_law G M c w" using laws valid unfolding mpi_laws_def by blast
  moreover have "a \<notin> \<Union> (ran (posted G (lib w)))" if "a \<notin> buffers M m" for a
    using posted_buffers [OF posted] that by blast
  ultimately show ?thesis unfolding call_law_def by blast
qed

lemma args_not_init: "args_ok M G Q F m c s \<Longrightarrow> \<nexists>p q. c = Init p q"
  by auto

lemma args_controls: "args_ok M G Q F m c s \<Longrightarrow> controls M c \<subseteq> Q"
  by (cases c) auto

lemma args_receives:
  assumes "args_ok M G Q F m c s"
  shows "receives M G c (world s) \<subseteq> hidden M Q (pending_after c m) \<union>
    received_cells M (received (big_endian M) (size_of_comm M (COMM_WORLD M) s) (MPIre_rank s) (mem (world s)) m c)"
  using assms
  by (cases c) (auto simp: hidden_def cells_of_def data_cells_def data_of_def buffers_def ran_def world_comm_def rank_of_def
      size_of_comm_def Let_def split: if_splits)

lemma buffers_completed: "buffers M m \<subseteq> buffers M (m |` (- set ks)) \<union> received_cells M (map data_of (completed m ks))"
proof
  fix a
  assume "a \<in> buffers M m"
  then obtain k r where k: "m k = Some r" "a \<in> cells_of M r" by (auto simp: buffers_def ran_def)
  show "a \<in> buffers M (m |` (- set ks)) \<union> received_cells M (map data_of (completed m ks))"
  proof (cases "k \<in> set ks")
    case True
    then show ?thesis using completed_dom [of k ks m r] k by (auto simp: received_cells_of)
  next
    case False
    then have "(m |` (- set ks)) k = Some r" using k(1) by simp
    then show ?thesis using k(2) cells_of_buffers by blast
  qed
qed

text \<open>What leaves the hidden cells by a call is what the call receives.\<close>

lemma hidden_after:
  assumes "args_ok M G Q F m c s"
  shows "hidden M Q m \<subseteq> hidden M Q (pending_after c m) \<union> received_cells M (received be sz rank mm m c)"
proof (cases c)
  case (Wait request status)
  then show ?thesis using buffers_completed [of M m "[request]"] by (auto simp: hidden_def)
next
  case (Irecv b n d source tag comm request)
  then have "m request = None" using assms by simp
  then show ?thesis using Irecv by (auto simp: hidden_def buffers_def)
qed (use assms in \<open>auto simp: hidden_def\<close>)

lemma dom_kept: "dom m \<inter> dom (m |` (- K)) = dom m - K"
  by (auto simp: restrict_map_def split: if_splits)

lemma call_effect:
  assumes laws: "mpi_laws G M" and ok: "call_ok M G Q F m c s" and posted: "posted_ok G M F (world s) m" "separate M F m"
  shows "\<exists>m1 l. PMPI M c (world s) = (MPI_SUCCESS, (world s)\<lparr>mem := m1, lib := l\<rparr>) \<and>
    (\<forall>comm. Comm_rank M comm l = Comm_rank M comm (lib (world s)) \<and> Comm_size M comm l = Comm_size M comm (lib (world s))) \<and>
    posted_ok G M F ((world s)\<lparr>mem := m1, lib := l\<rparr>) (pending_after c m) \<and>
    (\<forall>a. a \<notin> hidden M Q (pending_after c m) \<longrightarrow>
       a \<notin> received_cells M (received (big_endian M) (size_of_comm M (COMM_WORLD M) s) (MPIre_rank s) (mem (world s)) m c) \<longrightarrow>
       m1 a = answers (big_endian M) (size_of_comm M (COMM_WORLD M) s) (MPIre_rank s) c (mem (world s)) a)"
proof -
  let ?w = "world s" and ?L = "received (big_endian M) (size_of_comm M (COMM_WORLD M) s) (MPIre_rank s) (mem (world s)) m c"
  have args: "args_ok M G Q F m c s" and valid: "valid G c ?w"
    and apart: "written M G c ?w \<inter> vars M F (dom m \<inter> dom (pending_after c m)) = {}"
    using ok by (auto simp: call_ok_def)
  obtain m1 l where call: "PMPI M c ?w = (MPI_SUCCESS, ?w\<lparr>mem := m1, lib := l\<rparr>)"
    "\<forall>comm. Comm_rank M comm l = Comm_rank M comm (lib ?w) \<and> Comm_size M comm l = Comm_size M comm (lib ?w)"
    "posts M c (mem ?w) m1 (posted G (lib ?w)) (posted G l)"
    and frame: "\<And>a. a \<notin> receives M G c ?w \<Longrightarrow> a \<notin> controls M c \<Longrightarrow> a \<notin> buffers M m \<Longrightarrow>
       m1 a = (case c of
                 Get_rank comm p \<Rightarrow> store_int (big_endian M) p (Comm_rank M comm (lib ?w)) (mem ?w) a
               | Get_size comm p \<Rightarrow> store_int (big_endian M) p (Comm_size M comm (lib ?w)) (mem ?w) a
               | _ \<Rightarrow> mem ?w a)"
    using mpi_effect [OF laws valid args_not_init [OF args] posted(1)] by blast
  have kept: "m1 a = mem ?w a" if "a \<in> vars M F (dom m \<inter> dom (pending_after c m))" for a
  proof -
    have "a \<notin> written M G c ?w" using apart that by blast
    moreover have "a \<notin> buffers M m" using posted(2) that by (auto simp: separate_def vars_def)
    ultimately show ?thesis using frame [of a] by (cases c) (auto simp: written_def store_int_frame)
  qed
  have "posted_ok G M F (?w\<lparr>mem := m1, lib := l\<rparr>) (pending_after c m)"
  proof (cases c)
    case (Irecv b n d source tag comm request)
    let ?r = "\<lparr>r_request = request, r_datatype = d, r_buffer = b, r_bufsize = n\<rparr> :: request_t"
    have "posted_ok G M F (?w\<lparr>mem := m1, lib := l\<rparr>) (m(request \<mapsto> ?r))"
    proof (rule posted_ok_new [OF laws posted(1)])
      show "posted G l = (posted G (lib ?w))(load_request M m1 request \<mapsto> cells_of M ?r)"
        using call(3) Irecv by (simp add: cells_of_def data_cells_def data_of_def)
      show "handle_of M F m1 request = load_request M m1 request" "m request = None"
        using args Irecv by (simp_all add: handle_of_def)
      show "m1 a = mem ?w a" if "a \<in> vars M F (dom m)" for a
        using kept [of a] that Irecv by (simp add: Int_absorb2 subset_insertI)
    qed
    then show ?thesis by (simp add: Irecv)
  next
    case (Wait request status)
    have "posted_ok G M F (?w\<lparr>mem := m1, lib := l\<rparr>) (m |` (- {request}))"
    proof (rule posted_ok_done [OF laws posted(1)])
      show "posted G l = posted G (lib ?w) |` (- {load_request M (mem ?w) request})"
        using call(3) Wait by (simp add: restrict_complement_singleton_eq)
      show "m1 a = mem ?w a" if "a \<in> vars M F (dom m - {request})" for a
        using kept [of a] that Wait dom_kept [of m "{request}"] by simp
      show "handle_of M F (mem ?w) k \<in> {load_request M (mem ?w) request}" if "k \<in> {request}" for k
        using args Wait that by (simp add: handle_of_def)
    qed
    then show ?thesis by (simp add: Wait)
  next
    case (Waitall n requests statuses)
    then have "m = Map.empty" using args by simp
    then show ?thesis
      using Waitall posted_ok_done [OF laws posted(1) call(3) [unfolded Waitall posts.simps], of "{}" m1] by (simp add: vars_def)
  qed (use posted_ok_kept [OF laws posted(1), of l m1] call(3) kept in simp_all)
  moreover have "m1 a = answers (big_endian M) (size_of_comm M (COMM_WORLD M) s) (MPIre_rank s) c (mem ?w) a"
    if a: "a \<notin> hidden M Q (pending_after c m)" "a \<notin> received_cells M ?L" for a
  proof -
    have "a \<notin> hidden M Q m" using hidden_after [OF args] a by blast
    then have "a \<notin> buffers M m" "a \<notin> controls M c" using args_controls [OF args] by (auto simp: hidden_def)
    moreover have "a \<notin> receives M G c ?w" using args_receives [OF args] a by blast
    ultimately show ?thesis using frame [of a] args
      by (cases c) (auto simp: world_comm_def rank_of_def size_of_comm_def)
  qed
  ultimately show ?thesis using call(1,2) by blast
qed

section \<open>The capture\<close>

lemma logging_after:
  assumes "logging M s" "\<forall>comm. Comm_rank M comm l = Comm_rank M comm (lib (world s))"
  shows "logging M (s\<lparr>world := (world s)\<lparr>mem := m1, lib := l\<rparr>\<rparr>)"
  using assms by (simp add: logging_def dump_on_def log_dir_def rank_of_def is_dir_def)

lemma capture_takes_wait:
  assumes laws: "file_laws G M" and s: "logging M s" "pending hb (big_endian M) s m"
    and ok: "args_ok M G Q F m c s" and c: "c = Wait request status"
    and call: "PMPI M c (world s) = (MPI_SUCCESS, (world s)\<lparr>mem := m1, lib := l\<rparr>)"
    and comms: "\<forall>comm. Comm_rank M comm l = Comm_rank M comm (lib (world s)) \<and> Comm_size M comm l = Comm_size M comm (lib (world s))"
    and k: "is_int (cpt_write s + int (length (completed m [request])))"
  shows "\<exists>s'. capture_call M c s = Inr (MPI_SUCCESS, s') \<and>
    took G M (map data_of (completed m [request])) (s\<lparr>world := (world s)\<lparr>mem := m1, lib := l\<rparr>\<rparr>) s' \<and>
    pending hb (big_endian M) s' (m |` (- {request})) \<and> card (dom (heap s')) = card (dom (heap s))"
proof -
  let ?s1 = "s\<lparr>world := (world s)\<lparr>mem := m1, lib := l\<rparr>\<rparr>"
  have log: "logging M ?s1" using logging_after [OF s(1)] comms by blast
  have pend: "pending hb (big_endian M) ?s1 m" using s(2) by simp
  have n: "0 \<le> r_bufsize r" if "r \<in> set (completed m [request])" for r
    using ok c that by (auto split: option.splits)
  have "is_int (cpt_write ?s1 + int (length (completed m [request])))" using k by simp
  from capture_completes [OF laws log pend n this] obtain s' where
    "complete_request M (write_in_file M) request request ?s1 = Inr s'"
    "took G M (map data_of (completed m [request])) ?s1 s'" "pending hb (big_endian M) s' (m |` (- {request}))" "heap s' = heap s"
    by (auto simp del: completed.simps)
  then show ?thesis
    using c call s(1) by (auto simp: MPI_Wait_def pmpi_def logging_def)
qed

lemma capture_takes_irecv:
  assumes al: "good_allocator hb M" and s: "pending hb (big_endian M) s m"
    and ok: "args_ok M G Q F m c s" and c: "c = Irecv b n d source tag comm request"
    and call: "PMPI M c (world s) = (MPI_SUCCESS, (world s)\<lparr>mem := m1, lib := l\<rparr>)"
  shows "\<exists>s'. capture_call M c s = Inr (MPI_SUCCESS, s') \<and> took G M [] (s\<lparr>world := (world s)\<lparr>mem := m1, lib := l\<rparr>\<rparr>) s' \<and>
    pending hb (big_endian M) s' (pending_after c m) \<and> card (dom (heap s')) = Suc (card (dom (heap s)))"
proof -
  obtain s2 where s2: "add_request M b n d request s = Inr s2"
    "pending hb (big_endian M) s2 (pending_after c m)" "card (dom (heap s2)) = Suc (card (dom (heap s)))"
    "s2 = s\<lparr>heap := heap s2, requestHtab := requestHtab s2\<rparr>"
    using add_request_pending [OF s _ al, of request b n d] ok c by auto
  let ?s3 = "s2\<lparr>world := (world s)\<lparr>mem := m1, lib := l\<rparr>\<rparr>"
  have "world s2 = world s" using s2(1) by (rule add_request_world)
  then have "capture_call M c s = Inr (MPI_SUCCESS, ?s3)"
    using s2(1) call ok c by (simp add: MPI_Irecv_def pmpi_def world_comm_def)
  moreover have "took G M [] (s\<lparr>world := (world s)\<lparr>mem := m1, lib := l\<rparr>\<rparr>) ?s3"
    by (subst s2(4)) (simp add: took_def)
  ultimately show ?thesis using s2(2,3) by simp
qed

lemma capture_takes_finalize:
  assumes s: "pending hb be s Map.empty" and call: "PMPI M Finalize (world s) = (MPI_SUCCESS, (world s)\<lparr>mem := m1, lib := l\<rparr>)"
  shows "\<exists>s'. MPI_Finalize M s = Inr (MPI_SUCCESS, s') \<and> took G M [] (s\<lparr>world := (world s)\<lparr>mem := m1, lib := l\<rparr>\<rparr>) s' \<and>
    pending hb be s' Map.empty \<and> card (dom (heap s')) = card (dom (heap s))"
proof -
  let ?s2 = "s\<lparr>world := (world s)\<lparr>mem := m1, lib := l\<rparr>, requestHtab := htable_clear (requestHtab s)\<rparr>"
  have "finite (dom (heap ?s2))" using s by (simp add: pending_def)
  then have "pending hb be ?s2 Map.empty" by (rule pending_start) (simp add: htable_clear_def)
  then show ?thesis using call by (simp add: MPI_Finalize_def pmpi_def took_def)
qed

lemma capture_takes:
  assumes laws: "file_laws G M" "good_allocator hb M" and s: "logging M s" "pending hb (big_endian M) s m"
    and k: "is_int (cpt_write s + int (length L))" and ok: "args_ok M G Q F m c s"
    and L: "L = received (big_endian M) (size_of_comm M (COMM_WORLD M) s) (MPIre_rank s) (mem (world s)) m c"
    and call: "PMPI M c (world s) = (MPI_SUCCESS, (world s)\<lparr>mem := m1, lib := l\<rparr>)"
    and comms: "\<forall>comm. Comm_rank M comm l = Comm_rank M comm (lib (world s)) \<and> Comm_size M comm l = Comm_size M comm (lib (world s))"
    and counts: "\<And>sb sn sv sd rb rn rv rd comm. c = Alltoallv sb sn sv sd rb rn rv rd comm \<Longrightarrow>
      sum_ints M rn (size_of_comm M comm s) (s\<lparr>world := (world s)\<lparr>mem := m1, lib := l\<rparr>\<rparr>) =
      sum_ints M rn (size_of_comm M comm s) s"
  shows "\<exists>s'. capture_call M c s = Inr (MPI_SUCCESS, s') \<and> took G M L (s\<lparr>world := (world s)\<lparr>mem := m1, lib := l\<rparr>\<rparr>) s' \<and>
    pending hb (big_endian M) s' (pending_after c m) \<and> card (dom (heap s')) = card (dom (heap s)) + starts c"
proof -
  let ?s1 = "s\<lparr>world := (world s)\<lparr>mem := m1, lib := l\<rparr>\<rparr>"
  have log: "logging M ?s1" using logging_after [OF s(1)] comms by blast
  have pend: "pending hb (big_endian M) s' m" if "heap s' = heap s" "requestHtab s' = requestHtab s" for s' :: "('a, 'c) capture_scheme"
    using pending_cong [of s' s] that s(2) by blast
  have wr: "\<exists>s'. write_in_file M b n d ?s1 = Inr s' \<and> took G M [(b, n, d)] ?s1 s' \<and>
      pending hb (big_endian M) s' m \<and> heap s' = heap s" if "0 \<le> n" "length L = 1" for b n d
    using write_took [OF laws(1) log _ that(1), of b d] k that(2) pend by fastforce
  show ?thesis
  proof (cases c)
    case (Recv b n d source tag comm status)
    then show ?thesis using wr [of n b d] ok call by (auto simp: L MPI_Recv_def pmpi_def world_comm_def)
  next
    case (Bcast b n d root comm)
    then show ?thesis using wr [of n b d] ok call pend [of ?s1] took_none [of G M ?s1]
      by (auto simp: L MPI_Bcast_def pmpi_def world_comm_def)
  next
    case (Alltoall sb sn sd rb rn rd comm)
    then show ?thesis using wr [of "rn * size_of_comm M comm s" rb rd] ok call
      by (auto simp: L MPI_Alltoall_def pmpi_def world_comm_def c_int_def)
  next
    case (Alltoallv sb sn sv sd rb rn rv rd comm)
    then show ?thesis
      using wr [of "counts_sum (big_endian M) (mem (world s)) rn (size_of_comm M comm s)" rb rd] ok call counts [OF Alltoallv]
      by (auto simp: L MPI_Alltoallv_def pmpi_def world_comm_def Let_def)
  next
    case (Allreduce sb rb n d op comm)
    then show ?thesis using wr [of n rb d] ok call by (auto simp: L MPI_Allreduce_def pmpi_def world_comm_def)
  next
    case (Reduce sb rb n d op root comm)
    then show ?thesis using wr [of n rb d] ok call pend [of ?s1] took_none [of G M ?s1]
      by (auto simp: L MPI_Reduce_def pmpi_def world_comm_def)
  next
    case (Wait request status)
    then show ?thesis using capture_takes_wait [OF laws(1) s ok Wait call comms] k by (simp add: L del: completed.simps)
  next
    case (Waitall n requests statuses)
    then have m: "m = Map.empty" and n: "1 \<le> n" using ok by auto
    have "complete_request M (write_in_file M) k h ?s1 = Inr ?s1" for k h
      using capture.complete_unknown [OF pend [of ?s1], where k = k and hashed = h] m by simp
    then show ?thesis using Waitall n call s(1) pend [of ?s1] took_none [of G M ?s1]
      by (auto simp: L MPI_Waitall_def pmpi_def logging_def Let_def for_each_skip)
  next
    case (Irecv b n d source tag comm request)
    then show ?thesis using capture_takes_irecv [OF laws(2) s(2) ok Irecv call] by (simp add: L)
  next
    case Finalize
    then have "m = Map.empty" using ok by simp
    then show ?thesis using capture_takes_finalize [of hb "big_endian M" s] s(2) Finalize call by (simp add: L)
  qed (use ok call pend [of ?s1] took_none [of G M ?s1] in \<open>auto simp: L pmpi_def\<close>)
qed

abbreviation (input) capture_receives ::
  "'w mpi \<Rightarrow> ('w, 'a) capture_scheme \<Rightarrow> (ptr \<rightharpoonup> request_t) \<Rightarrow> mpi_call \<Rightarrow> data list" where
  "capture_receives M s m c \<equiv>
     received (big_endian M) (size_of_comm M (COMM_WORLD M) s) (MPIre_rank s) (mem (world s)) m c"

abbreviation (input) capture_answers :: "'w mpi \<Rightarrow> ('w, 'a) capture_scheme \<Rightarrow> mpi_call \<Rightarrow> memory \<Rightarrow> memory" where
  "capture_answers M s c \<equiv> answers (big_endian M) (size_of_comm M (COMM_WORLD M) s) (MPIre_rank s) c"

lemma capture_step:
  assumes laws: "mpi_laws G M" "good_allocator hb M" and s: "recording hb G M F s m"
    and ok: "call_ok M G Q F m c s" and k: "is_int (cpt_write s + int (length (capture_receives M s m c)))"
  shows "\<exists>s'. capture_call M c s = Inr (MPI_SUCCESS, s') \<and>
    keeps hb G M Q F (capture_receives M s m c) (capture_answers M s c) (starts c) (pending_after c m) s s'"
proof -
  let ?L = "capture_receives M s m c"
  have log: "logging M s" and pend: "pending hb (big_endian M) s m" and posted: "posted_ok G M F (world s) m" "separate M F m"
    using s by (auto simp: recording_def)
  have args: "args_ok M G Q F m c s" and sep: "separate M F (pending_after c m)" using ok by (auto simp: call_ok_def)
  obtain m1 l where call: "PMPI M c (world s) = (MPI_SUCCESS, (world s)\<lparr>mem := m1, lib := l\<rparr>)"
    "\<forall>comm. Comm_rank M comm l = Comm_rank M comm (lib (world s)) \<and> Comm_size M comm l = Comm_size M comm (lib (world s))"
    "posted_ok G M F ((world s)\<lparr>mem := m1, lib := l\<rparr>) (pending_after c m)"
    and frame: "\<And>a. a \<notin> hidden M Q (pending_after c m) \<Longrightarrow> a \<notin> received_cells M ?L \<Longrightarrow>
       m1 a = capture_answers M s c (mem (world s)) a"
    using call_effect [OF laws(1) ok posted] by blast
  let ?s1 = "s\<lparr>world := (world s)\<lparr>mem := m1, lib := l\<rparr>\<rparr>"
  have counts: "sum_ints M rn (size_of_comm M comm s) ?s1 = sum_ints M rn (size_of_comm M comm s) s"
    if c: "c = Alltoallv sb sn sv sd rb rn rv rd comm" for sb sn sv sd rb rn rv rd comm
  proof (rule sum_ints_cong)
    fix i a
    assume "i < nat (size_of_comm M comm s)" "a \<in> int_cells (element 4 rn i)"
    then have "a \<notin> hidden M Q m" "a \<notin> received_cells M ?L"
      using args unfolding c by (auto simp: Let_def world_comm_def)
    then show "mem (world ?s1) a = mem (world s) a" using frame [of a] by (simp add: c)
  qed simp
  have "file_laws G M" using laws(1) by (simp add: mpi_laws_def)
  from capture_takes [OF this laws(2) log pend k args refl call(1,2)] counts
  obtain s' where s': "capture_call M c s = Inr (MPI_SUCCESS, s')" "took G M ?L ?s1 s'"
    "pending hb (big_endian M) s' (pending_after c m)" "card (dom (heap s')) = card (dom (heap s)) + starts c"
    by blast
  have log1: "logging M ?s1" using logging_after [OF log] call(2) by blast
  have same: "same_comm G M l (lib (world s'))" using s'(2) by (simp add: took_def)
  have "posted_ok G M F (world s') (pending_after c m)"
    using call(3) same s'(2) by (simp add: posted_ok_def same_comm_def took_def)
  moreover have "logging M s'" using logging_took [OF log1 s'(2)] k by simp
  ultimately have "recording hb G M F s' (pending_after c m)" using s'(3) sep by (simp add: recording_def)
  moreover have "size_of_comm M (COMM_WORLD M) s' = size_of_comm M (COMM_WORLD M) s"
    using call(2) same by (simp add: size_of_comm_def same_comm_def)
  ultimately have "keeps hb G M Q F ?L (capture_answers M s c) (starts c) (pending_after c m) s s'"
    using s'(2,4) frame by (simp add: keeps_def took_def)
  then show ?thesis using s'(1) by blast
qed

section \<open>The replay\<close>

text \<open>A call that gives the buffers it receives and has no other results.\<close>

lemma replays_gave:
  assumes "gave M mm L r r'" "pending hb (big_endian M) r' m'" "card (dom (heap r')) = card (dom (heap r)) + n" "answer_cells c = {}"
  shows "replays hb M Q L (answers be sz rank c) n m' mm r r'"
proof -
  have "answers be sz rank c mm' = mm'" for mm' using assms(4) by (cases c) (auto simp: int_cells_def)
  then show ?thesis using assms by (simp add: replays_def gave_def)
qed

lemma replay_reads:
  assumes M': "compatible hb Q G' M' M" and r: "in_step hb M Q m s r" and rd: "reading 1 r" and av: "available M mm [(b, n, d)] r"
    and n: "0 \<le> n" and c: "answer_cells c = {}" "starts c = 0" "pending_after c m = m"
  shows "\<exists>r'. read_in_file M' b n d r = Inr r' \<and>
    replays hb M Q [(b, n, d)] (answers be sz rank c) (starts c) (pending_after c m) mm r r'"
proof -
  note C = compatibleD [OF M'] compatible_cells [OF M']
  have pend: "pending hb (big_endian M) r m" using r by (simp add: in_step_def)
  have "available M' mm [(b, n, d)] r" using av by (simp add: C)
  from read_gave [OF C(1) rd this n] obtain r' where r': "read_in_file M' b n d r = Inr r'" "gave M mm [(b, n, d)] r r'"
    "heap r' = heap r" "requestHtab r' = requestHtab r"
    by (auto simp: C)
  moreover have "pending hb (big_endian M) r' m" using pending_cong [of r' r] pend r'(3,4) by blast
  ultimately show ?thesis using replays_gave [of M mm "[(b, n, d)]" r r' hb m 0 c] c by auto
qed

lemma replay_skips:
  assumes "in_step hb M Q m s r" "answer_cells c = {}" "starts c = 0" "pending_after c m = m"
  shows "replays hb M Q [] (answers be sz rank c) (starts c) (pending_after c m) mm r r"
  using assms replays_gave [OF gave_none, of hb M r m 0 c Q be sz rank mm] by (simp add: in_step_def)

lemma replay_alltoallv:
  assumes M': "compatible hb Q G' M' M" and c: "c = Alltoallv sb sn sv sd rb rn rv rd' comm" and ok: "args_ok M G Q F m c s"
    and r: "in_step hb M Q m s r" and L: "L = capture_receives M s m c" and rd: "reading (length L) r" and av: "available M mm L r"
  shows "\<exists>r'. replay_call M' c r = Inr (MPI_SUCCESS, r') \<and>
    replays hb M Q L (capture_answers M s c) (starts c) (pending_after c m) mm r r'"
proof -
  let ?n = "counts_sum (big_endian M) (mem (world s)) rn (size_of_comm M comm s)"
  have size: "MPIre_size r = size_of_comm M comm s" using ok r by (simp add: c world_comm_def in_step_def)
  have n: "0 \<le> ?n" and sum: "sum_ints M rn (size_of_comm M comm s) s = Inr ?n"
    using ok unfolding c by (simp_all add: Let_def)
  have "sum_ints M' rn (MPIre_size r) r = Inr ?n"
    unfolding size sum [symmetric]
    using ok r c compatibleD(4) [OF M'] by (intro sum_ints_cong) (auto simp: Let_def in_step_def agree_def)
  moreover have "L = [(rb, ?n, rd')]" using ok by (simp add: L c world_comm_def)
  ultimately show ?thesis
    using replay_reads [OF M' r _ _ n, where b = rb and d = rd' and mm = mm and c = c] rd av by (auto simp: c R_MPI_Alltoallv_def)
qed

lemma replay_wait:
  assumes M': "compatible hb Q G' M' M" and c: "c = Wait request status" and ok: "args_ok M G Q F m c s"
    and r: "in_step hb M Q m s r" and L: "L = capture_receives M s m c" and rd: "reading (length L) r" and av: "available M mm L r"
  shows "\<exists>r'. replay_call M' c r = Inr (MPI_SUCCESS, r') \<and>
    replays hb M Q L (capture_answers M s c) (starts c) (pending_after c m) mm r r'"
proof -
  note C = compatibleD [OF M'] compatible_cells [OF M']
  have pend: "pending hb (big_endian M) r m" using r by (simp add: in_step_def)
  have n: "0 \<le> r_bufsize x" if "x \<in> set (completed m [request])" for x
    using ok c that by (auto split: option.splits)
  have "reading (length (completed m [request])) r" "pending hb (big_endian M') r m"
    "available M' mm (map data_of (completed m [request])) r"
    using rd av pend by (simp_all add: L c C del: completed.simps)
  from replay_completes [OF C(1) this(1,2) n this(3)] obtain r' where
    "complete_request M' (read_in_file M') request request r = Inr r'"
    "gave M mm L r r'" "pending hb (big_endian M) r' (m |` (- {request}))" "heap r' = heap r"
    by (auto simp: L c C simp del: completed.simps)
  then show ?thesis using replays_gave [of M mm L r r' hb _ 0 c] by (auto simp: c R_MPI_Wait_def)
qed

lemma replay_irecv:
  assumes M': "compatible hb Q G' M' M" and c: "c = Irecv b n d source tag comm request" and ok: "args_ok M G Q F m c s"
    and r: "in_step hb M Q m s r"
  shows "\<exists>r'. replay_call M' c r = Inr (MPI_SUCCESS, r') \<and>
    replays hb M Q [] (capture_answers M s c) (starts c) (pending_after c m) mm r r'"
proof -
  have be: "big_endian M' = big_endian M" and al: "good_allocator hb M'" by (fact compatibleD [OF M'])+
  have "pending hb (big_endian M') r m" "m request = None" "card (dom (heap r)) < max_elems"
    using r ok by (simp_all add: in_step_def be c)
  from add_request_pending [OF this(1,2) al this(3), of b n d] obtain r' where r': "add_request M' b n d request r = Inr r'"
    "pending hb (big_endian M) r' (pending_after c m)" "card (dom (heap r')) = Suc (card (dom (heap r)))"
    "r' = r\<lparr>heap := heap r', requestHtab := requestHtab r'\<rparr>"
    by (auto simp: be c)
  have "gave M mm [] r r'" by (subst r'(4)) (simp add: gave_def)
  then show ?thesis using r'(1-3) replays_gave [of M mm "[]" r r' hb _ 1 c] by (auto simp: c R_MPI_Irecv_def)
qed

lemma replay_finalize:
  assumes M': "compatible hb Q G' M' M" and r: "in_step hb M Q Map.empty s r"
  shows "\<exists>r'. R_MPI_Finalize M' r = Inr (MPI_SUCCESS, r') \<and> replays hb M Q [] (answers be sz rank Finalize) 0 Map.empty mm r r'"
proof -
  obtain l where w: "PMPI M' Finalize (world r) = (MPI_SUCCESS, (world r)\<lparr>lib := l\<rparr>)"
    using M' unfolding compatible_def by blast
  let ?r' = "r\<lparr>world := (world r)\<lparr>lib := l\<rparr>, requestHtab := htable_clear (requestHtab r)\<rparr>"
  have "finite (dom (heap ?r'))" using r by (simp add: pending_def in_step_def)
  then have "pending hb (big_endian M) ?r' Map.empty" by (rule pending_start) (simp add: htable_clear_def)
  then have "replays hb M Q [] (answers be sz rank Finalize) 0 Map.empty mm r ?r'" by (simp add: replays_def)
  then show ?thesis using w by (simp add: R_MPI_Finalize_def pmpi_def)
qed

lemma replay_step:
  assumes M': "compatible hb Q G' M' M" and ok: "args_ok M G Q F m c s" and r: "in_step hb M Q m s r"
    and L: "L = capture_receives M s m c" and rd: "reading (length L) r" and av: "available M mm L r"
  shows "\<exists>r'. replay_call M' c r = Inr (MPI_SUCCESS, r') \<and>
    replays hb M Q L (capture_answers M s c) (starts c) (pending_after c m) mm r r'"
proof -
  note be = compatibleD(4) [OF M']
  have pend: "pending hb (big_endian M) r m" and same: "MPIre_rank r = MPIre_rank s"
    "MPIre_size r = size_of_comm M (COMM_WORLD M) s"
    using r by (auto simp: in_step_def)
  note reads = replay_reads [OF M' r, where be = "big_endian M" and sz = "size_of_comm M (COMM_WORLD M) s" and rank = "MPIre_rank s" and mm = mm and c = c]
  note skips = replay_skips [OF r, where be = "big_endian M" and sz = "size_of_comm M (COMM_WORLD M) s" and rank = "MPIre_rank s" and mm = mm and c = c]
  show ?thesis
  proof (cases c)
    case (Recv b n d source tag comm status)
    then show ?thesis using reads [of b n d] rd av ok by (auto simp: L R_MPI_Recv_def)
  next
    case (Bcast b n d root comm)
    then show ?thesis using reads [of b n d] skips rd av ok same
      by (cases "MPIre_rank s = root") (auto simp: L R_MPI_Bcast_def)
  next
    case (Alltoall sb sn sd rb rn rd' comm)
    then show ?thesis using reads [of rb "rn * size_of_comm M comm s" rd'] rd av ok same
      by (auto simp: L R_MPI_Alltoall_def world_comm_def c_int_def)
  next
    case (Alltoallv sb sn sv sd rb rn rv rd' comm)
    then show ?thesis by (rule replay_alltoallv [OF M' _ ok r L rd av])
  next
    case (Allreduce sb rb n d op comm)
    then show ?thesis using reads [of rb n d] rd av ok by (auto simp: L R_MPI_Allreduce_def)
  next
    case (Reduce sb rb n d op root comm)
    then show ?thesis using reads [of rb n d] skips rd av ok same
      by (cases "MPIre_rank s = root") (auto simp: L R_MPI_Reduce_def)
  next
    case (Wait request status)
    then show ?thesis by (rule replay_wait [OF M' _ ok r L rd av])
  next
    case (Waitall n requests statuses)
    then have m: "m = Map.empty" using ok by auto
    have "complete_request M' (read_in_file M') k h r = Inr r" for k h
      using replay.complete_unknown [where al = M' and M = M' and hb = hb and s = r and m = m and k = k and hashed = h] pend m be
      by simp
    then show ?thesis using Waitall skips by (simp add: L R_MPI_Waitall_def for_each_skip)
  next
    case (Irecv b n d source tag comm request)
    then show ?thesis using replay_irecv [OF M' Irecv ok r] by (simp add: L)
  next
    case Finalize
    then have "m = Map.empty" using ok by simp
    then show ?thesis using replay_finalize [OF M', of s r] r Finalize by (simp add: L)
  next
    case (Get_rank comm p)
    then show ?thesis using pend same be by (simp add: L R_MPI_Comm_rank_def put_int_def replays_def)
  next
    case (Get_size comm p)
    then show ?thesis using pend same be by (simp add: L R_MPI_Comm_size_def put_int_def replays_def)
  qed (use ok skips in \<open>auto simp: L R_MPI_Send_def R_MPI_Isend_def R_MPI_Start_def R_MPI_Barrier_def\<close>)
qed

end
