(* ===== verification/Fortran_Promises.thy ===== *)
theory Fortran_Promises
  imports Promises
begin

text \<open>
  What a call of the Fortran interface promises: the same as the call of the C interface with the
  integers its arguments point to, apart from MPI_Waitall, which the Fortran interface of the
  capture does log.
\<close>

section \<open>The call in terms of C\<close>

abbreviation (input) int_in :: "'w mpi \<Rightarrow> memory \<Rightarrow> ptr \<Rightarrow> int" where
  "int_in M mm p \<equiv> load_int (big_endian M) mm p"

fun in_c :: "'w mpi \<Rightarrow> memory \<Rightarrow> f_call \<Rightarrow> mpi_call" where
  "in_c M mm (F_Init ierror) = Init 0 NULL"
| "in_c M mm (F_Finalize ierror) = Finalize"
| "in_c M mm (F_Irecv b n d source tag comm request ierror) =
     Irecv b (int_in M mm n) (Type_f2c M (int_in M mm d)) (int_in M mm source) (int_in M mm tag) (Comm_f2c M (int_in M mm comm)) request"
| "in_c M mm (F_Recv b n d source tag comm status ierror) =
     Recv b (int_in M mm n) (Type_f2c M (int_in M mm d)) (int_in M mm source) (int_in M mm tag) (Comm_f2c M (int_in M mm comm)) status"
| "in_c M mm (F_Wait request status ierror) = Wait request status"
| "in_c M mm (F_Waitall n requests statuses ierror) = Waitall (int_in M mm n) requests statuses"
| "in_c M mm (F_Bcast b n d root comm ierror) =
     Bcast b (int_in M mm n) (Type_f2c M (int_in M mm d)) (int_in M mm root) (Comm_f2c M (int_in M mm comm))"
| "in_c M mm (F_Alltoall sb sn sd rb rn rd comm ierror) =
     Alltoall sb (int_in M mm sn) (Type_f2c M (int_in M mm sd)) rb (int_in M mm rn) (Type_f2c M (int_in M mm rd))
       (Comm_f2c M (int_in M mm comm))"
| "in_c M mm (F_Alltoallv sb sn sv sd rb rn rv rd comm ierror) =
     Alltoallv sb sn sv (Type_f2c M (int_in M mm sd)) rb rn rv (Type_f2c M (int_in M mm rd)) (Comm_f2c M (int_in M mm comm))"
| "in_c M mm (F_Allreduce sb rb n d op comm ierror) =
     Allreduce sb rb (int_in M mm n) (Type_f2c M (int_in M mm d)) (Op_f2c M (int_in M mm op)) (Comm_f2c M (int_in M mm comm))"
| "in_c M mm (F_Reduce sb rb n d op root comm ierror) =
     Reduce sb rb (int_in M mm n) (Type_f2c M (int_in M mm d)) (Op_f2c M (int_in M mm op)) (int_in M mm root)
       (Comm_f2c M (int_in M mm comm))"
| "in_c M mm (F_Send b n d dest tag comm ierror) =
     Send b (int_in M mm n) (Type_f2c M (int_in M mm d)) (int_in M mm dest) (int_in M mm tag) (Comm_f2c M (int_in M mm comm))"
| "in_c M mm (F_Isend b n d dest tag comm request ierror) =
     Isend b (int_in M mm n) (Type_f2c M (int_in M mm d)) (int_in M mm dest) (int_in M mm tag) (Comm_f2c M (int_in M mm comm)) request"
| "in_c M mm (F_Start request ierror) = Start request"
| "in_c M mm (F_Barrier comm ierror) = Barrier (Comm_f2c M (int_in M mm comm))"
| "in_c M mm (F_Rank comm p ierror) = Get_rank (Comm_f2c M (int_in M mm comm)) p"
| "in_c M mm (F_Size comm p ierror) = Get_size (Comm_f2c M (int_in M mm comm)) p"

definition request_array :: "ptr \<Rightarrow> int \<Rightarrow> ptr list" where
  "request_array requests n = map (element 4 requests) [0..<nat n]"

fun received_f :: "'w mpi \<Rightarrow> int \<Rightarrow> int \<Rightarrow> memory \<Rightarrow> (ptr \<rightharpoonup> request_t) \<Rightarrow> f_call \<Rightarrow> data list" where
  "received_f M sz rank mm m (F_Waitall n requests statuses ierror) =
     map data_of (completed m (request_array requests (int_in M mm n)))"
| "received_f M sz rank mm m f = received (big_endian M) sz rank mm m (in_c M mm f)"

fun pending_after_f :: "'w mpi \<Rightarrow> memory \<Rightarrow> f_call \<Rightarrow> (ptr \<rightharpoonup> request_t) \<Rightarrow> ptr \<rightharpoonup> request_t" where
  "pending_after_f M mm (F_Waitall n requests statuses ierror) m = m |` (- set (request_array requests (int_in M mm n)))"
| "pending_after_f M mm f m = pending_after (in_c M mm f) m"

definition answers_f :: "'w mpi \<Rightarrow> int \<Rightarrow> int \<Rightarrow> memory \<Rightarrow> f_call \<Rightarrow> memory \<Rightarrow> memory" where
  "answers_f M sz rank mm f mm' =
     store_int (big_endian M) (ierror_of f) MPI_SUCCESS (answers (big_endian M) sz rank (in_c M mm f) mm')"

lemma pointwise_answers_f: "pointwise (answers_f M sz rank mm f)"
proof -
  have "answers_f M sz rank mm f = (\<lambda>mm'. store_int (big_endian M) (ierror_of f) MPI_SUCCESS
      (answers (big_endian M) sz rank (in_c M mm f) mm'))" by (simp add: fun_eq_iff answers_f_def)
  then show ?thesis using pointwise_comp [OF pointwise_store_int pointwise_answers] by simp
qed

section \<open>The local variables of the wrappers\<close>

text \<open>
  \<open>c_request\<close> and \<open>c_status\<close> are the copies of requests and statuses in C, or arrays of them. The
  call passed on to MPI has these as its arguments, in the memory \<open>prepare\<close>.
\<close>

definition local_requests :: "'w mpi \<Rightarrow> nat \<Rightarrow> ptr set" where
  "local_requests M n = (\<Union>i<n. request_cells M (element (sizeof_request M) (c_request M) i))"

definition local_statuses :: "'w mpi \<Rightarrow> nat \<Rightarrow> ptr set" where
  "local_statuses M n = (\<Union>i<n. status_cells M (element (sizeof_status M) (c_status M) i))"

fun copies :: "'w mpi \<Rightarrow> memory \<Rightarrow> f_call \<Rightarrow> nat" where
  "copies M mm (F_Waitall n requests statuses ierror) = nat (int_in M mm n)"
| "copies M mm f = 1"

definition locals_ok :: "'w mpi \<Rightarrow> ptr set \<Rightarrow> ptr set \<Rightarrow> nat \<Rightarrow> bool" where
  "locals_ok M Q V n \<longleftrightarrow> local_requests M n \<subseteq> Q \<and> local_statuses M n \<subseteq> Q \<and>
     local_requests M n \<inter> local_statuses M n = {} \<and> (local_requests M n \<union> local_statuses M n) \<inter> V = {} \<and>
     sizeof_request M * n \<le> 2 ^ 64"

fun passed :: "'w mpi \<Rightarrow> memory \<Rightarrow> f_call \<Rightarrow> mpi_call" where
  "passed M mm (F_Irecv b n d source tag comm request ierror) =
     Irecv b (int_in M mm n) (Type_f2c M (int_in M mm d)) (int_in M mm source) (int_in M mm tag) (Comm_f2c M (int_in M mm comm)) (c_request M)"
| "passed M mm (F_Recv b n d source tag comm status ierror) =
     Recv b (int_in M mm n) (Type_f2c M (int_in M mm d)) (int_in M mm source) (int_in M mm tag) (Comm_f2c M (int_in M mm comm)) (c_status M)"
| "passed M mm (F_Wait request status ierror) = Wait (c_request M) (c_status M)"
| "passed M mm (F_Waitall n requests statuses ierror) = Waitall (int_in M mm n) (c_request M) (c_status M)"
| "passed M mm f = in_c M mm f"

definition copy_request :: "'w mpi \<Rightarrow> ptr \<Rightarrow> ptr \<Rightarrow> memory \<Rightarrow> memory" where
  "copy_request M request p mm = store_request M p (Request_f2c M (int_in M mm request)) mm"

definition copy_slot :: "'w mpi \<Rightarrow> ptr \<Rightarrow> ptr \<Rightarrow> nat \<Rightarrow> memory \<Rightarrow> memory" where
  "copy_slot M requests statuses i mm =
     Status_f2c M (element 4 statuses i) (element (sizeof_status M) (c_status M) i)
       (copy_request M (element 4 requests i) (element (sizeof_request M) (c_request M) i) mm)"

fun prepare :: "'w mpi \<Rightarrow> f_call \<Rightarrow> memory \<Rightarrow> memory" where
  "prepare M (F_Irecv b n d source tag comm request ierror) mm = copy_request M request (c_request M) mm"
| "prepare M (F_Recv b n d source tag comm status ierror) mm = Status_f2c M status (c_status M) mm"
| "prepare M (F_Wait request status ierror) mm = Status_f2c M status (c_status M) (copy_request M request (c_request M) mm)"
| "prepare M (F_Waitall n requests statuses ierror) mm = fold (copy_slot M requests statuses) [0..<nat (int_in M mm n)] mm"
| "prepare M f mm = mm"

section \<open>Calls a log can stand for\<close>

fun wrapped :: "f_call \<Rightarrow> bool" where
  "wrapped (F_Send b n d dest tag comm ierror) = False"
| "wrapped (F_Isend b n d dest tag comm request ierror) = False"
| "wrapped (F_Start request ierror) = False"
| "wrapped (F_Barrier comm ierror) = False"
| "wrapped (F_Rank comm p ierror) = False"
| "wrapped (F_Size comm p ierror) = False"
| "wrapped f = True"

text \<open>
  The arguments, as for C; requests are the integers \<open>F\<close>. No log can stand for MPI_Alltoallv, which
  passes on the wrong counts, and MPI_Reduce, which the replay has under another name.
\<close>

fun f_args_ok :: "'w mpi \<Rightarrow> ptr set \<Rightarrow> (ptr \<rightharpoonup> request_t) \<Rightarrow> f_call \<Rightarrow> ('w, 'a) process_scheme \<Rightarrow> bool" where
  "f_args_ok M F m (F_Irecv b n d source tag comm request ierror) s \<longleftrightarrow> world_comm M (Comm_f2c M (get_int M comm s)) s \<and>
     0 \<le> get_int M n s \<and> m request = None \<and> request \<in> F \<and> card (dom (heap s)) < max_elems"
| "f_args_ok M F m (F_Recv b n d source tag comm status ierror) s \<longleftrightarrow> world_comm M (Comm_f2c M (get_int M comm s)) s \<and> 0 \<le> get_int M n s"
| "f_args_ok M F m (F_Wait request status ierror) s \<longleftrightarrow> request \<in> F \<and> (\<forall>r. m request = Some r \<longrightarrow> 0 \<le> r_bufsize r)"
| "f_args_ok M F m (F_Waitall n requests statuses ierror) s \<longleftrightarrow> 1 \<le> get_int M n s \<and> int_cells n \<inter> int_cells ierror = {} \<and>
     set (request_array requests (get_int M n s)) \<subseteq> F \<and> (\<forall>r \<in> ran m. 0 \<le> r_bufsize r)"
| "f_args_ok M F m (F_Bcast b n d root comm ierror) s \<longleftrightarrow> world_comm M (Comm_f2c M (get_int M comm s)) s \<and> 0 \<le> get_int M n s"
| "f_args_ok M F m (F_Alltoall sb sn sd rb rn rd comm ierror) s \<longleftrightarrow> world_comm M (Comm_f2c M (get_int M comm s)) s \<and>
     0 \<le> get_int M rn s * size_of_comm M (COMM_WORLD M) s \<and> is_int (get_int M rn s * size_of_comm M (COMM_WORLD M) s)"
| "f_args_ok M F m (F_Allreduce sb rb n d op comm ierror) s \<longleftrightarrow> world_comm M (Comm_f2c M (get_int M comm s)) s \<and> 0 \<le> get_int M n s"
| "f_args_ok M F m (F_Send b n d dest tag comm ierror) s \<longleftrightarrow> True"
| "f_args_ok M F m (F_Isend b n d dest tag comm request ierror) s \<longleftrightarrow> True"
| "f_args_ok M F m (F_Start request ierror) s \<longleftrightarrow> True"
| "f_args_ok M F m (F_Barrier comm ierror) s \<longleftrightarrow> True"
| "f_args_ok M F m (F_Rank comm p ierror) s \<longleftrightarrow> world_comm M (Comm_f2c M (get_int M comm s)) s"
| "f_args_ok M F m (F_Size comm p ierror) s \<longleftrightarrow> world_comm M (Comm_f2c M (get_int M comm s)) s"
| "f_args_ok M F m (F_Finalize ierror) s \<longleftrightarrow> m = Map.empty"
| "f_args_ok M F m f s \<longleftrightarrow> False"

text \<open>The integers a wrapper reads or writes, which the program can see, and its variables of requests and statuses.\<close>

fun int_args :: "f_call \<Rightarrow> ptr set" where
  "int_args (F_Irecv b n d source tag comm request ierror) = {n, d, source, tag, comm, ierror}"
| "int_args (F_Recv b n d source tag comm status ierror) = {n, d, source, tag, comm, ierror}"
| "int_args (F_Waitall n requests statuses ierror) = {n, ierror}"
| "int_args (F_Bcast b n d root comm ierror) = {n, d, root, comm, ierror}"
| "int_args (F_Alltoall sb sn sd rb rn rd comm ierror) = {sn, sd, rn, rd, comm, ierror}"
| "int_args (F_Allreduce sb rb n d op comm ierror) = {n, d, op, comm, ierror}"
| "int_args f = {ierror_of f}"

fun outputs_f :: "'w mpi \<Rightarrow> memory \<Rightarrow> f_call \<Rightarrow> ptr set" where
  "outputs_f M mm (F_Irecv b n d source tag comm request ierror) = int_cells request"
| "outputs_f M mm (F_Recv b n d source tag comm status ierror) = status_cells M status"
| "outputs_f M mm (F_Wait request status ierror) = status_cells M status"
| "outputs_f M mm (F_Waitall n requests statuses ierror) = (\<Union>i<nat (int_in M mm n). status_cells M (element 4 statuses i))"
| "outputs_f M mm f = controls_f M f"

definition written_f :: "'w mpi \<Rightarrow> 'w ghost \<Rightarrow> f_call \<Rightarrow> 'w world \<Rightarrow> ptr set" where
  "written_f M G f w = receives M G (passed M (mem w) f) (w\<lparr>mem := prepare M f (mem w)\<rparr>) \<union> outputs_f M (mem w) f \<union>
     local_requests M (copies M (mem w) f) \<union> local_statuses M (copies M (mem w) f) \<union>
     answer_cells (in_c M (mem w) f) \<union> int_cells (ierror_of f)"

definition f_call_ok :: "'w mpi \<Rightarrow> 'w ghost \<Rightarrow> ptr set \<Rightarrow> ptr set \<Rightarrow> (ptr \<rightharpoonup> request_t) \<Rightarrow> f_call \<Rightarrow>
    ('w, 'a) process_scheme \<Rightarrow> bool" where
  "f_call_ok M G Q F m f s \<longleftrightarrow>
     (let w = world s; m' = pending_after_f M (mem w) f m;
          L = received_f M (size_of_comm M (COMM_WORLD M) s) (MPIre_rank s) (mem w) m f
      in f_args_ok M F m f s \<and> locals_ok M Q (vars M F (dom m)) (copies M (mem w) f) \<and> outputs_f M (mem w) f \<subseteq> Q \<and>
         (\<forall>p \<in> int_args f. int_cells p \<inter> hidden M Q m = {}) \<and>
         received_cells M L \<inter> (Q \<union> int_cells (ierror_of f)) = {} \<and>
         (if wrapped f then valid G (passed M (mem w) f) (w\<lparr>mem := prepare M f (mem w)\<rparr>) else valid_f G f w) \<and>
         written_f M G f w \<inter> vars M F (dom m \<inter> dom m') = {} \<and> separate M F m')"

lemma f_call_okD:
  assumes "f_call_ok M G Q F m f s"
  shows "f_args_ok M F m f s" "locals_ok M Q (vars M F (dom m)) (copies M (mem (world s)) f)" "outputs_f M (mem (world s)) f \<subseteq> Q"
    "p \<in> int_args f \<Longrightarrow> a \<in> int_cells p \<Longrightarrow> a \<notin> hidden M Q m"
    "received_cells M (received_f M (size_of_comm M (COMM_WORLD M) s) (MPIre_rank s) (mem (world s)) m f) \<inter>
       (Q \<union> int_cells (ierror_of f)) = {}"
    "wrapped f \<Longrightarrow> valid G (passed M (mem (world s)) f) ((world s)\<lparr>mem := prepare M f (mem (world s))\<rparr>)"
    "\<not> wrapped f \<Longrightarrow> valid_f G f (world s)"
    "written_f M G f (world s) \<inter> vars M F (dom m \<inter> dom (pending_after_f M (mem (world s)) f m)) = {}"
    "separate M F (pending_after_f M (mem (world s)) f m)"
proof -
  note ok = assms [unfolded f_call_ok_def Let_def]
  show "f_args_ok M F m f s" "locals_ok M Q (vars M F (dom m)) (copies M (mem (world s)) f)" "outputs_f M (mem (world s)) f \<subseteq> Q"
    "received_cells M (received_f M (size_of_comm M (COMM_WORLD M) s) (MPIre_rank s) (mem (world s)) m f) \<inter>
       (Q \<union> int_cells (ierror_of f)) = {}"
    "written_f M G f (world s) \<inter> vars M F (dom m \<inter> dom (pending_after_f M (mem (world s)) f m)) = {}"
    "separate M F (pending_after_f M (mem (world s)) f m)"
    using ok by - (elim conjE, assumption)+
  have "\<forall>p \<in> int_args f. int_cells p \<inter> hidden M Q m = {}" using ok by (elim conjE)
  then show "p \<in> int_args f \<Longrightarrow> a \<in> int_cells p \<Longrightarrow> a \<notin> hidden M Q m" by blast
  have "if wrapped f then valid G (passed M (mem (world s)) f) ((world s)\<lparr>mem := prepare M f (mem (world s))\<rparr>) else valid_f G f (world s)"
    using ok by (elim conjE)
  then show "wrapped f \<Longrightarrow> valid G (passed M (mem (world s)) f) ((world s)\<lparr>mem := prepare M f (mem (world s))\<rparr>)"
    "\<not> wrapped f \<Longrightarrow> valid_f G f (world s)" by simp_all
qed

lemma ierror_arg: "ierror_of f \<in> int_args f"
  by (cases f) simp_all

section \<open>Steps around another\<close>

text \<open>
  A wrapper that prepares hidden memory before a step, and afterwards stores the result code and
  converts statuses, which are hidden too.
\<close>

lemma keeps_around:
  assumes laws: "mpi_laws G M" and K: "keeps hb G M Q F L g n m' (on_mem pre s) s1"
    and pre: "\<And>a. a \<notin> Q \<Longrightarrow> pre (mem (world s)) a = mem (world s) a"
    and post: "\<And>mm a. a \<notin> Q \<Longrightarrow> h mm a = e mm a" and g: "pointwise g" "pointwise e"
    and same: "\<And>a. a \<in> received_cells M L \<union> vars M F (dom m') \<Longrightarrow> h (mem (world s1)) a = mem (world s1) a"
  shows "keeps hb G M Q F L (\<lambda>mm. e (g mm)) n m' s (on_mem h s1)"
proof -
  have "recording hb G M F (on_mem h s1) m'"
    using K same by (intro recording_on_mem [OF laws]) (simp_all add: keeps_def)
  moreover have "contents M (mem (world (on_mem h s1))) L = contents M (mem (world s1)) L"
    using same by (intro contents_cong) simp
  moreover have "h (mem (world s1)) a = e (g (mem (world s))) a" if a: "a \<notin> hidden M Q m'" "a \<notin> received_cells M L" for a
  proof -
    have "a \<notin> Q" using a by (simp add: hidden_def)
    have "mem (world s1) a = g (pre (mem (world s))) a" using K a by (simp add: keeps_def)
    also have "\<dots> = g (mem (world s)) a" using pre [OF \<open>a \<notin> Q\<close>] by (rule pointwiseD [OF g(1)])
    finally have "e (mem (world s1)) a = e (g (mem (world s))) a" by (rule pointwiseD [OF g(2)])
    then show ?thesis using post [OF \<open>a \<notin> Q\<close>] by simp
  qed
  ultimately show ?thesis using K by (simp add: keeps_def size_of_comm_def)
qed

lemma replays_around:
  assumes R: "replays hb M Q L g n m' mm (on_mem pre r) r1"
    and pre: "\<And>a. a \<notin> Q \<Longrightarrow> pre (mem (world r)) a = mem (world r) a"
    and post: "\<And>mm a. a \<notin> Q \<Longrightarrow> h mm a = e mm a" and g: "pointwise g" "pointwise e"
    and same: "\<And>mm a. a \<in> received_cells M L \<Longrightarrow> e mm a = mm a"
  shows "replays hb M Q L (\<lambda>mm. e (g mm)) n m' mm r (on_mem h r1)"
proof -
  have "h (mem (world r1)) a = (if a \<in> received_cells M L then mm a else e (g (mem (world r))) a)" if a: "a \<notin> Q" for a
  proof (cases "a \<in> received_cells M L")
    case True
    then show ?thesis using R a by (simp add: replays_def post same)
  next
    case False
    then have "mem (world r1) a = g (pre (mem (world r))) a" using R a by (simp add: replays_def)
    also have "\<dots> = g (mem (world r)) a" using pre [OF a] by (rule pointwiseD [OF g(1)])
    finally have "e (mem (world r1)) a = e (g (mem (world r))) a" by (rule pointwiseD [OF g(2)])
    then show ?thesis using False by (simp add: post [OF a])
  qed
  then show ?thesis using R by (simp add: replays_def)
qed

end
