(* ===== verification/Fortran_Capture.thy ===== *)
theory Fortran_Capture
  imports Call_Specs Fortran_Promises
begin

text \<open>The calls of the Fortran interface keep what \<open>Fortran_Promises\<close> says, in the capture.\<close>

lemma on_mem_id [simp]: "on_mem (\<lambda>mm. mm) s = s"
  by (simp add: on_mem_def)

lemma on_mem_same: "f (mem (world s)) = mem (world s) \<Longrightarrow> on_mem f s = s"
  by (simp add: on_mem_def)

lemma on_mem_on_mem: "on_mem f (on_mem g s) = on_mem (\<lambda>mm. f (g mm)) s"
  by (simp add: on_mem_def)

lemma element_0 [simp]: "element n p 0 = p"
  by (simp add: element_def)

lemma locals_1 [simp]:
  "local_requests M (Suc 0) = request_cells M (c_request M)" "local_statuses M (Suc 0) = status_cells M (c_status M)"
  by (simp_all add: local_requests_def local_statuses_def lessThan_Suc UN_Un_distrib)

lemma arg_unchanged:
  assumes "f_call_ok M G Q F m f s" "p \<in> int_args f" "\<And>a. a \<notin> hidden M Q m \<Longrightarrow> mm a = mem (world s) a"
  shows "int_in M mm p = get_int M p s"
  unfolding get_int_def using assms(3) f_call_okD(4) [OF assms(1,2)] by (intro load_int_cong) blast

section \<open>Wrappers of a C function of the libraries\<close>

lemma capture_through:
  assumes laws: "mpi_laws G M" "good_allocator hb M" and s: "recording hb G M F s m" and ok: "f_call_ok M G Q F m f s"
    and k: "is_int (cpt_write s + int (length L))"
    and L: "L = received_f M (size_of_comm M (COMM_WORLD M) s) (MPIre_rank s) (mem (world s)) m f"
    and c: "c = passed M (mem (world s)) f" "wrapped f" and args: "args_ok M G Q F m c (on_mem (prepare M f) s)"
    and same: "received (big_endian M) (size_of_comm M (COMM_WORLD M) s) (MPIre_rank s) (prepare M f (mem (world s))) m c = L"
      "pending_after c m = m" "pending_after_f M (mem (world s)) f m = m" "starts c = 0" "answer_cells c = {}" "answer_cells (in_c M (mem (world s)) f) = {}"
      "controls M c \<subseteq> local_statuses M (copies M (mem (world s)) f)"
    and prep: "\<And>a. a \<notin> local_statuses M (copies M (mem (world s)) f) \<Longrightarrow> prepare M f (mem (world s)) a = mem (world s) a"
    and h: "\<And>mm a. a \<notin> outputs_f M (mem (world s)) f \<Longrightarrow> h mm a = mm a"
    and cap: "capture_f M f s = and_then (capture_call M c (on_mem (prepare M f) s))
      (\<lambda>(ret, s). Inr (on_mem h (put_int M (ierror_of f) ret s)))"
  shows "\<exists>s'. capture_f M f s = Inr s' \<and> keeps hb G M Q F L
      (answers_f M (size_of_comm M (COMM_WORLD M) s) (MPIre_rank s) (mem (world s)) f) 0 m s s'"
proof -
  let ?s0 = "on_mem (prepare M f) s" and ?ierror = "store_int (big_endian M) (ierror_of f) MPI_SUCCESS"
  note D = f_call_okD [OF ok]
  have "locals_ok M Q (vars M F (dom m)) (copies M (mem (world s)) f)" by (rule D(2))
  then have locals: "local_statuses M (copies M (mem (world s)) f) \<subseteq> Q" by (simp add: locals_ok_def)
  have apart: "written_f M G f (world s) \<inter> vars M F (dom m) = {}" using D(8) same(3) by simp
  have unset: "answers be sz rank c' mm = mm" if "answer_cells c' = {}" for be sz rank c' mm
    using that by (cases c') (auto simp: int_cells_def)
  have "written M G c (world ?s0) \<subseteq> written_f M G f (world s)"
    using c(1) same(5,7) by (auto simp: written_def written_f_def)
  then have "call_ok M G Q F m c ?s0"
    using args D(6) [OF c(2)] apart D(9) same(2,3) c(1) by (auto simp: call_ok_def)
  moreover have "recording hb G M F ?s0 m"
    using apart prep by (intro recording_on_mem [OF laws(1) s]) (auto simp: written_f_def)
  moreover have "capture_receives M ?s0 m c = L" using same(1) by (simp add: size_of_comm_def)
  ultimately obtain s1 where s1: "capture_call M c ?s0 = Inr (MPI_SUCCESS, s1)"
    "keeps hb G M Q F L (capture_answers M ?s0 c) 0 m ?s0 s1"
    using capture_step [OF laws, of F ?s0 m Q c] k same(2,4) by auto
  let ?h = "\<lambda>mm. h (?ierror mm)"
  have "keeps hb G M Q F L (\<lambda>mm. ?ierror (capture_answers M ?s0 c mm)) 0 m s (on_mem ?h s1)"
  proof (rule keeps_around [OF laws(1) s1(2)])
    fix a
    assume "a \<notin> Q"
    then show "prepare M f (mem (world s)) a = mem (world s) a" using prep locals by blast
  next
    fix mm a
    assume "a \<notin> Q"
    then show "?h mm a = ?ierror mm a" using h D(3) by blast
  next
    fix a
    assume a: "a \<in> received_cells M L \<union> vars M F (dom m)"
    then have "a \<notin> outputs_f M (mem (world s)) f" "a \<notin> int_cells (ierror_of f)"
      using D(3,5) apart L by (auto simp: written_f_def)
    then show "?h (mem (world s1)) a = mem (world s1) a" using h by (simp add: store_int_frame)
  qed (simp_all add: pointwise_answers pointwise_store_int)
  then have "keeps hb G M Q F L (answers_f M (size_of_comm M (COMM_WORLD M) s) (MPIre_rank s) (mem (world s)) f) 0 m s (on_mem ?h s1)"
    using unset [OF same(5)] unset [OF same(6)] by (simp add: answers_f_def [abs_def])
  moreover have "capture_f M f s = Inr (on_mem ?h s1)"
    using cap s1(1) by (simp add: put_int_def on_mem_on_mem)
  ultimately show ?thesis by blast
qed

lemma store_ierror_and_then:
  "and_then (store_ierror M ierror x) (\<lambda>s. Inr (f s)) = and_then x (\<lambda>(ret, s). Inr (f (put_int M ierror ret s)))"
  by (cases x) (auto simp: store_ierror_def)

lemma capture_recv_f:
  assumes laws: "mpi_laws G M" "fortran_laws G M" "good_allocator hb M" and s: "recording hb G M F s m" and ok: "f_call_ok M G Q F m f s"
    and k: "is_int (cpt_write s + int (length (received_f M (size_of_comm M (COMM_WORLD M) s) (MPIre_rank s) (mem (world s)) m f)))"
    and f: "f = F_Recv b n d source tag comm status ierror"
  shows "\<exists>s'. capture_f M f s = Inr s' \<and> keeps hb G M Q F
      (received_f M (size_of_comm M (COMM_WORLD M) s) (MPIre_rank s) (mem (world s)) m f)
      (answers_f M (size_of_comm M (COMM_WORLD M) s) (MPIre_rank s) (mem (world s)) f) 0 m s s'"
proof -
  note through = capture_through [OF laws(1,3) s ok k refl refl]
  have args: "f_args_ok M F m f s" by (rule f_call_okD(1) [OF ok])
  have conv: "a \<notin> local_statuses M 1 \<Longrightarrow> Status_f2c M status (c_status M) mm a = mm a" for mm a
    using laws(2) conversion_lawsD(3) [of G M] by (simp add: fortran_laws_def)
  have st: "local_statuses M 1 \<subseteq> Q" using f_call_okD(2) [OF ok] by (simp add: f locals_ok_def)
  have ints: "get_int M p (on_mem (Status_f2c M status (c_status M)) s) = get_int M p s" if "p \<in> {n, source, tag}" for p
  proof -
    have "a \<notin> hidden M Q m \<Longrightarrow> Status_f2c M status (c_status M) (mem (world s)) a = mem (world s) a" for a
      using conv st by (auto simp: hidden_def)
    from arg_unchanged [OF ok _ this] that show ?thesis by (auto simp: f get_int_def)
  qed
  show ?thesis
  proof (rule through [where h = "Status_c2f M (c_status M) status"])
    show "args_ok M G Q F m (passed M (mem (world s)) f) (on_mem (prepare M f) s)"
      using args st by (simp add: f world_comm_def rank_of_def size_of_comm_def get_int_def)
    show "prepare M f (mem (world s)) a = mem (world s) a" if "a \<notin> local_statuses M (copies M (mem (world s)) f)" for a
      using conv that by (simp add: f)
    show "Status_c2f M (c_status M) status mm a = mm a" if "a \<notin> outputs_f M (mem (world s)) f" for mm a
      using that laws(2) conversion_lawsD(4) [of G M a status] by (simp add: f fortran_laws_def)
    show "capture_f M f s = and_then (capture_call M (passed M (mem (world s)) f) (on_mem (prepare M f) s))
        (\<lambda>(ret, s). Inr (on_mem (Status_c2f M (c_status M) status) (put_int M (ierror_of f) ret s)))"
    proof -
      have "prepare M f = Status_f2c M status (c_status M)" by (simp add: f fun_eq_iff)
      then show ?thesis using ints by (simp add: f mpi_recv_f_def Let_def store_ierror_and_then) (simp add: get_int_def)
    qed
  qed (simp_all add: f)
qed

lemma capture_through_cases:
  assumes laws: "mpi_laws G M" "fortran_laws G M" "good_allocator hb M" and s: "recording hb G M F s m" and ok: "f_call_ok M G Q F m f s"
    and k: "is_int (cpt_write s + int (length (received_f M (size_of_comm M (COMM_WORLD M) s) (MPIre_rank s) (mem (world s)) m f)))"
    and f: "(\<exists>b n d source tag comm status ierror. f = F_Recv b n d source tag comm status ierror) \<or>
      (\<exists>b n d root comm ierror. f = F_Bcast b n d root comm ierror) \<or>
      (\<exists>sb sn sd rb rn rd comm ierror. f = F_Alltoall sb sn sd rb rn rd comm ierror) \<or>
      (\<exists>sb rb n d op comm ierror. f = F_Allreduce sb rb n d op comm ierror) \<or> (\<exists>ierror. f = F_Finalize ierror)"
  shows "\<exists>s'. capture_f M f s = Inr s' \<and> keeps hb G M Q F
      (received_f M (size_of_comm M (COMM_WORLD M) s) (MPIre_rank s) (mem (world s)) m f)
      (answers_f M (size_of_comm M (COMM_WORLD M) s) (MPIre_rank s) (mem (world s)) f) 0 m s s'"
proof -
  note through = capture_through [OF laws(1,3) s ok k refl refl]
  have args: "f_args_ok M F m f s" by (rule f_call_okD(1) [OF ok])
  have same: "world_comm M comm (on_mem g s) = world_comm M comm s" "size_of_comm M comm (on_mem g s) = size_of_comm M comm s"
    for comm g by (simp_all add: world_comm_def rank_of_def size_of_comm_def)
  from f show ?thesis
  proof (elim disjE exE)
    fix b n d source tag comm status ierror
    assume f: "f = F_Recv b n d source tag comm status ierror"
    then show ?thesis by (rule capture_recv_f [OF laws s ok k])
  next
    fix b n d root comm ierror
    assume f: "f = F_Bcast b n d root comm ierror"
    show ?thesis
    proof (rule through [where h = "\<lambda>mm. mm"])
      show "args_ok M G Q F m (passed M (mem (world s)) f) (on_mem (prepare M f) s)"
        using args by (simp add: f same get_int_def)
    qed (simp_all add: f mpi_bcast_f_def store_ierror_def get_int_def on_mem_same)
  next
    fix sb sn sd rb rn rd comm ierror
    assume f: "f = F_Alltoall sb sn sd rb rn rd comm ierror"
    show ?thesis
    proof (rule through [where h = "\<lambda>mm. mm"])
      show "args_ok M G Q F m (passed M (mem (world s)) f) (on_mem (prepare M f) s)"
        using args by (simp add: f on_mem_same get_int_def world_comm_def)
    qed (simp_all add: f mpi_alltoall_f_def store_ierror_def get_int_def on_mem_same)
  next
    fix sb rb n d op comm ierror
    assume f: "f = F_Allreduce sb rb n d op comm ierror"
    show ?thesis
    proof (rule through [where h = "\<lambda>mm. mm"])
      show "args_ok M G Q F m (passed M (mem (world s)) f) (on_mem (prepare M f) s)"
        using args by (simp add: f same get_int_def)
    qed (simp_all add: f mpi_allreduce_f_def store_ierror_def get_int_def on_mem_same)
  next
    fix ierror
    assume f: "f = F_Finalize ierror"
    show ?thesis
    proof (rule through [where h = "\<lambda>mm. mm"])
      show "args_ok M G Q F m (passed M (mem (world s)) f) (on_mem (prepare M f) s)"
        using args by (simp add: f)
      show "capture_f M f s = and_then (capture_call M (passed M (mem (world s)) f) (on_mem (prepare M f) s))
          (\<lambda>(ret, s). Inr (on_mem (\<lambda>mm. mm) (put_int M (ierror_of f) ret s)))"
        by (simp add: f mpi_finalize_f_def MPI_Finalize_def pmpi_def put_int_def on_mem_def split: prod.split)
    qed (simp_all add: f)
  qed
qed

section \<open>Receives that are started and waited for\<close>

lemma rank_after:
  "\<forall>comm. Comm_rank M comm l = Comm_rank M comm (lib (world s)) \<and> Comm_size M comm l = Comm_size M comm (lib (world s)) \<Longrightarrow>
    size_of_comm M comm (s\<lparr>world := (world s)\<lparr>mem := mm, lib := l\<rparr>\<rparr>) = size_of_comm M comm s"
  by (simp add: size_of_comm_def)

text \<open>The end of MPI_Irecv: the handle is stored and the receive is posted and in the table.\<close>

lemma irecv_keeps:
  assumes laws: "mpi_laws G M" "fortran_laws G M" and s: "recording hb G M F s m" and ok: "f_call_ok M G Q F m f s"
    and f: "f = F_Irecv b n d source tag comm request ierror"
    and r: "r = \<lparr>r_request = request, r_datatype = Type_f2c M (get_int M d s), r_buffer = b, r_bufsize = get_int M n s\<rparr>"
    and comms: "\<forall>comm. Comm_rank M comm l = Comm_rank M comm (lib (world s)) \<and> Comm_size M comm l = Comm_size M comm (lib (world s))"
    and P: "posted G (lib (world s)) h = None" "posted G l = (posted G (lib (world s)))(h \<mapsto> cells_of M r)"
    and frame: "\<And>a. a \<notin> cells_of M r \<Longrightarrow> a \<notin> request_cells M (c_request M) \<Longrightarrow> a \<notin> buffers M m \<Longrightarrow> m1 a = mem (world s) a"
    and s2: "pending hb (big_endian M) s2 (m(request \<mapsto> r))" "card (dom (heap s2)) = Suc (card (dom (heap s)))"
      "s2 = (on_mem g s)\<lparr>heap := heap s2, requestHtab := requestHtab s2\<rparr>"
  shows "keeps hb G M Q F [] (answers_f M (size_of_comm M (COMM_WORLD M) s) (MPIre_rank s) (mem (world s)) f) 1
    (pending_after_f M (mem (world s)) f m) s (s2\<lparr>world := (world s)\<lparr>mem :=
      store_int (big_endian M) request (Request_c2f M h) (store_int (big_endian M) ierror MPI_SUCCESS m1), lib := l\<rparr>\<rparr>)"
proof -
  let ?be = "big_endian M" and ?w = "world s"
  let ?mi = "store_int ?be ierror MPI_SUCCESS m1"
  let ?mF = "store_int ?be request (Request_c2f M h) ?mi"
  let ?s' = "s2\<lparr>world := ?w\<lparr>mem := ?mF, lib := l\<rparr>\<rparr>"
  note conv = conversion_lawsD [of G M]
  have conversions: "conversion_laws G M" using laws(2) by (simp add: fortran_laws_def)
  have args: "f_args_ok M F m f s" and locals: "request_cells M (c_request M) \<subseteq> Q" and out: "int_cells request \<subseteq> Q"
    using f_call_okD(1-3) [OF ok] by (simp_all add: f locals_ok_def)
  have none: "m request = None" and F: "request \<in> F" using args by (simp_all add: f)
  have m': "pending_after_f M (mem ?w) f m = m(request \<mapsto> r)" by (simp add: f r get_int_def)
  have doms: "dom m \<inter> dom (m(request \<mapsto> r)) = dom m" by auto
  have apart: "written_f M G f ?w \<inter> vars M F (dom m) = {}" using f_call_okD(8) [OF ok] unfolding m' doms .
  have "posted G l h \<noteq> None" by (simp add: P)
  then have "is_int (Request_c2f M h)" "Request_f2c M (Request_c2f M h) = h"
    using conv(5,6) [OF conversions] by blast+
  then have handle: "handle_of M F ?mF request = h" using F by (simp add: handle_of_def load_store_int)
  have same: "?mF a = mem ?w a" if "a \<in> vars M F (dom m)" for a
  proof -
    have "a \<notin> written_f M G f ?w" using apart that by blast
    moreover have "a \<notin> buffers M m" using s that by (auto simp: recording_def separate_def)
    ultimately show ?thesis using frame [of a]
      by (simp add: written_f_def f r store_int_frame cells_of_def data_cells_def data_of_def get_int_def)
  qed
  have posted: "posted_ok G M F (world s) m" using s by (simp add: recording_def)
  have "posted_ok G M F (?w\<lparr>mem := ?mF, lib := l\<rparr>) (m(request \<mapsto> r))"
    by (rule posted_ok_new [OF laws(1) posted P(2) none handle same])
  moreover have "logging M ?s'"
    using s comms by (subst s2(3)) (simp add: recording_def logging_def dump_on_def log_dir_def rank_of_def is_dir_def)
  moreover have "separate M F (m(request \<mapsto> r))" using f_call_okD(9) [OF ok] unfolding m' .
  ultimately have "recording hb G M F ?s' (m(request \<mapsto> r))" using s2(1) by (simp add: recording_def)
  moreover have "?mF a = answers_f M (size_of_comm M (COMM_WORLD M) s) (MPIre_rank s) (mem ?w) f (mem ?w) a"
    if a: "a \<notin> hidden M Q (m(request \<mapsto> r))" for a
  proof -
    have "a \<notin> Q" "a \<notin> buffers M m" "a \<notin> cells_of M r"
      using a none by (auto simp: hidden_def buffers_def)
    moreover from this have "m1 a = mem ?w a" "a \<notin> int_cells request"
      using frame [of a] locals out by auto
    ultimately show ?thesis using store_int_agree [of m1 a "mem ?w" ?be ierror MPI_SUCCESS]
      by (simp add: answers_f_def f store_int_frame)
  qed
  ultimately show ?thesis unfolding m'
    using s2(2) comms by (subst (asm) s2(3), subst s2(3)) (simp add: keeps_def size_of_comm_def)
qed

lemma capture_irecv_f:
  assumes laws: "mpi_laws G M" "fortran_laws G M" "good_allocator hb M" and s: "recording hb G M F s m" and ok: "f_call_ok M G Q F m f s"
    and f: "f = F_Irecv b n d source tag comm request ierror"
  shows "\<exists>s'. capture_f M f s = Inr s' \<and> keeps hb G M Q F []
      (answers_f M (size_of_comm M (COMM_WORLD M) s) (MPIre_rank s) (mem (world s)) f) 1
      (pending_after_f M (mem (world s)) f m) s s'"
proof -
  let ?be = "big_endian M" and ?w = "world s"
  note D = f_call_okD [OF ok] and conv = conversion_lawsD [of G M]
  have conversions: "conversion_laws G M" using laws(2) by (simp add: fortran_laws_def)
  have args: "f_args_ok M F m f s" and locals: "request_cells M (c_request M) \<subseteq> Q" and out: "int_cells request \<subseteq> Q"
    using D(1-3) by (simp_all add: f locals_ok_def)
  let ?r = "\<lparr>r_request = request, r_datatype = Type_f2c M (get_int M d s), r_buffer = b, r_bufsize = get_int M n s\<rparr> :: request_t"
  have m': "pending_after_f M (mem ?w) f m = m(request \<mapsto> ?r)" by (simp add: f get_int_def)
  have none: "m request = None" and F: "request \<in> F" using args by (simp_all add: f)
  have doms: "dom m \<inter> dom (m(request \<mapsto> ?r)) = dom m" by auto
  have apart: "written_f M G f ?w \<inter> vars M F (dom m) = {}" using D(8) unfolding m' doms .
  let ?s0 = "on_mem (copy_request M request (c_request M)) s"
  let ?m0 = "copy_request M request (c_request M) (mem ?w)"
  have prep: "a \<notin> request_cells M (c_request M) \<Longrightarrow> ?m0 a = mem ?w a" for a
    using conv(2) [OF conversions] by (simp add: copy_request_def)
  have s0: "recording hb G M F ?s0 m"
    using apart prep by (intro recording_on_mem [OF laws(1) s]) (auto simp: written_f_def f)
  have ints: "get_int M p ?s0 = get_int M p s" if "p \<in> {n, source, tag}" for p
  proof -
    have "a \<notin> hidden M Q m \<Longrightarrow> ?m0 a = mem ?w a" for a using prep locals by (auto simp: hidden_def)
    from arg_unchanged [OF ok _ this] that show ?thesis by (auto simp: f get_int_def)
  qed
  let ?c = "passed M (mem ?w) f"
  have "valid G ?c (world ?s0)" using D(6) by (simp add: f)
  moreover have "posted_ok G M F (world ?s0) m" using s0 by (simp add: recording_def)
  ultimately obtain m1 l where call: "PMPI M ?c (world ?s0) = (MPI_SUCCESS, (world ?s0)\<lparr>mem := m1, lib := l\<rparr>)"
    "\<forall>comm. Comm_rank M comm l = Comm_rank M comm (lib ?w) \<and> Comm_size M comm l = Comm_size M comm (lib ?w)"
    "posts M ?c ?m0 m1 (posted G (lib ?w)) (posted G l)"
    and frame: "\<And>a. a \<notin> cells_of M ?r \<Longrightarrow> a \<notin> request_cells M (c_request M) \<Longrightarrow> a \<notin> buffers M m \<Longrightarrow> m1 a = ?m0 a"
    using mpi_effect [OF laws(1), of ?c "world ?s0" F m] by (auto simp: f cells_of_def data_cells_def data_of_def get_int_def)
  let ?h = "load_request M m1 (c_request M)"
  have P: "posted G (lib ?w) ?h = None" "posted G l = (posted G (lib ?w))(?h \<mapsto> cells_of M ?r)"
    using call(3) by (simp_all add: f cells_of_def data_cells_def data_of_def get_int_def)
  have pend0: "pending hb ?be ?s0 m" and room: "card (dom (heap ?s0)) < max_elems"
    using s args by (simp_all add: recording_def f)
  obtain s2 where s2: "add_request M b (get_int M n s) (Type_f2c M (get_int M d s)) request ?s0 = Inr s2"
    "pending hb ?be s2 (m(request \<mapsto> ?r))" "card (dom (heap s2)) = Suc (card (dom (heap s)))"
    "s2 = ?s0\<lparr>heap := heap s2, requestHtab := requestHtab s2\<rparr>"
    using add_request_pending [where al = M, OF pend0 none laws(3) room, of b "get_int M n s" "Type_f2c M (get_int M d s)"] by auto
  have world2: "world s2 = world ?s0" using s2(1) by (rule add_request_world)
  let ?mi = "store_int ?be ierror MPI_SUCCESS m1"
  let ?mF = "store_int ?be request (Request_c2f M ?h) ?mi"
  let ?s' = "s2\<lparr>world := ?w\<lparr>mem := ?mF, lib := l\<rparr>\<rparr>"
  have visible: "a \<notin> hidden M Q m" if "a \<in> int_cells ierror" for a using D(4) [of ierror] that by (simp add: f)
  have "load_request M ?mi (c_request M) = ?h"
    using visible locals by (intro load_request_cong [OF laws(1)] store_int_frame) (auto simp: hidden_def)
  moreover have "rank_of M (Comm_f2c M (get_int M comm s)) ?s0 = MPIre_rank ?s0"
    using args by (simp add: f world_comm_def rank_of_def)
  moreover have "get_int M p s2 = get_int M p ?s0" for p by (simp add: get_int_def world2)
  ultimately have "capture_f M f s = Inr ?s'"
    using s2(1) call(1) ints world2
    by (simp add: f mpi_irecv_f_def pmpi_def Let_def copy_request_def get_int_def put_int_def on_mem_def)
  moreover have "keeps hb G M Q F []
      (answers_f M (size_of_comm M (COMM_WORLD M) s) (MPIre_rank s) (mem ?w) f) 1 (pending_after_f M (mem ?w) f m) s ?s'"
    by (rule irecv_keeps [OF laws(1,2) s ok f refl call(2) P _ s2(2-4)]) (use frame prep in simp)
  ultimately show ?thesis by blast
qed

text \<open>The end of a wait, from the call of MPI on, for the requests \<open>ks\<close> with the handles \<open>H\<close>.\<close>

lemma capture_waits:
  assumes laws: "mpi_laws G M" and s: "recording hb G M F s m"
    and comms: "\<forall>comm. Comm_rank M comm l = Comm_rank M comm (lib (world s)) \<and> Comm_size M comm l = Comm_size M comm (lib (world s))"
    and P: "posted G l = posted G (lib (world s)) |` (- H)"
    and H: "\<And>k. k \<in> set ks \<Longrightarrow> k \<in> dom m \<Longrightarrow> handle_of M F (mem (world s)) k \<in> H"
    and frame: "\<And>a. a \<notin> Q \<Longrightarrow> a \<notin> buffers M m \<Longrightarrow> m1 a = mem (world s) a"
    and kept: "\<And>a. a \<in> vars M F (dom m - set ks) \<Longrightarrow> h (store_int (big_endian M) ierror MPI_SUCCESS m1) a = mem (world s) a"
    and h: "\<And>mm a. a \<notin> Q \<Longrightarrow> h mm a = mm a"
    and L: "L = map data_of (completed m ks)" "received_cells M L \<inter> Q = {}"
    and k: "is_int (cpt_write s + int (length L))" and n: "\<And>r. r \<in> set (completed m ks) \<Longrightarrow> 0 \<le> r_bufsize r"
  obtains s3 where "for_each ks (\<lambda>k. complete_request M (write_in_file M) k k)
      (put_int M ierror MPI_SUCCESS (s\<lparr>world := (world s)\<lparr>mem := m1, lib := l\<rparr>\<rparr>)) = Inr s3"
    and "\<forall>js rest. ks = js @ rest \<longrightarrow> (\<exists>sj. for_each js (\<lambda>k. complete_request M (write_in_file M) k k)
      (put_int M ierror MPI_SUCCESS (s\<lparr>world := (world s)\<lparr>mem := m1, lib := l\<rparr>\<rparr>)) = Inr sj \<and>
      mem (world sj) = store_int (big_endian M) ierror MPI_SUCCESS m1)"
    and "keeps hb G M Q F L (store_int (big_endian M) ierror MPI_SUCCESS) 0 (m |` (- set ks)) s (on_mem h s3)"
proof -
  let ?mi = "store_int (big_endian M) ierror MPI_SUCCESS m1" and ?m' = "m |` (- set ks)"
  let ?s1 = "s\<lparr>world := (world s)\<lparr>mem := m1, lib := l\<rparr>\<rparr>"
  let ?s2 = "put_int M ierror MPI_SUCCESS ?s1"
  have s2: "?s2 = s\<lparr>world := (world s)\<lparr>mem := ?mi, lib := l\<rparr>\<rparr>" by (simp add: put_int_def on_mem_def)
  have posted: "posted_ok G M F (world s) m" and sep: "separate M F m" and log: "logging M s" and pend: "pending hb (big_endian M) s m"
    using s by (simp_all add: recording_def)
  have log2: "logging M ?s2" unfolding s2 using logging_after [OF log] comms by blast
  have pend2: "pending hb (big_endian M) ?s2 m" using pend by (simp add: s2)
  have k2: "is_int (cpt_write ?s2 + int (length (completed m ks)))" using k by (simp add: s2 L)
  have laws2: "file_laws G M" using laws by (simp add: mpi_laws_def)
  from capture_completes [OF laws2 log2 pend2 n k2] obtain s3 where
    s3: "for_each ks (\<lambda>k. complete_request M (write_in_file M) k k) ?s2 = Inr s3" "took G M L ?s2 s3"
      "pending hb (big_endian M) s3 ?m'" "heap s3 = heap ?s2"
    by (auto simp: L)
  have prefix: "\<exists>sj. for_each js (\<lambda>k. complete_request M (write_in_file M) k k) ?s2 = Inr sj \<and> mem (world sj) = ?mi"
    if js: "ks = js @ rest" for js rest
  proof -
    have "is_int (cpt_write ?s2 + int (length (completed m js)))"
      using k2 log2 by (simp add: js completed_append is_int_def logging_def)
    from capture_completes [OF laws2 log2 pend2 _ this] n obtain sj where
      "for_each js (\<lambda>k. complete_request M (write_in_file M) k k) ?s2 = Inr sj" "took G M (map data_of (completed m js)) ?s2 sj"
      by (auto simp: js completed_append)
    then show ?thesis by (auto simp: took_def s2)
  qed
  have mem3: "mem (world s3) = ?mi" using s3(2) by (simp add: took_def s2)
  have same: "same_comm G M l (lib (world s3))" using s3(2) by (simp add: took_def s2)
  have "posted_ok G M F ((world s)\<lparr>mem := h ?mi, lib := lib (world s3)\<rparr>) ?m'"
  proof (rule posted_ok_done [OF laws posted _ H kept])
    show "posted G (lib (world s3)) = posted G (lib (world s)) |` (- H)" using same P by (simp add: same_comm_def)
  qed
  moreover have "logging M s3" using logging_took [OF log2 s3(2)] k2 by (simp add: L)
  ultimately have rec: "recording hb G M F (on_mem h s3) ?m'"
    using s3(3) separate_restrict [OF sep] by (simp add: recording_def logging_on_mem posted_ok_def mem3)
  have "contents M (mem (world (on_mem h s3))) L = contents M ?mi L"
    using h L(2) by (intro contents_cong) (auto simp: mem3)
  moreover have "h ?mi a = store_int (big_endian M) ierror MPI_SUCCESS (mem (world s)) a"
    if a: "a \<notin> hidden M Q ?m'" "a \<notin> received_cells M L" for a
  proof -
    have "a \<notin> Q" "a \<notin> buffers M m"
      using a buffers_completed [of M m ks] by (auto simp: hidden_def L)
    then show ?thesis using h [of a ?mi] frame [of a] by (simp add: store_int_agree [of m1 a "mem (world s)"])
  qed
  ultimately have "keeps hb G M Q F L (store_int (big_endian M) ierror MPI_SUCCESS) 0 ?m' s (on_mem h s3)"
    using rec s3(2,4) comms same by (simp add: keeps_def took_def s2 mem3 size_of_comm_def same_comm_def)
  then show thesis using that [OF s3(1)] prefix by simp
qed

text \<open>The elements of an array do not overlap, if it fits in memory.\<close>

lemma elements_disjoint:
  assumes "i < n" "j < n" "i \<noteq> j" "sz * n \<le> 2 ^ 64"
  shows "bytes_at sz (element sz p i) \<inter> bytes_at sz (element sz p j) = {}"
proof -
  have False if "x < sz" "y < sz" "element sz p i + word_of_nat x = element sz p j + word_of_nat y" for x y
  proof -
    have "word_of_nat (sz * i + x) = (word_of_nat (sz * j + y) :: ptr)"
      using that(3) by (simp add: element_def add.assoc)
    moreover have "sz * i + x < sz * n" "sz * j + y < sz * n"
      using assms(1,2) that(1,2) mult_le_mono2 [of "Suc i" n sz] mult_le_mono2 [of "Suc j" n sz] by simp_all
    moreover have "k = k'" if "word_of_nat k = (word_of_nat k' :: ptr)" "k < 2 ^ 64" "k' < 2 ^ 64" for k k'
      using that by (simp add: word_of_nat_eq_iff take_bit_nat_eq_self)
    ultimately have "sz * i + x = sz * j + y" using assms(4) by (meson less_le_trans)
    then have "(sz * i + x) div sz = (sz * j + y) div sz" by simp
    then show False using that(1,2) assms(3) by simp
  qed
  then show ?thesis by (auto simp: bytes_at_def)
qed

lemma locals_mono:
  "j \<le> n \<Longrightarrow> local_requests M j \<subseteq> local_requests M n" "j \<le> n \<Longrightarrow> local_statuses M j \<subseteq> local_statuses M n"
  unfolding local_requests_def local_statuses_def by (intro UN_mono; simp)+

text \<open>The handles the wrappers copy to their local variables.\<close>

lemma copies_frame:
  assumes laws: "conversion_laws G M" and a: "a \<notin> local_requests M n" "a \<notin> local_statuses M n"
  shows "fold (copy_slot M requests statuses) [0..<n] mm a = mm a"
  using a
proof (induction n)
  case (Suc n)
  then have "a \<notin> request_cells M (element (sizeof_request M) (c_request M) n)"
    "a \<notin> status_cells M (element (sizeof_status M) (c_status M) n)" "a \<notin> local_requests M n" "a \<notin> local_statuses M n"
    by (auto simp: local_requests_def local_statuses_def)
  then show ?case
    using Suc.IH conversion_lawsD(2,3) [OF laws] by (simp add: copy_slot_def copy_request_def)
qed simp

lemma copies_handle:
  assumes laws: "mpi_laws G M" "conversion_laws G M" and n: "sizeof_request M * n \<le> 2 ^ 64"
    and apart: "local_requests M n \<inter> local_statuses M n = {}" and i: "i < j" "j \<le> n"
    and clear: "int_cells (element 4 requests i) \<inter> (local_requests M n \<union> local_statuses M n) = {}"
  shows "load_request M (fold (copy_slot M requests statuses) [0..<j] mm) (element (sizeof_request M) (c_request M) i) =
    Request_f2c M (int_in M mm (element 4 requests i))"
  using i
proof (induction j)
  case (Suc j)
  let ?p = "\<lambda>i. element (sizeof_request M) (c_request M) i" and ?q = "element (sizeof_status M) (c_status M) j"
  let ?mm = "fold (copy_slot M requests statuses) [0..<j] mm"
  let ?v = "int_in M ?mm (element 4 requests j)"
  have cells: "request_cells M (?p i) \<subseteq> local_requests M n" "status_cells M ?q \<subseteq> local_statuses M n"
    using Suc.prems by (force simp: local_requests_def local_statuses_def)+
  have "load_request M (fold (copy_slot M requests statuses) [0..<Suc j] mm) (?p i) =
      load_request M (store_request M (?p j) (Request_f2c M ?v) ?mm) (?p i)"
    using cells apart by (intro load_request_cong [OF laws(1)])
      (auto simp: copy_slot_def copy_request_def intro!: conversion_lawsD(3) [OF laws(2)])
  also have "\<dots> = Request_f2c M (int_in M mm (element 4 requests i))"
  proof (cases "i = j")
    case True
    have "?mm a = mm a" if "a \<in> int_cells (element 4 requests j)" for a
    proof (rule copies_frame [OF laws(2)])
      have "local_requests M j \<subseteq> local_requests M n" "local_statuses M j \<subseteq> local_statuses M n"
        using Suc.prems by (intro locals_mono; simp)+
      then show "a \<notin> local_requests M j" "a \<notin> local_statuses M j" using clear that True by auto
    qed
    then have "?v = int_in M mm (element 4 requests j)" by (rule load_int_cong)
    then show ?thesis using True conversion_lawsD(1) [OF laws(2) load_int_is_int] by simp
  next
    case False
    then have "request_cells M (?p i) \<inter> request_cells M (?p j) = {}"
      using Suc.prems n by (intro elements_disjoint) auto
    then have "load_request M (store_request M (?p j) (Request_f2c M ?v) ?mm) (?p i) = load_request M ?mm (?p i)"
      by (intro load_request_cong [OF laws(1)] conversion_lawsD(2) [OF laws(2)]) auto
    then show ?thesis using Suc.IH Suc.prems False by simp
  qed
  finally show ?case .
qed simp

text \<open>The waits: from the copies of the requests to the end of the loop over the table.\<close>

lemma wait_on_copies:
  assumes laws: "mpi_laws G M" and s: "recording hb G M F s m"
    and c: "c = Wait (c_request M) (c_status M) \<and> n = 1 \<or> c = Waitall (int n) (c_request M) (c_status M)"
    and valid: "valid G c ((world s)\<lparr>mem := m0\<rparr>)"
    and m0: "\<And>a. a \<in> vars M F (dom m) \<Longrightarrow> m0 a = mem (world s) a"
  shows "\<exists>m1 l. PMPI M c ((world s)\<lparr>mem := m0\<rparr>) = (MPI_SUCCESS, (world s)\<lparr>mem := m1, lib := l\<rparr>) \<and>
    (\<forall>comm. Comm_rank M comm l = Comm_rank M comm (lib (world s)) \<and> Comm_size M comm l = Comm_size M comm (lib (world s))) \<and>
    posted G l = posted G (lib (world s)) |` (- (\<lambda>i. load_request M m0 (element (sizeof_request M) (c_request M) i)) ` {..<n}) \<and>
    (\<forall>a. a \<notin> local_requests M n \<union> local_statuses M n \<longrightarrow> a \<notin> buffers M m \<longrightarrow> m1 a = m0 a)"
proof -
  have "recording hb G M F (on_mem (\<lambda>_. m0) s) m" using m0 by (intro recording_on_mem [OF laws s]) auto
  then have posted: "posted_ok G M F ((world s)\<lparr>mem := m0\<rparr>) m" by (simp add: recording_def)
  have c': "\<nexists>p q. c = Init p q" "receives M G c w = {}" for w using c by (elim disjE conjE; simp)+
  have controls: "controls M c = local_requests M n \<union> local_statuses M n"
    using c by (elim disjE conjE) (simp_all add: local_requests_def local_statuses_def lessThan_Suc UN_Un_distrib)
  obtain m1 l where "PMPI M c ((world s)\<lparr>mem := m0\<rparr>) = (MPI_SUCCESS, (world s)\<lparr>mem := m1, lib := l\<rparr>)"
    "\<forall>comm. Comm_rank M comm l = Comm_rank M comm (lib (world s)) \<and> Comm_size M comm l = Comm_size M comm (lib (world s))"
    and P: "posts M c m0 m1 (posted G (lib (world s))) (posted G l)"
    and frame: "\<And>a. a \<notin> controls M c \<Longrightarrow> a \<notin> buffers M m \<Longrightarrow> m1 a = m0 a"
    using mpi_effect [OF laws valid c'(1) posted] c c'(2) by (auto simp del: controls.simps)
  moreover have "posted G l = posted G (lib (world s)) |` (- (\<lambda>i. load_request M m0 (element (sizeof_request M) (c_request M) i)) ` {..<n})"
    using c P by (auto simp: restrict_complement_singleton_eq lessThan_Suc)
  ultimately show ?thesis unfolding controls by blast
qed

lemma capture_wait_effect:
  assumes laws: "mpi_laws G M" "conversion_laws G M" and s: "recording hb G M F s m"
    and locals: "locals_ok M Q (vars M F (dom m)) n" and m0: "m0 = fold (copy_slot M requests statuses) [0..<n] (mem (world s))"
    and ks: "ks = map (element 4 requests) [0..<n]" "set ks \<subseteq> F"
    and c: "c = Wait (c_request M) (c_status M) \<and> n = 1 \<or> c = Waitall (int n) (c_request M) (c_status M)"
    and valid: "valid G c ((world s)\<lparr>mem := m0\<rparr>)"
    and kept: "\<And>mm a. a \<in> vars M F (dom m - set ks) \<Longrightarrow> a \<notin> int_cells ierror \<and> h mm a = mm a"
    and h: "\<And>mm a. a \<notin> Q \<Longrightarrow> h mm a = mm a"
    and L: "L = map data_of (completed m ks)" "received_cells M L \<inter> Q = {}"
    and k: "is_int (cpt_write s + int (length L))" and sizes: "\<And>r. r \<in> set (completed m ks) \<Longrightarrow> 0 \<le> r_bufsize r"
  obtains m1 l s3 where "PMPI M c ((world s)\<lparr>mem := m0\<rparr>) = (MPI_SUCCESS, (world s)\<lparr>mem := m1, lib := l\<rparr>)"
    and "\<forall>a. a \<notin> Q \<longrightarrow> a \<notin> buffers M m \<longrightarrow> m1 a = mem (world s) a"
    and "for_each ks (\<lambda>k. complete_request M (write_in_file M) k k)
      (put_int M ierror MPI_SUCCESS (s\<lparr>world := (world s)\<lparr>mem := m1, lib := l\<rparr>\<rparr>)) = Inr s3"
    and "\<forall>js rest. ks = js @ rest \<longrightarrow> (\<exists>sj. for_each js (\<lambda>k. complete_request M (write_in_file M) k k)
      (put_int M ierror MPI_SUCCESS (s\<lparr>world := (world s)\<lparr>mem := m1, lib := l\<rparr>\<rparr>)) = Inr sj \<and>
      mem (world sj) = store_int (big_endian M) ierror MPI_SUCCESS m1)"
    and "keeps hb G M Q F L (store_int (big_endian M) ierror MPI_SUCCESS) 0 (m |` (- set ks)) s (on_mem h s3)"
proof -
  let ?w = "world s" and ?H = "(\<lambda>i. load_request M m0 (element (sizeof_request M) (c_request M) i)) ` {..<n}"
  have local_cells: "local_requests M n \<subseteq> Q" "local_statuses M n \<subseteq> Q"
    "(local_requests M n \<union> local_statuses M n) \<inter> vars M F (dom m) = {}"
    using locals by (simp_all add: locals_ok_def)
  have prep: "a \<notin> local_requests M n \<union> local_statuses M n \<Longrightarrow> m0 a = mem ?w a" for a
    unfolding m0 by (rule copies_frame [OF laws(2)]) auto
  have "m0 a = mem ?w a" if "a \<in> vars M F (dom m)" for a using that local_cells(3) prep by blast
  from wait_on_copies [OF laws(1) s c valid this] obtain m1 l where
    call: "PMPI M c (?w\<lparr>mem := m0\<rparr>) = (MPI_SUCCESS, ?w\<lparr>mem := m1, lib := l\<rparr>)"
    "\<forall>comm. Comm_rank M comm l = Comm_rank M comm (lib ?w) \<and> Comm_size M comm l = Comm_size M comm (lib ?w)"
    "posted G l = posted G (lib ?w) |` (- ?H)"
    and frame: "\<And>a. a \<notin> local_requests M n \<union> local_statuses M n \<Longrightarrow> a \<notin> buffers M m \<Longrightarrow> m1 a = m0 a"
    by blast
  have outside: "m1 a = mem ?w a" if "a \<notin> Q" "a \<notin> buffers M m" for a
  proof -
    have a: "a \<notin> local_requests M n \<union> local_statuses M n" using that(1) local_cells(1,2) by auto
    show ?thesis using frame [OF a that(2)] prep [OF a] by simp
  qed
  have H: "handle_of M F (mem ?w) k \<in> ?H" if k: "k \<in> set ks" "k \<in> dom m" for k
  proof -
    obtain i where i: "i < n" "k = element 4 requests i" using k by (auto simp: ks)
    have "k \<in> F" using k ks(2) by blast
    then have "int_cells k \<subseteq> vars M F (dom m)" using k(2) by (auto simp: vars_def request_var_def)
    then have "int_cells (element 4 requests i) \<inter> (local_requests M n \<union> local_statuses M n) = {}"
      using local_cells(3) i by auto
    from copies_handle [OF laws _ _ i(1) order_refl this, of statuses "mem ?w"] locals
    have "load_request M m0 (element (sizeof_request M) (c_request M) i) = handle_of M F (mem ?w) k"
      using \<open>k \<in> F\<close> i by (simp add: m0 handle_of_def locals_ok_def)
    then show ?thesis using i(1) by (metis image_eqI lessThan_iff)
  qed
  have rest: "h (store_int (big_endian M) ierror MPI_SUCCESS m1) a = mem ?w a" if a: "a \<in> vars M F (dom m - set ks)" for a
  proof -
    have "a \<in> vars M F (dom m)" using a by (auto simp: vars_def)
    moreover from this have "a \<notin> buffers M m" using s by (auto simp: recording_def separate_def)
    ultimately have "m1 a = mem ?w a" using local_cells(3) frame [of a] prep [of a] by auto
    then show ?thesis using kept [OF a] by (simp add: store_int_frame)
  qed
  have all: "\<forall>a. a \<notin> Q \<longrightarrow> a \<notin> buffers M m \<longrightarrow> m1 a = mem ?w a" using outside by simp
  show thesis
    by (rule capture_waits [where h = h, OF laws(1) s call(2,3) H outside rest h L k sizes]) (assumption | rule that [OF call(1) all], assumption+)+
qed

lemma capture_wait_f:
  assumes laws: "mpi_laws G M" "fortran_laws G M" and s: "recording hb G M F s m" and ok: "f_call_ok M G Q F m f s"
    and f: "f = F_Wait request status ierror" and L: "L = map data_of (completed m [request])"
    and k: "is_int (cpt_write s + int (length L))"
  shows "\<exists>s'. capture_f M f s = Inr s' \<and>
    keeps hb G M Q F L (store_int (big_endian M) ierror MPI_SUCCESS) 0 (m |` (- {request})) s s'"
proof -
  let ?w = "world s" and ?h = "Status_c2f M (c_status M) status" and ?c = "Wait (c_request M) (c_status M)"
  note D = f_call_okD [OF ok]
  have conversions: "conversion_laws G M" using laws(2) by (simp add: fortran_laws_def)
  note h = conversion_lawsD(4) [OF conversions]
  have locals: "locals_ok M Q (vars M F (dom m)) 1" and args: "f_args_ok M F m f s" and out: "status_cells M status \<subseteq> Q"
    using D(1-3) by (simp_all add: f)
  have m0: "prepare M f (mem ?w) = fold (copy_slot M request status) [0..<1] (mem ?w)" by (simp add: f copy_slot_def)
  have ks: "[request] = map (element 4 request) [0..<1]" "set [request] \<subseteq> F" using args by (simp_all add: f)
  have c: "?c = Wait (c_request M) (c_status M) \<and> (1 :: nat) = 1 \<or> ?c = Waitall (int 1) (c_request M) (c_status M)" by simp
  have valid: "valid G ?c (?w\<lparr>mem := prepare M f (mem ?w)\<rparr>)" using D(6) by (simp add: f)
  have apart: "written_f M G f ?w \<inter> vars M F (dom m - set [request]) = {}"
    using D(8) dom_kept [of m "{request}"] by (simp add: f)
  have kept: "a \<notin> int_cells ierror \<and> ?h mm a = mm a" if "a \<in> vars M F (dom m - set [request])" for mm a
  proof -
    have "a \<notin> written_f M G f ?w" using apart that by blast
    then show ?thesis using h [of a status "c_status M" mm] by (simp add: written_f_def f)
  qed
  have local: "?h mm a = mm a" if "a \<notin> Q" for mm a using h out that by blast
  have apart2: "received_cells M L \<inter> Q = {}" using D(5) by (auto simp: f L simp del: completed.simps)
  have sizes: "0 \<le> r_bufsize r" if "r \<in> set (completed m [request])" for r
    using args that by (auto simp: f split: option.splits)
  obtain m1 l s3 where call: "PMPI M ?c (?w\<lparr>mem := prepare M f (mem ?w)\<rparr>) = (MPI_SUCCESS, ?w\<lparr>mem := m1, lib := l\<rparr>)"
    and s3: "for_each [request] (\<lambda>k. complete_request M (write_in_file M) k k)
      (put_int M ierror MPI_SUCCESS (s\<lparr>world := ?w\<lparr>mem := m1, lib := l\<rparr>\<rparr>)) = Inr s3"
    "keeps hb G M Q F L (store_int (big_endian M) ierror MPI_SUCCESS) 0 (m |` (- set [request])) s (on_mem ?h s3)"
    by (rule capture_wait_effect [where Q = Q and h = ?h and ierror = ierror, OF laws(1) conversions s locals m0 ks c valid kept local L apart2 k sizes])
    (assumption | rule that, assumption+)+
  have "rank_of M (COMM_WORLD M) s = MPIre_rank s" using s by (simp add: recording_def logging_def)
  then have "capture_f M f s = Inr (on_mem ?h s3)"
    using call s3(1)
    by (simp add: f mpi_wait_f_def Let_def pmpi_def rank_of_def copy_request_def get_int_def put_int_def on_mem_def)
  then show ?thesis using s3(2) by auto
qed

lemma fold_frame: "(\<And>i mm. i \<in> set is \<Longrightarrow> f i mm a = mm a) \<Longrightarrow> fold f is mm a = (mm a :: 'b)"
  by (induction "is" arbitrary: mm) simp_all

text \<open>A loop over an array that changes memory, but not its bound.\<close>

lemma count_up_on_mem:
  assumes n: "get_int M cnt s = n" "0 \<le> n"
    and frame: "\<And>j a. j \<le> nat n \<Longrightarrow> a \<in> int_cells cnt \<Longrightarrow> fold f [0..<j] (mem (world s)) a = mem (world s) a"
  shows "count_up (get_int M cnt) (\<lambda>i s. Inr (on_mem (f i) s)) 0 s = Inr (on_mem (fold f [0..<nat n]) s)"
proof -
  have "count_up (get_int M cnt) (\<lambda>i s. Inr (on_mem (f i) s)) 0 s = for_each [0..<nat n] (\<lambda>i s. Inr (on_mem (f i) s)) s"
  proof (rule count_up_steps)
    fix j
    assume j: "j \<le> nat n"
    have "get_int M cnt (on_mem (fold f [0..<j]) s) = n"
      using get_int_cong [of cnt "on_mem (fold f [0..<j]) s" s M] frame [OF j] n(1) by simp
    then show "\<exists>sj. for_each [0..<j] (\<lambda>i s. Inr (on_mem (f i) s)) s = Inr sj \<and> get_int M cnt sj = int (nat n)"
      using n(2) by (simp add: for_each_on_mem)
  qed (use is_int_nat [OF get_int_is_int [of M cnt s]] n(1) in auto)
  then show ?thesis by (simp add: for_each_on_mem)
qed

lemma array_prefix:
  assumes "j \<le> nat n"
  shows "request_array requests n = map (element 4 requests) [0..<j] @ map (element 4 requests) [j..<nat n]"
  using upt_add_eq_append [of 0 j "nat n - j"] assms by (simp add: request_array_def flip: map_append)

text \<open>The loops of MPI_Waitall, whose bound is read from memory that none of them changes.\<close>

lemma waitall_loops:
  assumes ks: "ks = request_array requests n" and n: "get_int M cnt s = n" "1 \<le> n"
    and s3: "for_each ks f s2 = Inr s3" "\<And>js rest. ks = js @ rest \<Longrightarrow> \<exists>sj. for_each js f s2 = Inr sj \<and> get_int M cnt sj = n"
    and copy: "\<And>j a. j \<le> nat n \<Longrightarrow> a \<in> int_cells cnt \<Longrightarrow> fold g [0..<j] (mem (world s)) a = mem (world s) a"
    and h: "\<And>j a. j \<le> nat n \<Longrightarrow> a \<in> int_cells cnt \<Longrightarrow> fold h [0..<j] (mem (world s3)) a = mem (world s3) a"
  shows "count_up (get_int M cnt) (\<lambda>i s. Inr (on_mem (g i) s)) 0 s = Inr (on_mem (fold g [0..<nat n]) s)"
    "get_int M cnt (on_mem (fold g [0..<nat n]) s) = n" "get_int M cnt s2 = n"
    "count_up (get_int M cnt) (\<lambda>i. f (element 4 requests i)) 0 s2 = Inr s3"
    "count_up (get_int M cnt) (\<lambda>i s. Inr (on_mem (h i) s)) 0 s3 = Inr (on_mem (fold h [0..<nat n]) s3)"
proof -
  show "count_up (get_int M cnt) (\<lambda>i s. Inr (on_mem (g i) s)) 0 s = Inr (on_mem (fold g [0..<nat n]) s)"
    using n copy by (intro count_up_on_mem) simp_all
  show "get_int M cnt (on_mem (fold g [0..<nat n]) s) = n"
    using get_int_cong [of cnt "on_mem (fold g [0..<nat n]) s" s M] copy n(1) by simp
  show s2: "get_int M cnt s2 = n" using s3(2) [of "[]"] by simp
  have "count_up (get_int M cnt) (\<lambda>i. f (element 4 requests i)) 0 s2 = for_each [0..<nat n] (\<lambda>i. f (element 4 requests i)) s2"
  proof (rule count_up_steps)
    fix j
    assume "j \<le> nat n"
    then have "ks = map (element 4 requests) [0..<j] @ map (element 4 requests) [j..<nat n]" unfolding ks by (rule array_prefix)
    from s3(2) [OF this] obtain sj where "for_each (map (element 4 requests) [0..<j]) f s2 = Inr sj" "get_int M cnt sj = n" by blast
    then show "\<exists>sj. for_each [0..<j] (\<lambda>i. f (element 4 requests i)) s2 = Inr sj \<and> get_int M cnt sj = int (nat n)"
      using n(2) by (simp add: for_each_map)
  qed (use is_int_nat [OF get_int_is_int [of M cnt s]] n in auto)
  then show "count_up (get_int M cnt) (\<lambda>i. f (element 4 requests i)) 0 s2 = Inr s3"
    using s3(1) by (simp add: ks request_array_def for_each_map)
  have "get_int M cnt s3 = n" using s3(2) [of ks "[]"] s3(1) by simp
  then show "count_up (get_int M cnt) (\<lambda>i s. Inr (on_mem (h i) s)) 0 s3 = Inr (on_mem (fold h [0..<nat n]) s3)"
    using n(2) h by (intro count_up_on_mem) simp_all
qed

lemma capture_waitall_runs:
  assumes s: "rank_of M (COMM_WORLD M) s = MPIre_rank s" and n: "get_int M cnt s = n" "1 \<le> n"
    and call: "PMPI M (Waitall n (c_request M) (c_status M)) ((world s)\<lparr>mem := fold (copy_slot M requests statuses) [0..<nat n] (mem (world s))\<rparr>) =
      (MPI_SUCCESS, (world s)\<lparr>mem := m1, lib := l\<rparr>)"
    and s1: "s1 = s\<lparr>world := (world s)\<lparr>mem := m1, lib := l\<rparr>\<rparr>" and s2: "s2 = put_int M ierror MPI_SUCCESS s1"
    and loops: "count_up (get_int M cnt) (\<lambda>i s. Inr (on_mem (copy_slot M requests statuses i) s)) 0 s =
        Inr (on_mem (fold (copy_slot M requests statuses) [0..<nat n]) s)"
      "get_int M cnt (on_mem (fold (copy_slot M requests statuses) [0..<nat n]) s) = n" "get_int M cnt s2 = n"
      "count_up (get_int M cnt) (\<lambda>i. complete_request M (write_in_file M) (element 4 requests i) (element 4 requests i)) 0 s2 = Inr s3"
      "count_up (get_int M cnt) (\<lambda>i s. Inr (on_mem (Status_c2f M (element (sizeof_status M) (c_status M) i) (element 4 statuses i)) s)) 0 s3 =
        Inr s4"
  shows "mpi_waitall_f M cnt requests statuses ierror s = Inr s4"
proof -
  have slot: "count_up (get_int M cnt) (\<lambda>i s. Inr (on_mem (Status_f2c M (element 4 statuses i) (element (sizeof_status M) (c_status M) i))
      (on_mem (store_request M (element (sizeof_request M) (c_request M) i)
        (Request_f2c M (get_int M (element 4 requests i) s))) s))) 0 s =
      Inr (on_mem (fold (copy_slot M requests statuses) [0..<nat n]) s)"
    using loops(1) by (simp add: copy_slot_def copy_request_def on_mem_def get_int_def)
  have "pmpi M (Waitall n (c_request M) (c_status M)) (on_mem (fold (copy_slot M requests statuses) [0..<nat n]) s) =
      (MPI_SUCCESS, s\<lparr>world := (world s)\<lparr>mem := m1, lib := l\<rparr>\<rparr>)"
    using call by (simp add: pmpi_def on_mem_def)
  then have call: "pmpi M (Waitall n (c_request M) (c_status M)) (on_mem (fold (copy_slot M requests statuses) [0..<nat n]) s) =
      (MPI_SUCCESS, s1)" by (simp add: s1)
  have "MPIre_rank s2 = MPIre_rank s" by (simp add: s1 s2 put_int_def)
  then show ?thesis
    unfolding mpi_waitall_f_def slot and_then_simps Let_def loops(2) call prod.case s2 [symmetric] loops(3) loops(4)
    using s n loops(4,5) by simp
qed

lemma capture_waitall_f:
  assumes laws: "mpi_laws G M" "fortran_laws G M" and s: "recording hb G M F s m" and ok: "f_call_ok M G Q F m f s"
    and f: "f = F_Waitall cnt requests statuses ierror" and n: "n = get_int M cnt s" and ks: "ks = request_array requests n"
    and L: "L = map data_of (completed m ks)" and k: "is_int (cpt_write s + int (length L))"
  shows "\<exists>s'. capture_f M f s = Inr s' \<and>
    keeps hb G M Q F L (store_int (big_endian M) ierror MPI_SUCCESS) 0 (m |` (- set ks)) s s'"
proof -
  let ?w = "world s" and ?slot = "copy_slot M requests statuses" and ?n = "nat n" and ?c = "Waitall n (c_request M) (c_status M)"
  let ?h = "\<lambda>i. Status_c2f M (element (sizeof_status M) (c_status M) i) (element 4 statuses i)"
  note D = f_call_okD [OF ok]
  have conversions: "conversion_laws G M" using laws(2) by (simp add: fortran_laws_def)
  have n': "int_in M (mem ?w) cnt = n" by (simp add: n get_int_def)
  have locals: "locals_ok M Q (vars M F (dom m)) ?n" and args: "f_args_ok M F m f s"
    and out: "(\<Union>i<?n. status_cells M (element 4 statuses i)) \<subseteq> Q"
    using D(1-3) by (simp_all add: f n')
  have n1: "1 \<le> n" and F: "set ks \<subseteq> F" and clear: "int_cells cnt \<inter> int_cells ierror = {}" and sizes: "\<forall>r \<in> ran m. 0 \<le> r_bufsize r"
    using args by (simp_all add: f n ks)
  have visible: "a \<notin> hidden M Q m" if "a \<in> int_cells cnt" for a using D(4) [of cnt] that by (simp add: f)
  have h: "fold ?h [0..<j] mm a = mm a" if "a \<notin> (\<Union>i<?n. status_cells M (element 4 statuses i))" "j \<le> ?n" for mm a j
    using that by (intro fold_frame conversion_lawsD(4) [OF conversions]) auto
  have apart: "written_f M G f ?w \<inter> vars M F (dom m - set ks) = {}"
    using D(8) dom_kept [of m "set ks"] by (simp add: f n' ks)
  have kept: "a \<notin> int_cells ierror \<and> fold ?h [0..<?n] mm a = mm a" if "a \<in> vars M F (dom m - set ks)" for mm a
  proof -
    have "a \<notin> written_f M G f ?w" using apart that by blast
    then show ?thesis using h [of a ?n] by (simp add: written_f_def f n')
  qed
  have c: "?c = Wait (c_request M) (c_status M) \<and> ?n = 1 \<or> ?c = Waitall (int ?n) (c_request M) (c_status M)" using n1 by simp
  have valid: "valid G ?c (?w\<lparr>mem := fold ?slot [0..<?n] (mem ?w)\<rparr>)" using D(6) by (simp add: f n')
  have local: "fold ?h [0..<?n] mm a = mm a" if "a \<notin> Q" for mm a using h out that by blast
  have apart2: "received_cells M L \<inter> Q = {}" using D(5) by (auto simp: f L n' ks simp del: completed.simps)
  have sizes': "0 \<le> r_bufsize r" if "r \<in> set (completed m ks)" for r using sizes completed_ran [OF that] by blast
  obtain m1 l s3 where call: "PMPI M ?c (?w\<lparr>mem := fold ?slot [0..<?n] (mem ?w)\<rparr>) = (MPI_SUCCESS, ?w\<lparr>mem := m1, lib := l\<rparr>)"
    and outside: "\<forall>a. a \<notin> Q \<longrightarrow> a \<notin> buffers M m \<longrightarrow> m1 a = mem ?w a"
    and s3: "for_each ks (\<lambda>k. complete_request M (write_in_file M) k k)
      (put_int M ierror MPI_SUCCESS (s\<lparr>world := ?w\<lparr>mem := m1, lib := l\<rparr>\<rparr>)) = Inr s3"
    "\<forall>js rest. ks = js @ rest \<longrightarrow> (\<exists>sj. for_each js (\<lambda>k. complete_request M (write_in_file M) k k)
      (put_int M ierror MPI_SUCCESS (s\<lparr>world := ?w\<lparr>mem := m1, lib := l\<rparr>\<rparr>)) = Inr sj \<and>
      mem (world sj) = store_int (big_endian M) ierror MPI_SUCCESS m1)"
    "keeps hb G M Q F L (store_int (big_endian M) ierror MPI_SUCCESS) 0 (m |` (- set ks)) s (on_mem (fold ?h [0..<?n]) s3)"
    by (rule capture_wait_effect [where Q = Q and h = "fold ?h [0..<?n]" and ierror = ierror, OF laws(1) conversions s locals refl
      ks [unfolded request_array_def] F c valid kept local L apart2 k sizes'])
    (assumption | rule that, assumption+)+
  let ?s2 = "put_int M ierror MPI_SUCCESS (s\<lparr>world := ?w\<lparr>mem := m1, lib := l\<rparr>\<rparr>)"
  have count: "get_int M cnt s' = n" if "mem (world s') = store_int (big_endian M) ierror MPI_SUCCESS m1" for s' :: "('a, 'b) capture_scheme"
  proof -
    have "mem (world s') a = mem ?w a" if a: "a \<in> int_cells cnt" for a
    proof -
      have "a \<notin> int_cells ierror" using a clear by blast
      then show ?thesis
        using visible [OF a] outside [rule_format, of a] \<open>mem (world s') = _\<close> by (simp add: hidden_def store_int_frame)
    qed
    then show ?thesis using get_int_cong [of cnt s' s M] n by simp
  qed
  have steps: "\<exists>sj. for_each js (\<lambda>k. complete_request M (write_in_file M) k k) ?s2 = Inr sj \<and> get_int M cnt sj = n" if "ks = js @ rest" for js rest
    using s3(2) [rule_format, OF that] count by blast
  have copied: "fold ?slot [0..<j] (mem ?w) a = mem ?w a" if "j \<le> ?n" "a \<in> int_cells cnt" for j a
    using visible [OF that(2)] locals locals_mono [OF that(1), of M]
    by (intro copies_frame [OF conversions]) (auto simp: hidden_def locals_ok_def)
  have stored: "fold ?h [0..<j] (mem (world s3)) a = mem (world s3) a" if "j \<le> ?n" "a \<in> int_cells cnt" for j a
    using visible [OF that(2)] out that(1) by (intro h) (auto simp: hidden_def)
  have rank: "rank_of M (COMM_WORLD M) s = MPIre_rank s" using s by (simp add: recording_def logging_def)
  note loops = waitall_loops [where f = "\<lambda>k. complete_request M (write_in_file M) k k", OF ks n [symmetric] n1 s3(1) steps copied stored]
  have "mpi_waitall_f M cnt requests statuses ierror s = Inr (on_mem (fold ?h [0..<?n]) s3)"
    by (rule capture_waitall_runs [OF rank n [symmetric] n1 call refl refl loops])
  then show ?thesis using s3(3) by (auto simp: f)
qed

section \<open>Functions without a wrapper\<close>

lemma capture_other:
  assumes laws: "mpi_laws G M" "fortran_laws G M" and s: "recording hb G M F s m" and ok: "f_call_ok M G Q F m f s"
    and f: "\<not> wrapped f"
  shows "\<exists>s'. capture_f M f s = Inr s' \<and> keeps hb G M Q F []
      (answers_f M (size_of_comm M (COMM_WORLD M) s) (MPIre_rank s) (mem (world s)) f) 0 m s s'"
proof -
  let ?w = "world s" and ?be = "big_endian M"
  note D = f_call_okD [OF ok]
  have args: "f_args_ok M F m f s" by (rule D(1))
  have "other_law G M f ?w" using laws(2) D(7) [OF f] by (simp add: fortran_laws_def)
  then obtain m1 l where call: "PMPI_f M f ?w = ?w\<lparr>mem := m1, lib := l\<rparr>" "same_comm G M (lib ?w) l"
    and law: "\<And>a. a \<notin> controls_f M f \<Longrightarrow> a \<notin> \<Union> (ran (posted G (lib ?w))) \<Longrightarrow>
      m1 a = store_int ?be (ierror_of f) MPI_SUCCESS (case f of
                 F_Rank comm p ierror \<Rightarrow> store_int ?be p (Comm_rank M (Comm_f2c M (int_in M (mem ?w) comm)) (lib ?w)) (mem ?w)
               | F_Size comm p ierror \<Rightarrow> store_int ?be p (Comm_size M (Comm_f2c M (int_in M (mem ?w) comm)) (lib ?w)) (mem ?w)
               | _ \<Rightarrow> mem ?w) a"
    unfolding other_law_def by blast
  have posted: "posted_ok G M F ?w m" and sep: "separate M F m" using s by (simp_all add: recording_def)
  let ?g = "answers_f M (size_of_comm M (COMM_WORLD M) s) (MPIre_rank s) (mem ?w) f"
  have "(case f of
                 F_Rank comm p ierror \<Rightarrow> store_int ?be p (Comm_rank M (Comm_f2c M (int_in M (mem ?w) comm)) (lib ?w)) (mem ?w)
               | F_Size comm p ierror \<Rightarrow> store_int ?be p (Comm_size M (Comm_f2c M (int_in M (mem ?w) comm)) (lib ?w)) (mem ?w)
               | _ \<Rightarrow> mem ?w) = answers ?be (size_of_comm M (COMM_WORLD M) s) (MPIre_rank s) (in_c M (mem ?w) f) (mem ?w)"
    using args f by (cases f) (simp_all add: world_comm_def rank_of_def size_of_comm_def get_int_def)
  then have frame: "m1 a = ?g (mem ?w) a" if "a \<notin> outputs_f M (mem ?w) f" "a \<notin> buffers M m" for a
    using that f law [of a] posted_buffers [OF posted] by (cases f) (auto simp: answers_f_def)
  have m': "pending_after_f M (mem ?w) f m = m" using f by (cases f) simp_all
  have apart: "written_f M G f ?w \<inter> vars M F (dom m) = {}" using D(8) unfolding m' by simp
  let ?s' = "s\<lparr>world := ?w\<lparr>mem := m1, lib := l\<rparr>\<rparr>"
  have "posted_ok G M F (?w\<lparr>mem := m1, lib := l\<rparr>) m"
  proof (rule posted_ok_kept [OF laws(1) posted])
    fix a
    assume a: "a \<in> vars M F (dom m)"
    then have "a \<notin> buffers M m" "a \<notin> written_f M G f ?w" using sep apart by (auto simp: separate_def)
    moreover from this have "?g (mem ?w) a = mem ?w a"
      using f by (cases f) (simp_all add: answers_f_def written_f_def store_int_frame)
    ultimately show "m1 a = mem ?w a" using frame [of a] by (simp add: written_f_def)
  qed (use call(2) in \<open>simp add: same_comm_def\<close>)
  moreover have "logging M ?s'" using s call(2) logging_after [of M s l m1] by (simp add: recording_def same_comm_def)
  ultimately have "recording hb G M F ?s' m" using s by (simp add: recording_def)
  moreover have "m1 a = ?g (mem ?w) a" if "a \<notin> hidden M Q m" for a
    using frame [of a] D(3) that by (auto simp: hidden_def)
  ultimately have "keeps hb G M Q F [] ?g 0 m s ?s'"
    using call(2) by (simp add: keeps_def size_of_comm_def same_comm_def)
  moreover have "capture_f M f s = Inr ?s'" using f call(1) by (cases f) (simp_all add: pmpi_f_def)
  ultimately show ?thesis by blast
qed

section \<open>The capture\<close>

fun starts_f :: "f_call \<Rightarrow> nat" where
  "starts_f (F_Irecv b n d source tag comm request ierror) = 1"
| "starts_f f = 0"

lemma capture_f_step:
  assumes laws: "mpi_laws G M" "fortran_laws G M" "good_allocator hb M" and s: "recording hb G M F s m" and ok: "f_call_ok M G Q F m f s"
    and L: "L = received_f M (size_of_comm M (COMM_WORLD M) s) (MPIre_rank s) (mem (world s)) m f"
    and k: "is_int (cpt_write s + int (length L))"
  shows "\<exists>s'. capture_f M f s = Inr s' \<and> keeps hb G M Q F L
      (answers_f M (size_of_comm M (COMM_WORLD M) s) (MPIre_rank s) (mem (world s)) f) (starts_f f)
      (pending_after_f M (mem (world s)) f m) s s'"
proof -
  have args: "f_args_ok M F m f s" by (rule f_call_okD(1) [OF ok])
  note through = capture_through_cases [OF laws s ok k [unfolded L]]
  show ?thesis
  proof (cases f)
    case (F_Irecv b n d source tag comm request ierror)
    then show ?thesis using capture_irecv_f [OF laws s ok F_Irecv] by (simp add: L)
  next
    case (F_Wait request status ierror)
    then have "L = map data_of (completed m [request])" by (simp add: L)
    from capture_wait_f [OF laws(1,2) s ok F_Wait this k] show ?thesis
      by (simp add: F_Wait answers_f_def [abs_def])
  next
    case (F_Waitall n requests statuses ierror)
    then have "L = map data_of (completed m (request_array requests (get_int M n s)))" by (simp add: L get_int_def)
    from capture_waitall_f [OF laws(1,2) s ok F_Waitall refl refl this k] show ?thesis
      by (simp add: F_Waitall answers_f_def [abs_def] get_int_def)
  next
    case (F_Recv b n d source tag comm status ierror)
    then show ?thesis using through by (simp add: L)
  next
    case (F_Bcast b n d root comm ierror)
    then show ?thesis using through by (simp add: L)
  next
    case (F_Alltoall sb sn sd rb rn rd comm ierror)
    then show ?thesis using through by (simp add: L)
  next
    case (F_Allreduce sb rb n d op comm ierror)
    then show ?thesis using through by (simp add: L)
  next
    case (F_Finalize ierror)
    then show ?thesis using through by (simp add: L)
  qed (use args capture_other [OF laws(1,2) s ok] in \<open>simp_all add: L\<close>)
qed

end
