(* ===== verification/Fortran_Replay.thy ===== *)
theory Fortran_Replay
  imports Fortran_Capture
begin

text \<open>The calls of the Fortran interface keep what \<open>Fortran_Promises\<close> says, in the replay.\<close>

lemma args_in_step:
  assumes "f_call_ok M G Q F m f s" "in_step hb M Q m s r" "big_endian M' = big_endian M"
    "p \<in> int_args f" "\<And>a. a \<notin> Q \<Longrightarrow> mm a = mem (world r) a"
  shows "int_in M' mm p = get_int M p s"
  using arg_unchanged [OF assms(1,4), of mm] assms(2,3,5) by (simp add: in_step_def agree_def hidden_def)

section \<open>Wrappers of a C function of the library\<close>

lemma gave_ierror:
  assumes "gave M mm L r r1" "pending hb (big_endian M) r1 m'" "card (dom (heap r1)) = card (dom (heap r)) + n"
    "received_cells M L \<inter> int_cells ierror = {}" "big_endian M' = big_endian M"
  shows "replays hb M Q L (store_int (big_endian M) ierror MPI_SUCCESS) n m' mm r (put_int M' ierror MPI_SUCCESS r1)"
proof -
  let ?g = "store_int (big_endian M) ierror MPI_SUCCESS"
  have "?g (mem (world r1)) a = (if a \<in> received_cells M L then mm a else ?g (mem (world r)) a)" for a
  proof (cases "a \<in> received_cells M L")
    case True
    then have "a \<notin> int_cells ierror" using assms(4) by blast
    then show ?thesis using True assms(1) by (simp add: store_int_frame gave_def)
  next
    case False
    then show ?thesis using assms(1) by (simp add: gave_def store_int_agree [of "mem (world r1)" a "mem (world r)"])
  qed
  then show ?thesis using assms by (simp add: replays_def gave_def put_int_def)
qed

lemma in_step_on_mem:
  assumes "in_step hb M Q m s r" "\<And>a. a \<notin> Q \<Longrightarrow> pre (mem (world r)) a = mem (world r) a"
  shows "in_step hb M Q m s (on_mem pre r)"
  using assms by (simp add: in_step_def agree_def hidden_def)

lemma replay_through:
  assumes M': "compatible hb Q G' M' M" and ok: "f_call_ok M G Q F m f s" and r: "in_step hb M Q m s r"
    and L: "L = received_f M (size_of_comm M (COMM_WORLD M) s) (MPIre_rank s) (mem (world s)) m f"
    and rd: "reading (length L) r" and av: "available M mm L r"
    and args: "args_ok M G Q F m c s" and same: "capture_receives M s m c = L" "pending_after c m = m" "starts c = 0"
      "answer_cells c = {}" "answer_cells (in_c M (mem (world s)) f) = {}"
    and pre: "\<And>a. a \<notin> Q \<Longrightarrow> pre (mem (world r)) a = mem (world r) a"
    and rep: "replay_f M' f r = and_then (replay_call M' c (on_mem pre r)) (\<lambda>(ret, r). Inr (put_int M' (ierror_of f) ret r))"
  shows "\<exists>r'. replay_f M' f r = Inr r' \<and> replays hb M Q L
      (answers_f M (size_of_comm M (COMM_WORLD M) s) (MPIre_rank s) (mem (world s)) f) 0 m mm r r'"
proof -
  let ?e = "store_int (big_endian M) (ierror_of f) MPI_SUCCESS"
  have unset: "answers be sz rank c' mm = mm" if "answer_cells c' = {}" for be sz rank c' mm
    using that by (cases c') (auto simp: int_cells_def)
  have r0: "in_step hb M Q m s (on_mem pre r)" using r by (rule in_step_on_mem) (rule pre)
  have rd0: "reading (length L) (on_mem pre r)" using rd by (simp add: reading_def)
  have av0: "available M mm L (on_mem pre r)" using av by (simp add: available_def)
  obtain r1 where r1: "replay_call M' c (on_mem pre r) = Inr (MPI_SUCCESS, r1)"
    "replays hb M Q L (capture_answers M s c) 0 m mm (on_mem pre r) r1"
    using replay_step [OF M' args r0 same(1) [symmetric] rd0 av0] same(2,3) by auto
  have "replays hb M Q L (\<lambda>mm. ?e (capture_answers M s c mm)) 0 m mm r (on_mem ?e r1)"
  proof (rule replays_around [OF r1(2)])
    show "pre (mem (world r)) a = mem (world r) a" if "a \<notin> Q" for a using that by (rule pre)
  next
    fix mm a
    assume "a \<in> received_cells M L"
    then have "a \<notin> int_cells (ierror_of f)" using f_call_okD(5) [OF ok] L by blast
    then show "?e mm a = mm a" by (rule store_int_frame)
  qed (simp_all add: pointwise_answers pointwise_store_int)
  then have "replays hb M Q L (answers_f M (size_of_comm M (COMM_WORLD M) s) (MPIre_rank s) (mem (world s)) f) 0 m mm r (on_mem ?e r1)"
    using unset [OF same(4)] unset [OF same(5)] by (simp add: answers_f_def [abs_def])
  moreover have "replay_f M' f r = Inr (on_mem ?e r1)"
    using rep r1(1) compatibleD(4) [OF M'] by (simp add: put_int_def)
  ultimately show ?thesis by blast
qed

lemma replay_recv_f:
  assumes M': "compatible hb Q G' M' M" and ok: "f_call_ok M G Q F m f s" and r: "in_step hb M Q m s r"
    and L: "L = received_f M (size_of_comm M (COMM_WORLD M) s) (MPIre_rank s) (mem (world s)) m f"
    and rd: "reading (length L) r" and av: "available M mm L r"
    and f: "f = F_Recv b n d source tag comm status ierror"
  shows "\<exists>r'. replay_f M' f r = Inr r' \<and> replays hb M Q L
      (answers_f M (size_of_comm M (COMM_WORLD M) s) (MPIre_rank s) (mem (world s)) f) 0 m mm r r'"
proof -
  note through = replay_through [OF M' ok r L rd av, where c = "passed M (mem (world s)) f"]
  note C = compatibleD [OF M']
  have args: "f_args_ok M F m f s" by (rule f_call_okD(1) [OF ok])
  have ints: "get_int M' p r = get_int M p s" if "p \<in> int_args f" for p
    using args_in_step [OF ok r C(4) that, of "mem (world r)"] by (simp add: get_int_def)
  let ?pre = "Status_f2c M' status (c_status M')"
  have st: "status_cells M (c_status M) \<subseteq> Q" using f_call_okD(2) [OF ok] by (simp add: f locals_ok_def)
  show ?thesis
  proof (rule through [where pre = ?pre])
    show "args_ok M G Q F m (passed M (mem (world s)) f) s" using args st by (simp add: f get_int_def)
    show "?pre (mem (world r)) a = mem (world r) a" if "a \<notin> Q" for a using C(6) that .
    have "get_int M' n (on_mem ?pre r) = get_int M n s"
      using args_in_step [OF ok r C(4), of n "?pre (mem (world r))"] C(6) by (simp add: f get_int_def)
    then show "replay_f M' f r = and_then (replay_call M' (passed M (mem (world s)) f) (on_mem ?pre r))
        (\<lambda>(ret, r). Inr (put_int M' (ierror_of f) ret r))"
      using ints [of d] by (simp add: f r_mpi_recv_f_def R_MPI_Recv_def store_ierror_def Let_def C(5) get_int_def)
  qed (simp_all add: f L)
qed

lemma replay_through_cases:
  assumes M': "compatible hb Q G' M' M" and ok: "f_call_ok M G Q F m f s" and r: "in_step hb M Q m s r"
    and L: "L = received_f M (size_of_comm M (COMM_WORLD M) s) (MPIre_rank s) (mem (world s)) m f"
    and rd: "reading (length L) r" and av: "available M mm L r"
    and f: "(\<exists>b n d source tag comm status ierror. f = F_Recv b n d source tag comm status ierror) \<or>
      (\<exists>b n d root comm ierror. f = F_Bcast b n d root comm ierror) \<or>
      (\<exists>sb sn sd rb rn rd comm ierror. f = F_Alltoall sb sn sd rb rn rd comm ierror) \<or>
      (\<exists>sb rb n d op comm ierror. f = F_Allreduce sb rb n d op comm ierror) \<or> (\<exists>ierror. f = F_Finalize ierror)"
  shows "\<exists>r'. replay_f M' f r = Inr r' \<and> replays hb M Q L
      (answers_f M (size_of_comm M (COMM_WORLD M) s) (MPIre_rank s) (mem (world s)) f) 0 m mm r r'"
proof -
  note through = replay_through [OF M' ok r L rd av, where c = "passed M (mem (world s)) f"]
  note C = compatibleD [OF M']
  have args: "f_args_ok M F m f s" by (rule f_call_okD(1) [OF ok])
  have ints: "get_int M' p r = get_int M p s" if "p \<in> int_args f" for p
    using args_in_step [OF ok r C(4) that, of "mem (world r)"] by (simp add: get_int_def)
  from f show ?thesis
  proof (elim disjE exE)
    fix b n d source tag comm status ierror
    assume f: "f = F_Recv b n d source tag comm status ierror"
    then show ?thesis by (rule replay_recv_f [OF M' ok r L rd av])
  next
    fix b n d root comm ierror
    assume f: "f = F_Bcast b n d root comm ierror"
    show ?thesis
    proof (rule through [where pre = "\<lambda>mm. mm"])
      show "args_ok M G Q F m (passed M (mem (world s)) f) s" using args by (simp add: f get_int_def)
      show "replay_f M' f r = and_then (replay_call M' (passed M (mem (world s)) f) (on_mem (\<lambda>mm. mm) r))
          (\<lambda>(ret, r). Inr (put_int M' (ierror_of f) ret r))"
        using ints [of n] ints [of d] ints [of root]
        by (simp add: f r_mpi_bcast_f_def R_MPI_Bcast_def store_ierror_def C(5)) (simp add: get_int_def)
    qed (simp_all add: f L)
  next
    fix sb sn sd rb rn rd comm ierror
    assume f: "f = F_Alltoall sb sn sd rb rn rd comm ierror"
    show ?thesis
    proof (rule through [where pre = "\<lambda>mm. mm"])
      show "args_ok M G Q F m (passed M (mem (world s)) f) s" using args by (simp add: f get_int_def world_comm_def)
      show "replay_f M' f r = and_then (replay_call M' (passed M (mem (world s)) f) (on_mem (\<lambda>mm. mm) r))
          (\<lambda>(ret, r). Inr (put_int M' (ierror_of f) ret r))"
        using ints [of rn] ints [of rd]
        by (simp add: f r_mpi_alltoall_f_def R_MPI_Alltoall_def store_ierror_def C(5)) (simp add: get_int_def)
    qed (simp_all add: f L)
  next
    fix sb rb n d op comm ierror
    assume f: "f = F_Allreduce sb rb n d op comm ierror"
    show ?thesis
    proof (rule through [where pre = "\<lambda>mm. mm"])
      show "args_ok M G Q F m (passed M (mem (world s)) f) s" using args by (simp add: f get_int_def)
      show "replay_f M' f r = and_then (replay_call M' (passed M (mem (world s)) f) (on_mem (\<lambda>mm. mm) r))
          (\<lambda>(ret, r). Inr (put_int M' (ierror_of f) ret r))"
        using ints [of n] ints [of d]
        by (simp add: f r_mpi_allreduce_f_def R_MPI_Allreduce_def store_ierror_def C(5)) (simp add: get_int_def)
    qed (simp_all add: f L)
  next
    fix ierror
    assume f: "f = F_Finalize ierror"
    show ?thesis
    proof (rule through [where pre = "\<lambda>mm. mm"])
      show "args_ok M G Q F m (passed M (mem (world s)) f) s" using args by (simp add: f)
      show "replay_f M' f r = and_then (replay_call M' (passed M (mem (world s)) f) (on_mem (\<lambda>mm. mm) r))
          (\<lambda>(ret, r). Inr (put_int M' (ierror_of f) ret r))"
        by (simp add: f r_mpi_finalize_f_def R_MPI_Finalize_def pmpi_def put_int_def on_mem_def split: prod.split)
    qed (simp_all add: f L)
  qed
qed

section \<open>Receives that are started and waited for\<close>

lemma replay_irecv_f:
  assumes M': "compatible hb Q G' M' M" and ok: "f_call_ok M G Q F m f s" and r: "in_step hb M Q m s r"
    and f: "f = F_Irecv b n d source tag comm request ierror"
  shows "\<exists>r'. replay_f M' f r = Inr r' \<and> replays hb M Q [] (store_int (big_endian M) ierror MPI_SUCCESS) 1
      (pending_after_f M (mem (world s)) f m) mm r r'"
proof -
  note C = compatibleD [OF M']
  have args: "f_args_ok M F m f s" by (rule f_call_okD(1) [OF ok])
  have ints: "get_int M' p r = get_int M p s" if "p \<in> {n, d}" for p
    using args_in_step [OF ok r C(4), of p "mem (world r)"] that by (auto simp: f get_int_def)
  have "pending hb (big_endian M') r m" "m request = None" "card (dom (heap r)) < max_elems"
    using r args C(4) by (simp_all add: in_step_def f)
  from add_request_pending [where al = M', OF this(1,2) C(2) this(3), of b "get_int M n s" "Type_f2c M (get_int M d s)"]
  obtain r1 where r1: "add_request M' b (get_int M n s) (Type_f2c M (get_int M d s)) request r = Inr r1"
    "pending hb (big_endian M) r1 (pending_after_f M (mem (world s)) f m)" "card (dom (heap r1)) = card (dom (heap r)) + 1"
    "r1 = r\<lparr>heap := heap r1, requestHtab := requestHtab r1\<rparr>"
    by (auto simp: C(4) f get_int_def)
  have "gave M mm [] r r1" by (subst r1(4)) (simp add: gave_def)
  from gave_ierror [OF this r1(2,3) _ C(4), of ierror] r1(1) show ?thesis
    using ints by (simp add: f r_mpi_irecv_f_def C(5))
qed

lemma replay_wait_f:
  assumes M': "compatible hb Q G' M' M" and ok: "f_call_ok M G Q F m f s" and r: "in_step hb M Q m s r"
    and f: "f = F_Wait request status ierror" and L: "L = map data_of (completed m [request])"
    and rd: "reading (length L) r" and av: "available M mm L r"
  shows "\<exists>r'. replay_f M' f r = Inr r' \<and>
    replays hb M Q L (store_int (big_endian M) ierror MPI_SUCCESS) 0 (m |` (- {request})) mm r r'"
proof -
  note C = compatibleD [OF M'] compatible_cells [OF M']
  have n: "0 \<le> r_bufsize x" if "x \<in> set (completed m [request])" for x
    using f_call_okD(1) [OF ok] that by (auto simp: f split: option.splits)
  have "reading (length (completed m [request])) r" "pending hb (big_endian M') r m"
    "available M' mm (map data_of (completed m [request])) r"
    using rd av r by (simp_all add: L C in_step_def del: completed.simps)
  from replay_completes [OF C(1) this(1,2) n this(3)] obtain r1 where r1:
    "complete_request M' (read_in_file M') request request r = Inr r1"
    "gave M mm L r r1" "pending hb (big_endian M) r1 (m |` (- {request}))" "card (dom (heap r1)) = card (dom (heap r)) + 0"
    by (auto simp: L C simp del: completed.simps)
  moreover have "received_cells M L \<inter> int_cells ierror = {}"
    using f_call_okD(5) [OF ok] by (auto simp: f L simp del: completed.simps)
  ultimately show ?thesis using gave_ierror [OF r1(2-4) _ C(4)] by (auto simp: f r_mpi_wait_f_def)
qed

lemma replay_waitall_f:
  assumes M': "compatible hb Q G' M' M" and ok: "f_call_ok M G Q F m f s" and r: "in_step hb M Q m s r"
    and f: "f = F_Waitall cnt requests statuses ierror" and n: "n = get_int M cnt s" and ks: "ks = request_array requests n"
    and L: "L = map data_of (completed m ks)" and rd: "reading (length L) r" and av: "available M mm L r"
  shows "\<exists>r'. replay_f M' f r = Inr r' \<and>
    replays hb M Q L (store_int (big_endian M) ierror MPI_SUCCESS) 0 (m |` (- set ks)) mm r r'"
proof -
  note C = compatibleD [OF M'] compatible_cells [OF M']
  let ?f = "\<lambda>k. complete_request M' (read_in_file M') k k"
  have n1: "1 \<le> n" and sizes: "\<forall>x \<in> ran m. 0 \<le> r_bufsize x" using f_call_okD(1) [OF ok] by (simp_all add: f n)
  have visible: "a \<notin> hidden M Q m" if "a \<in> int_cells cnt" for a using f_call_okD(4) [OF ok, of cnt] that by (simp add: f)
  have cnt: "get_int M' cnt r = n"
    using args_in_step [OF ok r C(4), of cnt "mem (world r)"] by (simp add: f n get_int_def)
  have pend: "pending hb (big_endian M') r m" using r C(4) by (simp add: in_step_def)
  have loop: "\<exists>r'. for_each js ?f r = Inr r' \<and> gave M mm (map data_of (completed m js)) r r' \<and>
      pending hb (big_endian M) r' (m |` (- set js)) \<and> heap r' = heap r" if js: "ks = js @ rest" for js rest
  proof -
    have "reading (length (completed m js)) r" using rd by (intro reading_less [OF rd]) (simp add: L js completed_append)
    moreover have "available M' mm (map data_of (completed m js)) r"
      using av available_append [of M mm "map data_of (completed m js)"] by (simp add: L js completed_append C)
    moreover have "0 \<le> r_bufsize x" if "x \<in> set (completed m js)" for x using sizes completed_ran [OF that] by blast
    ultimately show ?thesis using replay_completes [OF C(1) _ pend] by (simp add: C)
  qed
  have bound: "get_int M' cnt r' = n" if "gave M mm (map data_of (completed m js)) r r'" for js r'
  proof -
    have "mem (world r') a = mem (world r) a" if "a \<in> int_cells cnt" for a
    proof -
      have "a \<notin> buffers M m" using visible [OF that] by (simp add: hidden_def)
      then have "a \<notin> received_cells M (map data_of (completed m js))"
        using completed_ran [of _ m js] by (auto simp: received_cells_of buffers_def)
      then show ?thesis using \<open>gave M mm (map data_of (completed m js)) r r'\<close> by (simp add: gave_def)
    qed
    then show ?thesis using get_int_cong [of cnt r' r M'] cnt by simp
  qed
  obtain r1 where r1: "for_each ks ?f r = Inr r1" "gave M mm L r r1" "pending hb (big_endian M) r1 (m |` (- set ks))"
    "card (dom (heap r1)) = card (dom (heap r)) + 0"
    using loop [of ks "[]"] by (auto simp: L)
  have "count_up (get_int M' cnt) (\<lambda>i. ?f (element 4 requests i)) 0 r = for_each [0..<nat n] (\<lambda>i. ?f (element 4 requests i)) r"
  proof (rule count_up_steps)
    fix j
    assume "j \<le> nat n"
    then obtain r' where "for_each (map (element 4 requests) [0..<j]) ?f r = Inr r'"
      "gave M mm (map data_of (completed m (map (element 4 requests) [0..<j]))) r r'"
      using loop array_prefix [of j n requests] ks by blast
    then show "\<exists>r'. for_each [0..<j] (\<lambda>i. ?f (element 4 requests i)) r = Inr r' \<and> get_int M' cnt r' = int (nat n)"
      using bound n1 by (auto simp: for_each_map)
  qed (use is_int_nat [OF get_int_is_int [of M' cnt r]] cnt in auto)
  also have "\<dots> = Inr r1" using r1(1) by (simp add: ks request_array_def for_each_map)
  finally have "replay_f M' f r = Inr (put_int M' ierror MPI_SUCCESS r1)" by (simp add: f r_mpi_waitall_f_def)
  moreover have "received_cells M L \<inter> int_cells ierror = {}"
    using f_call_okD(5) [OF ok] by (auto simp: f L n ks get_int_def simp del: completed.simps)
  ultimately show ?thesis using gave_ierror [OF r1(2-4) _ C(4)] by blast
qed

section \<open>The replay\<close>

lemma replay_f_step:
  assumes M': "compatible hb Q G' M' M" and ok: "f_call_ok M G Q F m f s" and r: "in_step hb M Q m s r"
    and L: "L = received_f M (size_of_comm M (COMM_WORLD M) s) (MPIre_rank s) (mem (world s)) m f"
    and rd: "reading (length L) r" and av: "available M mm L r"
  shows "\<exists>r'. replay_f M' f r = Inr r' \<and> replays hb M Q L
      (answers_f M (size_of_comm M (COMM_WORLD M) s) (MPIre_rank s) (mem (world s)) f) (starts_f f)
      (pending_after_f M (mem (world s)) f m) mm r r'"
proof -
  note C = compatibleD [OF M']
  have args: "f_args_ok M F m f s" by (rule f_call_okD(1) [OF ok])
  note through = replay_through_cases [OF M' ok r L rd av]
  have pend: "pending hb (big_endian M) r m" "MPIre_rank r = MPIre_rank s" "MPIre_size r = size_of_comm M (COMM_WORLD M) s"
    using r by (simp_all add: in_step_def)
  have silent: "replays hb M Q [] (store_int (big_endian M) ierror MPI_SUCCESS) 0 m mm r (put_int M' ierror MPI_SUCCESS r)" for ierror
    using gave_ierror [OF gave_none pend(1) _ _ C(4)] by simp
  show ?thesis
  proof (cases f)
    case (F_Irecv b n d source tag comm request ierror)
    then show ?thesis using replay_irecv_f [OF M' ok r F_Irecv, of mm] by (simp add: L answers_f_def [abs_def])
  next
    case (F_Wait request status ierror)
    then have "L = map data_of (completed m [request])" by (simp add: L)
    from replay_wait_f [OF M' ok r F_Wait this rd av] show ?thesis by (simp add: F_Wait answers_f_def [abs_def])
  next
    case (F_Waitall n requests statuses ierror)
    then have "L = map data_of (completed m (request_array requests (get_int M n s)))" by (simp add: L get_int_def)
    from replay_waitall_f [OF M' ok r F_Waitall refl refl this rd av] show ?thesis
      by (simp add: F_Waitall answers_f_def [abs_def] get_int_def)
  next
    case (F_Recv b n d source tag comm status ierror)
    then show ?thesis using through by simp
  next
    case (F_Bcast b n d root comm ierror)
    then show ?thesis using through by simp
  next
    case (F_Alltoall sb sn sd rb rn rd comm ierror)
    then show ?thesis using through by simp
  next
    case (F_Allreduce sb rb n d op comm ierror)
    then show ?thesis using through by simp
  next
    case (F_Finalize ierror)
    then show ?thesis using through by simp
  next
    case (F_Rank comm p ierror)
    then show ?thesis using pend C(4)
      by (simp add: L r_mpi_comm_rank_f_def replays_def put_int_def answers_f_def)
  next
    case (F_Size comm p ierror)
    then show ?thesis using pend C(4)
      by (simp add: L r_mpi_comm_size_f_def replays_def put_int_def answers_f_def)
  qed (use args silent in \<open>simp_all add: L answers_f_def [abs_def] r_mpi_send_f_def r_mpi_isend_f_def r_mpi_start_f_def
      r_mpi_barrier_f_def r_set_ierror_def\<close>)
qed

end
