(* ===== verification/Lockstep.thy ===== *)
theory Lockstep
  imports Prelude
begin

text \<open>
  Two programs in lockstep: the first makes steps and writes a log, the second executes the same
  events from the log of the first.
\<close>

section \<open>Runs\<close>

inductive run :: "('e \<Rightarrow> 's \<Rightarrow> 's \<Rightarrow> bool) \<Rightarrow> 's \<Rightarrow> 'e list \<Rightarrow> 's \<Rightarrow> bool" for step where
  stop: "run step s [] s"
| more: "step e s s1 \<Longrightarrow> run step s1 es s' \<Longrightarrow> run step s (e # es) s'"

inductive_cases run_NilE: "run step s [] s'"
inductive_cases run_ConsE: "run step s (e # es) s'"
inductive_simps run_simps: "run step s [] s'" "run step s (e # es) s'"

fun exec_all :: "('e \<Rightarrow> 'r \<Rightarrow> stop + 'r) \<Rightarrow> 'e list \<Rightarrow> 'r \<Rightarrow> stop + 'r" where
  "exec_all exec [] r = Inr r"
| "exec_all exec (e # es) r = and_then (exec e r) (exec_all exec es)"

lemma run_append: "run step s es s1 \<Longrightarrow> run step s1 es' s' \<Longrightarrow> run step s (es @ es') s'"
  by (induction rule: run.induct) (auto intro: run.more)

lemma exec_all_append: "exec_all exec (es @ es') r = and_then (exec_all exec es r) (exec_all exec es')"
proof (induction es arbitrary: r)
  case (Cons e es)
  then show ?case by (cases "exec e r") simp_all
qed simp

section \<open>What a run puts out\<close>

text \<open>
  A run together with all its steps put out, in order; \<open>out e s s1\<close> is what the step \<open>e\<close> from \<open>s\<close> to
  \<open>s1\<close> puts out.
\<close>

inductive outputs :: "('e \<Rightarrow> 's \<Rightarrow> 's \<Rightarrow> bool) \<Rightarrow> ('e \<Rightarrow> 's \<Rightarrow> 's \<Rightarrow> 'o list) \<Rightarrow> 's \<Rightarrow> 'e list \<Rightarrow> 's \<Rightarrow> 'o list \<Rightarrow> bool"
  for step out where
  silent: "outputs step out s [] s []"
| emit: "step e s s1 \<Longrightarrow> outputs step out s1 es s' ys \<Longrightarrow> outputs step out s (e # es) s' (out e s s1 @ ys)"

inductive_simps outputs_simps: "outputs step out s [] s' ys" "outputs step out s (e # es) s' ys"

lemma outputs_run: "outputs step out s es s' ys \<Longrightarrow> run step s es s'"
  by (induction rule: outputs.induct) (auto intro: run.intros)

lemma run_outputs: "run step s es s' \<Longrightarrow> \<exists>ys. outputs step out s es s' ys"
  by (induction rule: run.induct) (auto intro: outputs.intros)

lemma outputs_append:
  "outputs step out s es s1 ys \<Longrightarrow> outputs step out s1 es' s' ys' \<Longrightarrow> outputs step out s (es @ es') s' (ys @ ys')"
  by (induction rule: outputs.induct) (auto intro: outputs.intros)

section \<open>The simulation\<close>

text \<open>
  \<open>grows s s'\<close>: the log of \<open>s'\<close> continues that of \<open>s\<close>. \<open>reads r s s'\<close>: the second program finds what the
  first wrote between \<open>s\<close> and \<open>s'\<close>. A step of the first can be executed by the second, if it finds
  what this step wrote, and it still finds what is written later.
\<close>

locale lockstep =
  fixes step :: "'e \<Rightarrow> 's \<Rightarrow> 's \<Rightarrow> bool"
    and exec :: "'e \<Rightarrow> 'r \<Rightarrow> stop + 'r"
    and inv :: "'s \<Rightarrow> bool"
    and match :: "'s \<Rightarrow> 'r \<Rightarrow> bool"
    and grows :: "'s \<Rightarrow> 's \<Rightarrow> bool"
    and reads :: "'r \<Rightarrow> 's \<Rightarrow> 's \<Rightarrow> bool"
  assumes inv_step: "inv s \<Longrightarrow> step e s s1 \<Longrightarrow> inv s1"
    and grows_step: "inv s \<Longrightarrow> step e s s1 \<Longrightarrow> grows s s1"
    and grows_refl: "grows s s"
    and grows_trans: "grows s s1 \<Longrightarrow> grows s1 s' \<Longrightarrow> grows s s'"
    and reads_before: "grows s s1 \<Longrightarrow> grows s1 s' \<Longrightarrow> reads r s s' \<Longrightarrow> reads r s s1"
    and simulates: "inv s \<Longrightarrow> step e s s1 \<Longrightarrow> match s r \<Longrightarrow> reads r s s1 \<Longrightarrow>
      \<exists>r1. exec e r = Inr r1 \<and> match s1 r1 \<and> (\<forall>s'. grows s1 s' \<longrightarrow> reads r s s' \<longrightarrow> reads r1 s1 s')"
begin

lemma run_inv: "run step s es s' \<Longrightarrow> inv s \<Longrightarrow> inv s'"
  by (induction rule: run.induct) (auto dest: inv_step)

lemma run_grows: "run step s es s' \<Longrightarrow> inv s \<Longrightarrow> grows s s'"
  by (induction rule: run.induct) (auto intro: grows_refl grows_trans dest: grows_step inv_step)

lemma run_simulates:
  assumes "run step s es s'" "inv s" "match s r" "reads r s s'"
  shows "\<exists>r'. exec_all exec es r = Inr r' \<and> match s' r'"
  using assms
proof (induction arbitrary: r rule: run.induct)
  case (more e s s1 es s')
  have s1: "inv s1" using inv_step [OF more.prems(1) more.hyps(1)] .
  have grows: "grows s s1" "grows s1 s'" using grows_step [OF more.prems(1) more.hyps(1)] run_grows [OF more.hyps(2) s1] .
  obtain r1 where r1: "exec e r = Inr r1" "match s1 r1" "reads r1 s1 s'"
    using simulates [OF more.prems(1) more.hyps(1) more.prems(2) reads_before [OF grows more.prems(3)]] grows more.prems(3) by blast
  then show ?case using more.IH [OF s1] by simp
qed simp

end

end
