(* ===== verification/Simulation.thy ===== *)
theory Simulation
  imports Fortran_Replay Lockstep
begin

text \<open>
  Whole programs under both libraries: a captured run, step by step, and its replay from the log
  files the capture left behind.
\<close>

section \<open>Runs\<close>

text \<open>
  Between its calls the program computes, and data may arrive in the buffers of pending receives,
  at any time.
\<close>

datatype event =
    Compute "memory \<Rightarrow> memory"
  | Arrive "memory \<Rightarrow> memory"
  | Call mpi_call
  | Call_f f_call

text \<open>
  A captured step, from a state and its pending receives to another: each call meets its conditions,
  the counter of log files does not overflow, and the program computes with what is not hidden,
  and leaves the variables of pending receives alone.
\<close>

inductive captured_step :: "'w mpi \<Rightarrow> 'w ghost \<Rightarrow> ptr set \<Rightarrow> ptr set \<Rightarrow> event \<Rightarrow>
    'w capture \<times> (ptr \<rightharpoonup> request_t) \<Rightarrow> 'w capture \<times> (ptr \<rightharpoonup> request_t) \<Rightarrow> bool" for M G Q F where
  compute: "(\<And>mm. agree (hidden M Q m) (mem (world s)) mm \<Longrightarrow> agree (hidden M Q m) (f (mem (world s))) (f mm)) \<Longrightarrow>
    (\<And>a. a \<in> vars M F (dom m) \<Longrightarrow> f (mem (world s)) a = mem (world s) a) \<Longrightarrow>
    captured_step M G Q F (Compute f) (s, m) (on_mem f s, m)"
| arrive: "(\<And>a. a \<notin> buffers M m \<Longrightarrow> g (mem (world s)) a = mem (world s) a) \<Longrightarrow>
    captured_step M G Q F (Arrive g) (s, m) (on_mem g s, m)"
| call: "call_ok M G Q F m c s \<Longrightarrow> is_int (cpt_write s + int (length (capture_receives M s m c))) \<Longrightarrow>
    capture_call M c s = Inr (ret, s1) \<Longrightarrow> captured_step M G Q F (Call c) (s, m) (s1, pending_after c m)"
| call_f: "f_call_ok M G Q F m c s \<Longrightarrow>
    is_int (cpt_write s + int (length (received_f M (size_of_comm M (COMM_WORLD M) s) (MPIre_rank s) (mem (world s)) m c))) \<Longrightarrow>
    capture_f M c s = Inr s1 \<Longrightarrow> captured_step M G Q F (Call_f c) (s, m) (s1, pending_after_f M (mem (world s)) c m)"

inductive_cases captured_stepE: "captured_step M G Q F e (s, m) (s', m')"

lemmas captured_step_cases = captured_stepE [consumes 1, case_names compute arrive call call_f]

definition captured :: "'w mpi \<Rightarrow> 'w ghost \<Rightarrow> ptr set \<Rightarrow> ptr set \<Rightarrow> 'w capture \<Rightarrow> (ptr \<rightharpoonup> request_t) \<Rightarrow> event list \<Rightarrow>
    'w capture \<Rightarrow> (ptr \<rightharpoonup> request_t) \<Rightarrow> bool" where
  "captured M G Q F s m es s' m' \<longleftrightarrow> run (captured_step M G Q F) (s, m) es (s', m')"

text \<open>
  The buffers a step receives, with the contents the call leaves in them: what the log has to hold.
\<close>

fun step_log :: "'w mpi \<Rightarrow> event \<Rightarrow> 'w capture \<times> (ptr \<rightharpoonup> request_t) \<Rightarrow> 'w capture \<times> (ptr \<rightharpoonup> request_t) \<Rightarrow> u8 list list" where
  "step_log M (Call c) (s, m) (s1, m1) = contents M (mem (world s1)) (capture_receives M s m c)"
| "step_log M (Call_f f) (s, m) (s1, m1) =
     contents M (mem (world s1)) (received_f M (size_of_comm M (COMM_WORLD M) s) (MPIre_rank s) (mem (world s)) m f)"
| "step_log M e p p1 = []"

text \<open>A captured run, with the contents of all the buffers its calls received, in order.\<close>

definition received_in :: "'w mpi \<Rightarrow> 'w ghost \<Rightarrow> ptr set \<Rightarrow> ptr set \<Rightarrow> 'w capture \<Rightarrow> (ptr \<rightharpoonup> request_t) \<Rightarrow> event list \<Rightarrow>
    'w capture \<Rightarrow> (ptr \<rightharpoonup> request_t) \<Rightarrow> u8 list list \<Rightarrow> bool" where
  "received_in M G Q F s m es s' m' bss \<longleftrightarrow> outputs (captured_step M G Q F) (step_log M) (s, m) es (s', m') bss"

lemma received_in_captured: "received_in M G Q F s m es s' m' bss \<Longrightarrow> captured M G Q F s m es s' m'"
  unfolding received_in_def captured_def by (rule outputs_run)

lemma captured_received: "captured M G Q F s m es s' m' \<Longrightarrow> \<exists>bss. received_in M G Q F s m es s' m' bss"
  unfolding received_in_def captured_def by (rule run_outputs)

text \<open>The replay of the same program; nothing arrives there by itself.\<close>

fun replay_event :: "'w mpi \<Rightarrow> event \<Rightarrow> 'w replay \<Rightarrow> stop + 'w replay" where
  "replay_event M (Compute f) r = Inr (on_mem f r)"
| "replay_event M (Arrive g) r = Inr r"
| "replay_event M (Call c) r = and_then (replay_call M c r) (\<lambda>(ret, r). Inr r)"
| "replay_event M (Call_f c) r = replay_f M c r"

definition replay_events :: "'w mpi \<Rightarrow> event list \<Rightarrow> 'w replay \<Rightarrow> stop + 'w replay" where
  "replay_events M = exec_all (replay_event M)"

section \<open>One call\<close>

definition capture_laws :: "nat \<Rightarrow> 'w ghost \<Rightarrow> 'w mpi \<Rightarrow> bool" where
  "capture_laws hb G M \<longleftrightarrow> mpi_laws G M \<and> fortran_laws G M \<and> good_allocator hb M"

lemma hidden_after_f:
  assumes "f_call_ok M G Q F m f s"
  shows "hidden M Q m \<subseteq> hidden M Q (pending_after_f M (mem (world s)) f m) \<union>
    received_cells M (received_f M sz rank (mem (world s)) m f)"
proof (cases f)
  case (F_Wait request status ierror)
  then show ?thesis using buffers_completed [of M m "[request]"] by (auto simp: hidden_def simp del: completed.simps)
next
  case (F_Waitall n requests statuses ierror)
  then show ?thesis using buffers_completed [of M m "request_array requests (int_in M (mem (world s)) n)"]
    by (auto simp: hidden_def)
next
  case (F_Irecv b n d source tag comm request ierror)
  then have "m request = None" using f_call_okD(1) [OF assms] by simp
  then show ?thesis using F_Irecv by (auto simp: hidden_def buffers_def)
qed (auto simp: hidden_def)

text \<open>A call of the program, in C or in Fortran, in the capture and in the replay.\<close>

lemma call_in_step:
  assumes laws: "capture_laws hb G M" and step: "captured_step M G Q F e (s, m) (s1, m1)" and s: "recording hb G M F s m"
    and e: "(\<exists>c. e = Call c) \<or> (\<exists>c. e = Call_f c)"
  shows "\<exists>L g n. keeps hb G M Q F L g n m1 s s1 \<and> pointwise g \<and> hidden M Q m \<subseteq> hidden M Q m1 \<union> received_cells M L \<and>
    (\<forall>hb' G' M' r mm. compatible hb' Q G' M' M \<longrightarrow> in_step hb' M Q m s r \<longrightarrow> reading (length L) r \<longrightarrow> available M mm L r \<longrightarrow>
      (\<exists>r1. replay_event M' e r = Inr r1 \<and> replays hb' M Q L g n m1 mm r r1))"
  using step
proof (cases rule: captured_step_cases)
  case (call c ret)
  let ?L = "capture_receives M s m c" and ?g = "capture_answers M s c"
  have args: "args_ok M G Q F m c s" using call(3) by (simp add: call_ok_def)
  have "keeps hb G M Q F ?L ?g (starts c) m1 s s1"
    using capture_step [of G M hb F s m Q c] laws s call by (auto simp: capture_laws_def)
  moreover have "\<exists>r1. replay_event M' e r = Inr r1 \<and> replays hb' M Q ?L ?g (starts c) m1 mm r r1"
    if "compatible hb' Q G' M' M" "in_step hb' M Q m s r" "reading (length ?L) r" "available M mm ?L r"
    for hb' G' r mm and M' :: "'b mpi"
    using replay_step [OF that(1) args that(2) refl that(3,4)] call(1,2) by auto
  ultimately show ?thesis
    using pointwise_answers hidden_after [OF args] unfolding call(2) by blast
next
  case (call_f f)
  let ?L = "received_f M (size_of_comm M (COMM_WORLD M) s) (MPIre_rank s) (mem (world s)) m f"
  let ?g = "answers_f M (size_of_comm M (COMM_WORLD M) s) (MPIre_rank s) (mem (world s)) f"
  have "keeps hb G M Q F ?L ?g (starts_f f) m1 s s1"
    using capture_f_step [of G M hb F s m Q f, OF _ _ _ s call_f(3) refl call_f(4)] laws call_f(2,5) by (auto simp: capture_laws_def)
  moreover have "\<exists>r1. replay_event M' e r = Inr r1 \<and> replays hb' M Q ?L ?g (starts_f f) m1 mm r r1"
    if "compatible hb' Q G' M' M" "in_step hb' M Q m s r" "reading (length ?L) r" "available M mm ?L r"
    for hb' G' r mm and M' :: "'b mpi"
    using replay_f_step [OF that(1) call_f(3) that(2) refl that(3,4)] call_f(1,2) by simp
  ultimately show ?thesis
    using pointwise_answers_f hidden_after_f [OF call_f(3)] unfolding call_f(2) by blast
qed (use e in auto)

section \<open>The log\<close>

text \<open>A later state of the capture: it has written further log files, and changed no others.\<close>

definition log_grows :: "'w capture \<Rightarrow> 'w capture \<Rightarrow> bool" where
  "log_grows s s' \<longleftrightarrow> MPIre_output_path s' = MPIre_output_path s \<and> cpt_write s \<le> cpt_write s' \<and>
     (\<forall>p. (\<forall>k. cpt_write s \<le> k \<longrightarrow> k < cpt_write s' \<longrightarrow> p \<noteq> log_path (MPIre_output_path s) k) \<longrightarrow>
        files (world s') p = files (world s) p)"

text \<open>The replay has the files the capture wrote in between.\<close>

definition has_log :: "'v replay \<Rightarrow> 'w capture \<Rightarrow> 'w capture \<Rightarrow> bool" where
  "has_log r s s' \<longleftrightarrow> (\<forall>k. cpt_write s \<le> k \<longrightarrow> k < cpt_write s' \<longrightarrow>
     files (world r) (log_path (MPIre_output_path s) k) = files (world s') (log_path (MPIre_output_path s) k))"

lemma log_grows_refl: "log_grows s s"
  by (simp add: log_grows_def)

lemma log_grows_trans: "log_grows s s1 \<Longrightarrow> log_grows s1 s' \<Longrightarrow> log_grows s s'"
  unfolding log_grows_def by auto

lemma log_grows_file:
  assumes "log_grows s s'" "k < cpt_write s"
  shows "files (world s') (log_path (MPIre_output_path s) k) = files (world s) (log_path (MPIre_output_path s) k)"
  using assms unfolding log_grows_def by auto

lemma keeps_grows: "keeps hb G M Q F L g n m' s s' \<Longrightarrow> log_grows s s'"
  using keeps_files [of hb G M Q F L g n m' s s'] by (auto simp: log_grows_def keeps_def)

lemma has_log_before:
  assumes "log_grows s s1" "log_grows s1 s'" "has_log r s s'"
  shows "has_log r s s1"
  unfolding has_log_def
proof (intro allI impI)
  fix k
  assume k: "cpt_write s \<le> k" "k < cpt_write s1"
  have "MPIre_output_path s1 = MPIre_output_path s" "cpt_write s1 \<le> cpt_write s'"
    using assms(1,2) by (simp_all add: log_grows_def)
  then show "files (world r) (log_path (MPIre_output_path s) k) = files (world s1) (log_path (MPIre_output_path s) k)"
    using assms(3) log_grows_file [OF assms(2) k(2)] k by (simp add: has_log_def)
qed

lemma has_log_after:
  assumes "log_grows s s1" "has_log r s s'" "files (world r1) = files (world r)"
  shows "has_log r1 s1 s'"
  using assms by (auto simp: has_log_def log_grows_def)

text \<open>Each step writes what it received to the next files of the log, and no other file.\<close>

lemma step_logs:
  assumes laws: "capture_laws hb G M" and step: "captured_step M G Q F e (s, m) (s1, m1)" and s: "recording hb G M F s m"
  shows "files (world s1) = log_all (MPIre_output_path s) (cpt_write s) (step_log M e (s, m) (s1, m1)) (files (world s)) \<and>
    cpt_write s1 = cpt_write s + int (length (step_log M e (s, m) (s1, m1))) \<and> MPIre_output_path s1 = MPIre_output_path s"
  using step
proof (cases rule: captured_step_cases)
  case (call c ret)
  have "keeps hb G M Q F (capture_receives M s m c) (capture_answers M s c) (starts c) m1 s s1"
    using capture_step [of G M hb F s m Q c] laws s call by (auto simp: capture_laws_def)
  then show ?thesis using call(1) by (simp add: keeps_def)
next
  case (call_f f)
  let ?L = "received_f M (size_of_comm M (COMM_WORLD M) s) (MPIre_rank s) (mem (world s)) m f"
  let ?g = "answers_f M (size_of_comm M (COMM_WORLD M) s) (MPIre_rank s) (mem (world s)) f"
  have "keeps hb G M Q F ?L ?g (starts_f f) m1 s s1"
    using capture_f_step [of G M hb F s m Q f, OF _ _ _ s call_f(3) refl call_f(4)] laws call_f(2,5) by (auto simp: capture_laws_def)
  then show ?thesis using call_f(1) by (simp add: keeps_def)
qed simp_all

section \<open>The capture and the replay in lockstep\<close>

lemma step_keeps:
  assumes laws: "capture_laws hb G M" and step: "captured_step M G Q F e (s, m) (s1, m1)" and s: "recording hb G M F s m"
  shows "recording hb G M F s1 m1 \<and> log_grows s s1"
proof (cases "(\<exists>c. e = Call c) \<or> (\<exists>c. e = Call_f c)")
  case True
  then show ?thesis using call_in_step [OF laws step s] keeps_grows by (fastforce simp: keeps_def)
next
  case False
  have mpi: "mpi_laws G M" using laws by (simp add: capture_laws_def)
  from step show ?thesis
  proof (cases rule: captured_step_cases)
    case (compute f)
    then show ?thesis using recording_on_mem [OF mpi s, of f] by (simp add: log_grows_def)
  next
    case (arrive g)
    have "buffers M m \<inter> vars M F (dom m) = {}" using s by (simp add: recording_def separate_def)
    then show ?thesis using arrive recording_on_mem [OF mpi s, of g] by (auto simp: log_grows_def)
  qed (use False in auto)
qed

lemma step_simulates:
  assumes laws: "capture_laws hb G M" and step: "captured_step M G Q F e (s, m) (s1, m1)" and s: "recording hb G M F s m"
    and M': "compatible hb' Q G' M' M" and r: "in_step hb' M Q m s r" and log: "has_log r s s1"
  shows "\<exists>r1. replay_event M' e r = Inr r1 \<and> in_step hb' M Q m1 s1 r1 \<and> files (world r1) = files (world r)"
proof (cases "(\<exists>c. e = Call c) \<or> (\<exists>c. e = Call_f c)")
  case True
  obtain L g n where K: "keeps hb G M Q F L g n m1 s s1" "pointwise g" "hidden M Q m \<subseteq> hidden M Q m1 \<union> received_cells M L"
    and R: "\<And>mm. reading (length L) r \<Longrightarrow> available M mm L r \<Longrightarrow>
      \<exists>r1. replay_event M' e r = Inr r1 \<and> replays hb' M Q L g n m1 mm r r1"
    using call_in_step [OF laws step s True] M' r by metis
  have "available M (mem (world s1)) L r"
    using log by (intro keeps_available [OF K(1) r]) (auto simp: has_log_def)
  moreover have "is_int (cpt_write s + int (length L))"
  proof -
    have "recording hb G M F s1 m1" using K(1) by (simp add: keeps_def)
    then have "is_int (cpt_write s1)" by (simp add: recording_def logging_def)
    moreover have "cpt_write s1 = cpt_write s + int (length L)" using K(1) by (simp add: keeps_def)
    ultimately show ?thesis by metis
  qed
  then have "reading (length L) r"
    using s r by (simp add: reading_def in_step_def recording_def logging_def log_dir_def)
  ultimately obtain r1 where "replay_event M' e r = Inr r1" "replays hb' M Q L g n m1 (mem (world s1)) r r1"
    using R by blast
  then show ?thesis using in_step_keeps [OF r K(1) _ K(2,3)] by (auto simp: replays_def)
next
  case False
  from step show ?thesis
  proof (cases rule: captured_step_cases)
    case (compute f)
    have "agree (hidden M Q m) (mem (world s)) (mem (world r))" using r by (simp add: in_step_def)
    then show ?thesis using compute r by (simp add: in_step_def size_of_comm_def)
  next
    case (arrive g)
    have "a \<notin> hidden M Q m \<Longrightarrow> g (mem (world s)) a = mem (world s) a" for a
      using arrive(2) arrive(4) [of a] by (simp add: hidden_def)
    then show ?thesis using arrive r by (simp add: in_step_def size_of_comm_def agree_def)
  qed (use False in auto)
qed

interpretation record_replay: lockstep
  "captured_step M G Q F" "replay_event M'" "\<lambda>(s, m). capture_laws hb G M \<and> recording hb G M F s m"
  "\<lambda>(s, m) r. compatible hb' Q G' M' M \<and> in_step hb' M Q m s r" "\<lambda>(s, m) (s', m'). log_grows s s'"
  "\<lambda>r (s, m) (s', m'). has_log r s s'"
  for M G Q F and M' :: "'v mpi" and hb hb' G'
proof (unfold_locales, goal_cases)
  case (1 s e s1)
  then show ?case using step_keeps [of hb G M Q F e "fst s" "snd s" "fst s1" "snd s1"] by (simp add: case_prod_beta)
next
  case (2 s e s1)
  then show ?case using step_keeps [of hb G M Q F e "fst s" "snd s" "fst s1" "snd s1"] by (simp add: case_prod_beta)
next
  case (3 s)
  then show ?case by (cases s) (simp add: log_grows_refl)
next
  case (4 s s1 s')
  then show ?case using log_grows_trans by (cases s, cases s1, cases s') simp
next
  case (5 s s1 s' r)
  then show ?case using has_log_before by (cases s, cases s1, cases s') simp
next
  case (6 s e s1 r)
  obtain s0 m0 s2 m2 where s: "s = (s0, m0)" "s1 = (s2, m2)" by (cases s, cases s1) blast
  obtain r1 where "replay_event M' e r = Inr r1" "in_step hb' M Q m2 s2 r1" "files (world r1) = files (world r)"
    using step_simulates 6 by (fastforce simp: s)
  moreover have "log_grows s0 s2" using step_keeps [of hb G M Q F e s0 m0 s2 m2] 6 by (simp add: s)
  ultimately show ?case using 6 has_log_after [where r = r and ?r1.0 = r1] by (auto simp: s)
qed

lemma captured_keeps:
  assumes "captured M G Q F s m es s' m'" "capture_laws hb G M" "recording hb G M F s m"
  shows "recording hb G M F s' m'" "log_grows s s'"
  using record_replay.run_inv [where s = "(s, m)" and s' = "(s', m')" and hb = hb]
    record_replay.run_grows [where s = "(s, m)" and s' = "(s', m')" and hb = hb] assms
  by (auto simp: captured_def)

lemma received_logs:
  assumes run: "received_in M G Q F s m es s' m' bss" and laws: "capture_laws hb G M" and s: "recording hb G M F s m"
  shows "files (world s') = log_all (MPIre_output_path s) (cpt_write s) bss (files (world s))"
    "cpt_write s' = cpt_write s + int (length bss)" "MPIre_output_path s' = MPIre_output_path s"
proof -
  have "files (world (fst p')) = log_all (MPIre_output_path (fst p)) (cpt_write (fst p)) bss (files (world (fst p))) \<and>
      cpt_write (fst p') = cpt_write (fst p) + int (length bss) \<and> MPIre_output_path (fst p') = MPIre_output_path (fst p)"
    if "outputs (captured_step M G Q F) (step_log M) p es p' bss" "recording hb G M F (fst p) (snd p)" for p p'
    using that
  proof (induction rule: outputs.induct)
    case (emit e p p1 es p' bss)
    obtain s m s1 m1 where p: "p = (s, m)" "p1 = (s1, m1)" by (metis prod.exhaust)
    have rec: "recording hb G M F s m" using emit.prems p by simp
    note step = emit.hyps(1) [unfolded p]
    have "recording hb G M F s1 m1" using step_keeps [OF laws step rec] by blast
    then show ?case using step_logs [OF laws step rec] emit.IH by (simp add: p log_all_append)
  qed simp
  from this [of "(s, m)" "(s', m')"] run s
  show "files (world s') = log_all (MPIre_output_path s) (cpt_write s) bss (files (world s))"
    "cpt_write s' = cpt_write s + int (length bss)" "MPIre_output_path s' = MPIre_output_path s"
    by (simp_all add: received_in_def)
qed

lemma replay_in_step:
  assumes "captured M G Q F s m es s' m'" "capture_laws hb G M" "recording hb G M F s m"
    "compatible hb' Q G' M' M" "in_step hb' M Q m s r" "has_log r s s'"
  shows "\<exists>r'. replay_events M' es r = Inr r' \<and> in_step hb' M Q m' s' r'"
  using record_replay.run_simulates [where s = "(s, m)" and s' = "(s', m')" and hb = hb and hb' = hb' and G' = G' and r = r] assms
  by (auto simp: captured_def replay_events_def)

end
