(* ===== verification/Toy_Program.thy ===== *)
theory Toy_Program
  imports Simulation
begin

text \<open>
  A program for the witnesses: it starts a receive in C and one in Fortran, waits for both, computes
  with what came and asks for its rank.
\<close>

section \<open>Its memory\<close>

text \<open>
  The buffers are at 64 and 80, the integers of the Fortran calls at 256 to 271, the requests at
  4096 and 1024, the statuses at 12288 and 2048.
\<close>

definition toy_controls :: "ptr set" where
  "toy_controls = bytes_at 4 4096 \<union> bytes_at 20 12288 \<union> bytes_at 4 1024 \<union> bytes_at 20 2048 \<union>
     bytes_at 4 0x200000000000 \<union> bytes_at 20 0x200000010000"

abbreviation (input) toy_fortran :: "ptr set" where
  "toy_fortran \<equiv> {1024}"

lemma bytes_at_Suc: "bytes_at (Suc n) p = insert p (bytes_at n (p + 1))"
  unfolding bytes_at_def lessThan_Suc_eq_insert_0 by (simp add: image_image ac_simps)

lemma bytes_at_small [simp]: "bytes_at 3 p = {p, p + 1, p + 2}" "bytes_at 4 p = {p, p + 1, p + 2, p + 3}"
  by (simp_all add: numeral_eq_Suc bytes_at_Suc ac_simps) (simp_all add: bytes_at_def)

lemma bytes_at_between:
  assumes "unat p + n < 2 ^ 64"
  shows "a \<in> bytes_at n p \<longleftrightarrow> p \<le> a \<and> a < p + word_of_nat n"
proof
  have unat: "unat (p + word_of_nat i) = unat p + i" if "i \<le> n" for i
    using that assms by (simp add: unat_word_ariths unat_of_nat)
  show "p \<le> a \<and> a < p + word_of_nat n" if "a \<in> bytes_at n p"
    using that unat unat [of n] by (auto simp: bytes_at_def word_le_nat_alt word_less_nat_alt)
  assume a: "p \<le> a \<and> a < p + word_of_nat n"
  then have i: "unat p \<le> unat a" "unat a - unat p < n" using unat [of n] by (auto simp: word_le_nat_alt word_less_nat_alt)
  then have "a = p + word_of_nat (unat a - unat p)" using unat [of "unat a - unat p"] by (simp add: word_unat_eq_iff)
  then show "a \<in> bytes_at n p" using i(2) unfolding bytes_at_def by blast
qed

lemma toy_controls_iff [simp]:
  "a \<in> toy_controls \<longleftrightarrow> 4096 \<le> a \<and> a < 4100 \<or> 12288 \<le> a \<and> a < 12308 \<or> 1024 \<le> a \<and> a < 1028 \<or>
     2048 \<le> a \<and> a < 2068 \<or> 0x200000000000 \<le> a \<and> a < 0x200000000004 \<or> 0x200000010000 \<le> a \<and> a < 0x200000010014"
  unfolding toy_controls_def by (simp add: bytes_at_between del: bytes_at_small)

lemma toy_statuses [simp]:
  "a \<in> bytes_at 20 2048 \<longleftrightarrow> 2048 \<le> a \<and> a < 2068" "a \<in> bytes_at 20 12288 \<longleftrightarrow> 12288 \<le> a \<and> a < 12308"
  "a \<in> bytes_at 20 0x200000010000 \<longleftrightarrow> 0x200000010000 \<le> a \<and> a < 0x200000010014"
  "bytes_at 20 2048 \<subseteq> toy_controls" "bytes_at 20 12288 \<subseteq> toy_controls" "bytes_at 20 0x200000010000 \<subseteq> toy_controls"
  by (simp_all add: bytes_at_between subset_iff)

lemma toy_sizes [simp]:
  "sizeof_request toy_mpi = 4" "sizeof_status toy_mpi = 20" "c_request toy_mpi = 0x200000000000"
  "c_status toy_mpi = 0x200000010000" "cells toy_mpi = toy_cells" "big_endian toy_mpi = False"
  "valid toy_ghost = toy_valid" "valid_f toy_ghost = (\<lambda>_ _. True)" "scattered toy_ghost = (\<lambda>_ _. {})"
  "Comm_rank toy_mpi comm l = 0" "Comm_size toy_mpi comm l = 2"
  by (simp_all add: toy_mpi_def toy_ghost_def)

lemma toy_world_comm: "recording hb G toy_mpi F s m \<Longrightarrow> world_comm toy_mpi comm s"
  by (simp add: recording_def logging_def world_comm_def rank_of_def size_of_comm_def)

text \<open>A receive can be started while at most one is pending.\<close>

lemma toy_free_handle:
  assumes "recording hb toy_ghost toy_mpi F s m" "dom m \<subseteq> {k}"
  shows "toy_posted (lib (world s)) (toy_free (lib (world s))) = None"
proof (rule ccontr)
  let ?P = "posted toy_ghost (lib (world s))"
  assume "toy_posted (lib (world s)) (toy_free (lib (world s))) \<noteq> None"
  then have "?P 1 \<noteq> None" "?P 2 \<noteq> None" by (auto simp: toy_free_def toy_ghost_def split: if_splits)
  moreover have "handle_of toy_mpi F (mem (world s)) k = h" if "?P h \<noteq> None" for h
    using assms that unfolding recording_def posted_ok_def by blast
  ultimately have "(1 :: u64) = 2" by metis
  then show False by simp
qed

section \<open>Its calls\<close>

definition toy_irecv :: mpi_call where
  "toy_irecv = Irecv 64 3 9 1 5 1 4096"

definition toy_irecv_f :: f_call where
  "toy_irecv_f = F_Irecv 80 256 264 264 264 264 1024 268"

definition toy_wait :: mpi_call where
  "toy_wait = Wait 4096 12288"

definition toy_waitall_f :: f_call where
  "toy_waitall_f = F_Waitall 260 1024 2048 268"

definition toy_program :: "event list" where
  "toy_program =
     [Call toy_irecv, Call_f toy_irecv_f, Arrive (\<lambda>m. m(64 := 5)), Call toy_wait, Compute (\<lambda>m. m(64 := m 64 + 1)),
      Call_f toy_waitall_f, Call (Get_rank 1 200)]"

text \<open>The receives they start.\<close>

definition toy_r1 :: request_t where
  "toy_r1 = \<lparr>r_request = 4096, r_datatype = 9, r_buffer = 64, r_bufsize = 3\<rparr>"

definition toy_r2 :: request_t where
  "toy_r2 = \<lparr>r_request = 1024, r_datatype = 0, r_buffer = 80, r_bufsize = 3\<rparr>"

text \<open>The integers the Fortran calls read.\<close>

definition toy_args :: "('w, 'a) process_scheme \<Rightarrow> bool" where
  "toy_args s \<longleftrightarrow> (\<forall>a. 256 \<le> a \<longrightarrow> a < 268 \<longrightarrow> mem (world s) a = mem (world toy_start) a)"

lemma toy_args_int:
  assumes "toy_args s"
  shows "load_int False (mem (world s)) 256 = 3" "load_int False (mem (world s)) 260 = 1"
    "load_int False (mem (world s)) 264 = 0" "get_int toy_mpi 256 s = 3" "get_int toy_mpi 260 s = 1"
proof -
  have same: "load_int False (mem (world s)) p = load_int False (mem (world toy_start)) p" if "p \<in> {256, 260, 264}" for p
    using assms that by (intro load_int_cong) (auto simp: toy_args_def int_cells_bytes)
  have "load_int False (mem (world toy_start)) 256 = 3" "load_int False (mem (world toy_start)) 260 = 1"
    "load_int False (mem (world toy_start)) 264 = 0"
    by (simp_all add: toy_start_def load_int_def)
  then show "load_int False (mem (world s)) 256 = 3" "load_int False (mem (world s)) 260 = 1" "load_int False (mem (world s)) 264 = 0"
    by (simp_all only: same insert_iff simp_thms)
  then show "get_int toy_mpi 256 s = 3" "get_int toy_mpi 260 s = 1" by (simp_all add: get_int_def)
qed

lemma toy_buffers [simp]: "set (toy_cells d n p) = bytes_at (nat n) p"
  by (auto simp: toy_cells_def bytes_at_def)

lemmas toy_defs = call_ok_def f_call_ok_def written_def written_f_def separate_def vars_def request_var_def buffers_def cells_of_def
  data_cells_def data_of_def hidden_def received_cells_def locals_ok_def local_requests_def local_statuses_def
  element_def int_cells_bytes

lemma toy_irecv_ok:
  assumes "recording 40 toy_ghost toy_mpi toy_fortran s Map.empty" "card (dom (heap s)) \<le> 9"
  shows "call_ok toy_mpi toy_ghost toy_controls toy_fortran Map.empty toy_irecv s"
  using assms(2) toy_world_comm [OF assms(1)] toy_free_handle [OF assms(1), of 0]
  by (simp add: toy_irecv_def toy_defs)

lemma toy_irecv_f_ok:
  assumes "recording 40 toy_ghost toy_mpi toy_fortran s [4096 \<mapsto> toy_r1]" "card (dom (heap s)) \<le> 9" "toy_args s"
  shows "f_call_ok toy_mpi toy_ghost toy_controls toy_fortran [4096 \<mapsto> toy_r1] toy_irecv_f s"
  using assms(2) toy_world_comm [OF assms(1)] toy_free_handle [OF assms(1), of 4096] toy_args_int [OF assms(3)]
  by (simp add: toy_irecv_f_def toy_r1_def toy_defs)

lemma toy_wait_ok:
  "call_ok toy_mpi toy_ghost toy_controls toy_fortran [4096 \<mapsto> toy_r1, 1024 \<mapsto> toy_r2] toy_wait s"
  by (simp add: toy_wait_def toy_r1_def toy_r2_def toy_defs)

lemma toy_waitall_f_ok:
  assumes "toy_args s"
  shows "f_call_ok toy_mpi toy_ghost toy_controls toy_fortran [1024 \<mapsto> toy_r2] toy_waitall_f s"
  using toy_args_int [OF assms]
  by (simp add: toy_waitall_f_def toy_r2_def toy_defs request_array_def)

section \<open>Its run\<close>

lemma toy_laws: "capture_laws 40 toy_ghost toy_mpi"
  using toy_mpi_laws toy_fortran_laws toy_allocator by (simp add: capture_laws_def)

text \<open>Its state after a few steps.\<close>

definition toy_state :: "nat \<Rightarrow> (ptr \<rightharpoonup> request_t) \<Rightarrow> toy capture \<Rightarrow> bool" where
  "toy_state n m s \<longleftrightarrow> recording 40 toy_ghost toy_mpi toy_fortran s m \<and> cpt_write s \<le> int n \<and> card (dom (heap s)) \<le> n \<and> toy_args s"

lemma toy_args_kept:
  assumes "toy_args s" "\<And>a. a \<notin> hidden toy_mpi toy_controls m1 \<Longrightarrow> a \<notin> received_cells toy_mpi L \<Longrightarrow> mem (world s1) a = g (mem (world s)) a"
    "\<And>a. 256 \<le> a \<Longrightarrow> a < 268 \<Longrightarrow> a \<notin> buffers toy_mpi m1 \<and> a \<notin> received_cells toy_mpi L \<and> (\<forall>mm. g mm a = mm a)"
  shows "toy_args s1"
  unfolding toy_args_def
proof (intro allI impI)
  fix a :: ptr
  assume a: "256 \<le> a" "a < 268"
  then have "a \<notin> toy_controls" by (auto simp: word_le_nat_alt word_less_nat_alt)
  then show "mem (world s1) a = mem (world toy_start) a"
    using assms(1,2) assms(3) [OF a] a by (simp add: hidden_def toy_args_def)
qed

lemma toy_call_step:
  assumes s: "toy_state n m s" and ok: "call_ok toy_mpi toy_ghost toy_controls toy_fortran m c s" and m1: "pending_after c m = m1"
    and n: "length (received False 2 0 (mem (world s)) m c) \<le> 1" "starts c \<le> 1" "n < 9"
    and kept: "\<And>a. 256 \<le> a \<Longrightarrow> a < 268 \<Longrightarrow> a \<notin> buffers toy_mpi m1 \<and>
      a \<notin> received_cells toy_mpi (received False 2 0 (mem (world s)) m c) \<and> (\<forall>mm. answers False 2 0 c mm a = mm a)"
  shows "\<exists>s1. captured_step toy_mpi toy_ghost toy_controls toy_fortran (Call c) (s, m) (s1, m1) \<and> toy_state (Suc n) m1 s1"
proof -
  let ?L = "received False 2 0 (mem (world s)) m c" and ?g = "answers False 2 0 c"
  have rec: "recording 40 toy_ghost toy_mpi toy_fortran s m" and small: "cpt_write s \<le> int n" "card (dom (heap s)) \<le> n" "toy_args s"
    using s by (simp_all add: toy_state_def)
  have "MPIre_rank s = 0" using rec by (simp add: recording_def logging_def rank_of_def)
  then have L: "capture_receives toy_mpi s m c = ?L" and g: "capture_answers toy_mpi s c = ?g"
    by (simp_all add: size_of_comm_def fun_eq_iff)
  have k: "is_int (cpt_write s + int (length ?L))"
    using rec small(1) n by (simp add: is_int_def recording_def logging_def)
  from capture_step [OF toy_mpi_laws toy_allocator rec ok, unfolded L g, OF k] obtain s1 where
    s1: "capture_call toy_mpi c s = Inr (MPI_SUCCESS, s1)"
      "keeps 40 toy_ghost toy_mpi toy_controls toy_fortran ?L ?g (starts c) m1 s s1" unfolding m1 by blast
  have "captured_step toy_mpi toy_ghost toy_controls toy_fortran (Call c) (s, m) (s1, pending_after c m)"
    using captured_step.call [OF ok _ s1(1)] k unfolding L .
  moreover have "toy_args s1"
    using s1(2) toy_args_kept [OF small(3), of m1 ?L s1 ?g] kept by (simp add: keeps_def)
  ultimately show ?thesis
    using s1(2) small(1,2) n unfolding m1 by (intro exI [of _ s1]) (simp add: toy_state_def keeps_def)
qed

lemma toy_call_f_step:
  assumes s: "toy_state n m s" and ok: "f_call_ok toy_mpi toy_ghost toy_controls toy_fortran m f s"
    and m1: "pending_after_f toy_mpi (mem (world s)) f m = m1"
    and n: "length (received_f toy_mpi 2 0 (mem (world s)) m f) \<le> 1" "starts_f f \<le> 1" "n < 9"
    and kept: "\<And>a. 256 \<le> a \<Longrightarrow> a < 268 \<Longrightarrow> a \<notin> buffers toy_mpi m1 \<and>
      a \<notin> received_cells toy_mpi (received_f toy_mpi 2 0 (mem (world s)) m f) \<and>
      (\<forall>mm. answers_f toy_mpi 2 0 (mem (world s)) f mm a = mm a)"
  shows "\<exists>s1. captured_step toy_mpi toy_ghost toy_controls toy_fortran (Call_f f) (s, m) (s1, m1) \<and> toy_state (Suc n) m1 s1"
proof -
  let ?L = "received_f toy_mpi 2 0 (mem (world s)) m f" and ?g = "answers_f toy_mpi 2 0 (mem (world s)) f"
  have rec: "recording 40 toy_ghost toy_mpi toy_fortran s m" and small: "cpt_write s \<le> int n" "card (dom (heap s)) \<le> n" "toy_args s"
    using s by (simp_all add: toy_state_def)
  have rank: "MPIre_rank s = 0" "size_of_comm toy_mpi (COMM_WORLD toy_mpi) s = 2"
    using rec by (simp_all add: recording_def logging_def rank_of_def size_of_comm_def)
  have k: "is_int (cpt_write s + int (length ?L))"
    using rec small(1) n by (simp add: is_int_def recording_def logging_def)
  from capture_f_step [OF toy_mpi_laws toy_fortran_laws toy_allocator rec ok refl, unfolded rank, OF k] obtain s1 where
    s1: "capture_f toy_mpi f s = Inr s1"
      "keeps 40 toy_ghost toy_mpi toy_controls toy_fortran ?L ?g (starts_f f) m1 s s1" unfolding m1 by blast
  have "captured_step toy_mpi toy_ghost toy_controls toy_fortran (Call_f f) (s, m) (s1, pending_after_f toy_mpi (mem (world s)) f m)"
    using captured_step.call_f [OF ok _ s1(1)] k unfolding rank .
  moreover have "toy_args s1"
    using s1(2) toy_args_kept [OF small(3), of m1 ?L s1 ?g] kept by (simp add: keeps_def)
  ultimately show ?thesis
    using s1(2) small(1,2) n unfolding m1 by (intro exI [of _ s1]) (simp add: toy_state_def keeps_def)
qed

text \<open>Between the calls only the byte at 64 changes.\<close>

lemma toy_state_on_mem:
  assumes "toy_state n m s" "64 \<notin> vars toy_mpi toy_fortran (dom m)" "\<And>a. a \<noteq> 64 \<Longrightarrow> f (mem (world s)) a = mem (world s) a"
  shows "toy_state n m (on_mem f s)"
proof -
  have "recording 40 toy_ghost toy_mpi toy_fortran (on_mem f s) m"
  proof (intro recording_on_mem [OF toy_mpi_laws])
    show "f (mem (world s)) a = mem (world s) a" if "a \<in> vars toy_mpi toy_fortran (dom m)" for a
      using that assms(2,3) by metis
  qed (use assms(1) in \<open>simp add: toy_state_def\<close>)
  moreover have "f (mem (world s)) a = mem (world s) a" if "256 \<le> a" for a
    using that assms(3) [of a] by fastforce
  ultimately show ?thesis using assms(1) by (simp add: toy_state_def toy_args_def)
qed

lemma toy_store:
  assumes "256 \<le> a" "a < 268"
  shows "store_int be 268 i mm a = mm a" "store_int be 200 i mm a = mm a"
  using assms by (auto intro!: store_int_frame simp: int_cells_def)

lemma toy_run:
  assumes "recording 40 toy_ghost toy_mpi toy_fortran s Map.empty" "cpt_write s = 0" "heap s = Map.empty" "mem (world s) = mem (world toy_start)"
  shows "\<exists>s'. captured toy_mpi toy_ghost toy_controls toy_fortran s Map.empty toy_program s' Map.empty"
proof -
  let ?step = "captured_step toy_mpi toy_ghost toy_controls toy_fortran"
  let ?m1 = "[4096 \<mapsto> toy_r1]" and ?m2 = "[4096 \<mapsto> toy_r1, 1024 \<mapsto> toy_r2]" and ?m3 = "[1024 \<mapsto> toy_r2]"
  note defs = buffers_def cells_of_def data_cells_def data_of_def received_cells_def toy_r1_def toy_r2_def
  have s: "toy_state 0 Map.empty s" using assms by (simp add: toy_state_def toy_args_def)
  have ok1: "call_ok toy_mpi toy_ghost toy_controls toy_fortran Map.empty toy_irecv s"
    using assms(1,3) by (intro toy_irecv_ok) simp_all
  have "\<exists>s1. ?step (Call toy_irecv) (s, Map.empty) (s1, ?m1) \<and> toy_state (Suc 0) ?m1 s1"
    by (rule toy_call_step [OF s ok1]) (auto simp: toy_irecv_def defs)
  then obtain s1 where s1: "?step (Call toy_irecv) (s, Map.empty) (s1, ?m1)" "toy_state 1 ?m1 s1" by auto
  have ok2: "f_call_ok toy_mpi toy_ghost toy_controls toy_fortran ?m1 toy_irecv_f s1"
    using s1(2) by (intro toy_irecv_f_ok) (simp_all add: toy_state_def)
  have "pending_after_f toy_mpi (mem (world s1)) toy_irecv_f ?m1 = ?m2"
    using s1(2) toy_args_int [of s1] by (simp add: toy_state_def toy_irecv_f_def toy_r2_def) (simp add: toy_mpi_def)
  then have "\<exists>s2. ?step (Call_f toy_irecv_f) (s1, ?m1) (s2, ?m2) \<and> toy_state (Suc 1) ?m2 s2"
    by (rule toy_call_f_step [OF s1(2) ok2]) (auto simp: toy_irecv_f_def defs answers_f_def toy_store)
  then obtain s2 where s2: "?step (Call_f toy_irecv_f) (s1, ?m1) (s2, ?m2)" "toy_state 2 ?m2 s2" by (auto simp: numeral_2_eq_2)
  let ?f = "\<lambda>m :: memory. m(64 := 5)" and ?g = "\<lambda>m :: memory. m(64 := m 64 + 1)"
  have s3: "?step (Arrive ?f) (s2, ?m2) (on_mem ?f s2, ?m2)"
    by (rule captured_step.arrive) (auto simp: defs)
  have state3: "toy_state 2 ?m2 (on_mem ?f s2)"
    using s2(2) by (rule toy_state_on_mem) (simp_all add: vars_def request_var_def int_cells_bytes)
  have "pending_after toy_wait ?m2 = ?m3" by (auto simp: toy_wait_def restrict_map_def)
  then have "\<exists>s4. ?step (Call toy_wait) (on_mem ?f s2, ?m2) (s4, ?m3) \<and> toy_state (Suc 2) ?m3 s4"
    by (rule toy_call_step [OF state3 toy_wait_ok]) (auto simp: toy_wait_def defs)
  then obtain s4 where s4: "?step (Call toy_wait) (on_mem ?f s2, ?m2) (s4, ?m3)" "toy_state (Suc 2) ?m3 s4" by blast
  have s5: "?step (Compute ?g) (s4, ?m3) (on_mem ?g s4, ?m3)"
    by (rule captured_step.compute) (auto simp: agree_def vars_def request_var_def int_cells_bytes)
  have state5: "toy_state (Suc 2) ?m3 (on_mem ?g s4)"
    using s4(2) by (rule toy_state_on_mem) (simp_all add: vars_def request_var_def int_cells_bytes)
  have args5: "toy_args (on_mem ?g s4)" using state5 by (simp add: toy_state_def)
  have "pending_after_f toy_mpi (mem (world (on_mem ?g s4))) toy_waitall_f ?m3 = Map.empty"
    using toy_args_int [OF args5] by (auto simp: toy_waitall_f_def restrict_map_def request_array_def element_def)
  then have "\<exists>s6. ?step (Call_f toy_waitall_f) (on_mem ?g s4, ?m3) (s6, Map.empty) \<and> toy_state (Suc (Suc 2)) Map.empty s6"
    using toy_args_int [OF args5]
    by - (rule toy_call_f_step [OF state5 toy_waitall_f_ok [OF args5]],
      auto simp: toy_waitall_f_def defs answers_f_def toy_store request_array_def element_def)
  then obtain s6 where s6: "?step (Call_f toy_waitall_f) (on_mem ?g s4, ?m3) (s6, Map.empty)" "toy_state (Suc (Suc 2)) Map.empty s6" by blast
  have "recording 40 toy_ghost toy_mpi toy_fortran s6 Map.empty" using s6(2) by (simp add: toy_state_def)
  then have ok7: "call_ok toy_mpi toy_ghost toy_controls toy_fortran Map.empty (Get_rank 1 200) s6"
    using toy_world_comm by (simp add: call_ok_def vars_def separate_def)
  have "\<exists>s7. ?step (Call (Get_rank 1 200)) (s6, Map.empty) (s7, Map.empty) \<and> toy_state (Suc (Suc (Suc 2))) Map.empty s7"
    by (rule toy_call_step [OF s6(2) ok7]) (auto simp: defs toy_store)
  then obtain s7 where s7: "?step (Call (Get_rank 1 200)) (s6, Map.empty) (s7, Map.empty)" by blast
  note more = run.more [where step = "?step"] and stop = run.stop [where step = "?step"]
  show ?thesis
    unfolding captured_def toy_program_def
    by (rule exI [of _ s7], rule more [OF s1(1) more [OF s2(1) more [OF s3 more [OF s4(1)
      more [OF s5 more [OF s6(1) more [OF s7 stop]]]]]]])
qed

end
