(* ===== verification/Record_Replay.thy ===== *)
theory Record_Replay
  imports Toy_Program
begin

text \<open>The properties of the two libraries together, for programs in C and in Fortran.\<close>

section \<open>The capture\<close>

text \<open>C6. The capture is invisible: whatever a call returns and leaves in the memory of the program is
  what the MPI library returned and left there, for every function of the C interface and every
  state, whether the process is captured or not.\<close>

theorem capture_transparent:
  assumes "quiet_files M" "capture_call M c s = Inr (ret, s')"
  shows "ret = fst (PMPI M c (world s)) \<and> mem (world s') = mem (snd (PMPI M c (world s)))"
  by (rule capture_call_transparent [OF assms])

lemma toy_quiet: "quiet_files toy_mpi"
  by (auto simp: quiet_files_def toy_mpi_def toy_open_def toy_write_def Let_def split: access_mode.splits option.splits)

lemma toy_recording: "recording 40 toy_ghost toy_mpi F toy_logging Map.empty"
proof -
  have "pending 40 (big_endian toy_mpi) toy_logging Map.empty"
    by (rule pending_start) (simp_all add: toy_logging_ok)
  then show ?thesis
    using toy_logging_ok
    by (simp add: recording_def logging_def rank_of_def is_int_def posted_ok_def separate_def vars_def toy_logging_def
        toy_start_def toy_ghost_def toy_posted_def)
qed

lemma toy_recv_ok: "call_ok toy_mpi toy_ghost toy_controls toy_fortran Map.empty (Recv 64 3 9 1 5 1 12288) toy_logging"
  using toy_world_comm [OF toy_recording] by (simp add: toy_defs)

lemma toy_logging_counter: "is_int (cpt_write toy_logging + int (length L))" if "length L \<le> 1" for L :: "data list"
  using that by (simp add: toy_logging_ok is_int_def)

theorem capture_transparent_witness:
  "\<exists>s'. capture_call toy_mpi (Recv 64 3 9 1 5 1 12288) toy_logging = Inr (MPI_SUCCESS, s') \<and>
     MPI_SUCCESS = fst (PMPI toy_mpi (Recv 64 3 9 1 5 1 12288) (world toy_logging)) \<and>
     mem (world s') = mem (snd (PMPI toy_mpi (Recv 64 3 9 1 5 1 12288) (world toy_logging)))"
proof -
  obtain s' where s': "capture_call toy_mpi (Recv 64 3 9 1 5 1 12288) toy_logging = Inr (MPI_SUCCESS, s')"
    using capture_step [OF toy_mpi_laws toy_allocator toy_recording toy_recv_ok toy_logging_counter] by auto
  from capture_transparent [OF toy_quiet s'] s' show ?thesis by blast
qed

text \<open>C4. Every call of a C program returns MPI_SUCCESS in the capture, if the log can be written, the
  allocator has memory left and the call is one the log can stand for (\<open>call_ok\<close>). It writes one
  log file for each buffer it received, in order, with the content of just that buffer after
  the call (an older, longer file keeps its tail), and no other file; the request table holds the receives pending afterwards.\<close>

theorem capture_call_correct:
  assumes "mpi_laws G M" "good_allocator hb M" "recording hb G M F s m" "call_ok M G Q F m c s"
    "L = received (big_endian M) (size_of_comm M (COMM_WORLD M) s) (MPIre_rank s) (mem (world s)) m c"
    "is_int (cpt_write s + int (length L))"
  shows "\<exists>s'. capture_call M c s = Inr (MPI_SUCCESS, s') \<and> recording hb G M F s' (pending_after c m) \<and>
    cpt_write s' = cpt_write s + int (length L) \<and>
    files (world s') = log_all (MPIre_output_path s) (cpt_write s) (contents M (mem (world s')) L) (files (world s))"
  using capture_step [OF assms(1-4)] assms(6) unfolding assms(5) keeps_def by blast

theorem capture_call_correct_witness:
  "\<exists>s'. capture_call toy_mpi (Recv 64 3 9 1 5 1 12288) toy_logging = Inr (MPI_SUCCESS, s') \<and>
    recording 40 toy_ghost toy_mpi toy_fortran s' (pending_after (Recv 64 3 9 1 5 1 12288) Map.empty) \<and>
    cpt_write s' = cpt_write toy_logging + int (length [(64 :: ptr, 3 :: int, 9 :: u64)]) \<and>
    files (world s') = log_all (MPIre_output_path toy_logging) (cpt_write toy_logging)
      (contents toy_mpi (mem (world s')) [(64, 3, 9)]) (files (world toy_logging))"
  by (rule capture_call_correct [OF toy_mpi_laws toy_allocator toy_recording toy_recv_ok _ toy_logging_counter]) simp_all

text \<open>C5. The same for the calls of a Fortran program, whose wrappers convert requests and statuses to C
  and back: the call succeeds, with MPI_SUCCESS in its last argument, writes the log files of
  the buffers it received, for MPI_Waitall of all the receives in its array, and changes nothing
  else of the memory the program can see, apart from these buffers and the results it asked for.\<close>

theorem capture_fortran_correct:
  assumes "mpi_laws G M" "fortran_laws G M" "good_allocator hb M" "recording hb G M F s m" "f_call_ok M G Q F m f s"
    "L = received_f M (size_of_comm M (COMM_WORLD M) s) (MPIre_rank s) (mem (world s)) m f"
    "is_int (cpt_write s + int (length L))"
  shows "\<exists>s'. capture_f M f s = Inr s' \<and> recording hb G M F s' (pending_after_f M (mem (world s)) f m) \<and>
    cpt_write s' = cpt_write s + int (length L) \<and>
    files (world s') = log_all (MPIre_output_path s) (cpt_write s) (contents M (mem (world s')) L) (files (world s)) \<and>
    (\<forall>a. a \<notin> hidden M Q (pending_after_f M (mem (world s)) f m) \<union> received_cells M L \<longrightarrow>
       mem (world s') a = store_int (big_endian M) (ierror_of f) MPI_SUCCESS
         (answers (big_endian M) (size_of_comm M (COMM_WORLD M) s) (MPIre_rank s) (in_c M (mem (world s)) f) (mem (world s))) a)"
  using capture_f_step [OF assms] unfolding keeps_def answers_f_def by fastforce

lemma toy_logging_args: "toy_args toy_logging"
  by (simp add: toy_args_def toy_logging_def)

lemma toy_recv_f_ok: "f_call_ok toy_mpi toy_ghost toy_controls toy_fortran Map.empty (F_Recv 64 256 264 264 264 264 2048 268) toy_logging"
  using toy_world_comm [OF toy_recording] toy_args_int [OF toy_logging_args] by (simp add: toy_defs)

theorem capture_fortran_correct_witness:
  "\<exists>s'. capture_f toy_mpi (F_Recv 64 256 264 264 264 264 2048 268) toy_logging = Inr s' \<and>
    recording 40 toy_ghost toy_mpi toy_fortran s' Map.empty \<and> cpt_write s' = 1 \<and>
    files (world s') = log_all ''log'' 0 (contents toy_mpi (mem (world s')) [(64, 3, 0)]) (files (world toy_logging)) \<and>
    get_int toy_mpi 268 s' = MPI_SUCCESS"
proof -
  let ?f = "F_Recv 64 256 264 264 264 264 2048 268"
  have L: "[(64, 3, 0)] = received_f toy_mpi (size_of_comm toy_mpi (COMM_WORLD toy_mpi) toy_logging)
      (MPIre_rank toy_logging) (mem (world toy_logging)) Map.empty ?f"
    using toy_args_int [OF toy_logging_args] by simp (simp add: toy_mpi_def)
  let ?w = "mem (world toy_logging)"
  have k: "is_int (cpt_write toy_logging + int (length [(64 :: ptr, 3 :: int, 0 :: u64)]))" by (rule toy_logging_counter) simp
  from capture_fortran_correct [OF toy_mpi_laws toy_fortran_laws toy_allocator toy_recording toy_recv_f_ok L k]
  obtain s' where s': "capture_f toy_mpi ?f toy_logging = Inr s'"
    "recording 40 toy_ghost toy_mpi toy_fortran s' (pending_after_f toy_mpi ?w ?f Map.empty)"
    "cpt_write s' = cpt_write toy_logging + int (length [(64 :: ptr, 3 :: int, 0 :: u64)])"
    "files (world s') = log_all (MPIre_output_path toy_logging) (cpt_write toy_logging)
      (contents toy_mpi (mem (world s')) [(64, 3, 0)]) (files (world toy_logging))"
    and mem: "\<forall>a. a \<notin> hidden toy_mpi toy_controls (pending_after_f toy_mpi ?w ?f Map.empty) \<union> received_cells toy_mpi [(64, 3, 0)] \<longrightarrow>
       mem (world s') a = store_int (big_endian toy_mpi) (ierror_of ?f) MPI_SUCCESS
         (answers (big_endian toy_mpi) (size_of_comm toy_mpi (COMM_WORLD toy_mpi) toy_logging) (MPIre_rank toy_logging) (in_c toy_mpi ?w ?f) ?w) a"
    by blast
  have mem: "mem (world s') a = store_int False 268 MPI_SUCCESS ?w a" if "a \<in> int_cells 268" for a
    using mem [rule_format, of a] that by (auto simp: int_cells_def hidden_def buffers_def received_cells_def data_cells_def)
  have "get_int toy_mpi 268 s' = load_int False (store_int False 268 MPI_SUCCESS (mem (world toy_logging))) 268"
    unfolding get_int_def toy_sizes by (rule load_int_cong) (rule mem)
  also have "\<dots> = MPI_SUCCESS" by (simp add: load_store_int MPI_SUCCESS_def is_int_def)
  finally show ?thesis using s' by (simp add: toy_logging_ok)
qed

section \<open>Whole runs\<close>

text \<open>C2. The replay of a captured run of a program in C and Fortran: started in step with the capture, from
  the log files the capture left, whatever longer content they had before, it makes all its
  calls without an error, and at the end its memory is that of the captured process, apart from
  buffers of receives still pending and variables of requests and statuses. Data may arrive in
  pending buffers at any time during the capture; the replay fills them when the program waits
  for them.\<close>

theorem record_replay:
  assumes "capture_laws hb G M" "recording hb G M F s m" "captured M G Q F s m es s' m'"
    "compatible hb' Q G' M' M" "in_step hb' M Q m s r" "has_log r s s'"
  shows "\<exists>r'. replay_events M' es r = Inr r' \<and> in_step hb' M Q m' s' r' \<and>
    agree (hidden M Q m') (mem (world s')) (mem (world r'))"
  using replay_in_step [OF assms(3,1,2,4,5,6)] by (auto simp: in_step_def)

text \<open>The log files a run writes come from its receives.\<close>

lemma completed_length:
  assumes "finite (dom m)"
  shows "length (completed m ks) + card (dom (m |` (- set ks))) = card (dom m)"
  using assms
proof (induction ks arbitrary: m)
  case (Cons k ks)
  have fin: "finite (dom (m(k := None)))" using Cons.prems by simp
  have "length (completed (m(k := None)) ks) + card (dom (m |` (- set (k # ks)))) = card (dom (m(k := None)))"
    using Cons.IH [OF fin] unfolding restrict_rest .
  moreover have "card (dom m) = (case m k of None \<Rightarrow> 0 | Some r \<Rightarrow> 1) + card (dom (m(k := None)))"
  proof (cases "m k")
    case (Some r)
    then show ?thesis using card_Suc_Diff1 [OF Cons.prems domI [of m k, OF Some]] by (simp del: card_Diff_insert)
  qed (simp add: fun_upd_idem)
  ultimately show ?case by (auto split: option.split)
qed (simp add: restrict_map_def)

lemma received_bound:
  assumes "finite (dom m)"
  shows "length (received be sz rank mm m c) + card (dom (pending_after c m)) \<le> card (dom m) + 1"
proof (cases c)
  case (Wait request status)
  then show ?thesis using completed_length [OF assms, of "[request]"] by simp
next
  case (Irecv b n d source tag comm request)
  then show ?thesis using assms by (simp add: card_insert_if)
qed simp_all

lemma received_f_bound:
  assumes "finite (dom m)"
  shows "length (received_f M sz rank mm m f) + card (dom (pending_after_f M mm f m)) \<le> card (dom m) + 1"
proof (cases f)
  case (F_Waitall n requests statuses ierror)
  then show ?thesis using completed_length [OF assms, of "request_array requests (int_in M mm n)"] by simp
qed (use received_bound [OF assms, of "big_endian M" sz rank mm "in_c M mm f"] in \<open>simp_all only: received_f.simps pending_after_f.simps\<close>)

lemma captured_step_bound:
  assumes laws: "capture_laws hb G M" and step: "captured_step M G Q F e (s, m) (s1, m1)" and s: "recording hb G M F s m"
  shows "cpt_write s1 + int (card (dom m1)) \<le> cpt_write s + int (card (dom m)) + 1"
proof -
  have fin: "finite (dom m)" using s by (simp add: recording_def pending_def)
  from step show ?thesis
  proof (cases rule: captured_step_cases)
    case (call c ret)
    have "cpt_write s1 = cpt_write s + int (length (capture_receives M s m c))"
      using capture_step [of G M hb F s m Q c] laws s call by (auto simp: capture_laws_def keeps_def)
    then show ?thesis using call(2) received_bound [OF fin, of "big_endian M" "size_of_comm M (COMM_WORLD M) s" "MPIre_rank s" "mem (world s)" c] by simp
  next
    case (call_f f)
    let ?L = "received_f M (size_of_comm M (COMM_WORLD M) s) (MPIre_rank s) (mem (world s)) m f"
    have "cpt_write s1 = cpt_write s + int (length ?L)"
      using capture_f_step [of G M hb F s m Q f, OF _ _ _ s call_f(3) refl call_f(4)] laws call_f(5)
      by (auto simp: capture_laws_def keeps_def)
    then show ?thesis using call_f(2) received_f_bound [OF fin, of M "size_of_comm M (COMM_WORLD M) s" "MPIre_rank s" "mem (world s)" f] by simp
  qed simp_all
qed

lemma captured_run_bound:
  assumes "captured M G Q F s m es s' m'" "capture_laws hb G M" "recording hb G M F s m"
  shows "cpt_write s' + int (card (dom m')) \<le> cpt_write s + int (card (dom m)) + int (length es)"
proof -
  have "cpt_write (fst p') + int (card (dom (snd p'))) \<le> cpt_write (fst p) + int (card (dom (snd p))) + int (length es)"
    if "run (captured_step M G Q F) p es p'" "recording hb G M F (fst p) (snd p)" for p p'
    using that
  proof (induction rule: run.induct)
    case (more e p p1 es p')
    obtain s m s1 m1 where p: "p = (s, m)" "p1 = (s1, m1)" by (metis prod.exhaust)
    have rec: "recording hb G M F s m" using more.prems p by simp
    have "cpt_write s1 + int (card (dom m1)) \<le> cpt_write s + int (card (dom m)) + 1"
      using captured_step_bound [OF assms(2) more.hyps(1) [unfolded p] rec] .
    moreover have "recording hb G M F s1 m1" using step_keeps [OF assms(2) more.hyps(1) [unfolded p] rec] by blast
    ultimately show ?case using more.IH by (simp add: p)
  qed simp
  from this [of "(s, m)" "(s', m')"] show ?thesis using assms by (simp add: captured_def)
qed

text \<open>C7. What a captured run leaves behind: the run has received a list of buffers, one after the other,
  and each is in a log file of its own, the first in the file with the old value of the counter,
  with the content it had when the call that received it returned (an older, longer file keeps
  its tail); no other file has changed; the counter is further by the number of buffers; and the
  process can go on recording, with the receives pending that its calls left. Each event starts or
  completes at most one receive, but a Fortran MPI_Waitall: so the files written and the receives
  left pending are at most as many as the receives that were pending before and the events.\<close>

theorem captured_run_log:
  assumes "captured M G Q F s m es s' m'" "capture_laws hb G M" "recording hb G M F s m"
  shows "\<exists>bss. received_in M G Q F s m es s' m' bss \<and>
    files (world s') = log_all (MPIre_output_path s) (cpt_write s) bss (files (world s)) \<and>
    (\<forall>i < length bss. \<exists>old. files (world s') (log_path (MPIre_output_path s) (cpt_write s + int i)) = Some (overwrite (bss ! i) old)) \<and>
    cpt_write s' = cpt_write s + int (length bss) \<and> recording hb G M F s' m' \<and> log_grows s s' \<and>
    cpt_write s' - cpt_write s + int (card (dom m')) \<le> int (card (dom m)) + int (length es)"
proof -
  obtain bss where bss: "received_in M G Q F s m es s' m' bss" using captured_received [OF assms(1)] by blast
  have files: "files (world s') = log_all (MPIre_output_path s) (cpt_write s) bss (files (world s))"
    using received_logs [OF bss assms(2,3)] by blast
  have "\<forall>i < length bss. \<exists>old. files (world s') (log_path (MPIre_output_path s) (cpt_write s + int i)) = Some (overwrite (bss ! i) old)"
    unfolding files by (simp add: log_all_at)
  moreover have "cpt_write s' - cpt_write s + int (card (dom m')) \<le> int (card (dom m)) + int (length es)"
    using captured_run_bound [OF assms] by linarith
  ultimately show ?thesis
    using bss received_logs [OF bss assms(2,3)] captured_keeps [OF assms] by blast
qed

lemma toy_logging_run:
  "\<exists>s'. captured toy_mpi toy_ghost toy_controls toy_fortran toy_logging Map.empty toy_program s' Map.empty"
  by (rule toy_run [OF toy_recording]) (simp_all add: toy_logging_ok, simp add: toy_logging_def)

theorem captured_run_log_witness:
  "\<exists>s' bss. received_in toy_mpi toy_ghost toy_controls toy_fortran toy_logging Map.empty toy_program s' Map.empty bss \<and>
     files (world s') = log_all ''log'' 0 bss (files (world toy_logging)) \<and> cpt_write s' = int (length bss) \<and>
     recording 40 toy_ghost toy_mpi toy_fortran s' Map.empty \<and> log_grows toy_logging s' \<and> cpt_write s' \<le> 7"
proof -
  obtain s' where run: "captured toy_mpi toy_ghost toy_controls toy_fortran toy_logging Map.empty toy_program s' Map.empty"
    using toy_logging_run by blast
  from captured_run_log [OF run toy_laws toy_recording] run show ?thesis
    by (auto simp: toy_logging_ok toy_program_def)
qed

lemma toy_compatible: "compatible 40 toy_controls toy_ghost toy_mpi toy_mpi"
proof -
  have "\<exists>l. PMPI toy_mpi Finalize w = (MPI_SUCCESS, w\<lparr>lib := l\<rparr>)" for w
    by (rule exI [of _ "lib w"]) (simp add: toy_mpi_def)
  moreover have "Status_f2c toy_mpi p q mm = mm" for p q mm by (simp add: toy_mpi_def)
  ultimately show ?thesis using toy_file_laws toy_allocator by (simp add: compatible_def)
qed

theorem record_replay_witness:
  "\<exists>s' r'. captured toy_mpi toy_ghost toy_controls toy_fortran toy_logging Map.empty toy_program s' Map.empty \<and>
     replay_events toy_mpi toy_program (toy_replaying\<lparr>world := (world toy_replaying)\<lparr>files := files (world s')\<rparr>\<rparr>) = Inr r' \<and>
     in_step 40 toy_mpi toy_controls Map.empty s' r' \<and>
     agree (hidden toy_mpi toy_controls Map.empty) (mem (world s')) (mem (world r'))"
proof -
  obtain s' where run: "captured toy_mpi toy_ghost toy_controls toy_fortran toy_logging Map.empty toy_program s' Map.empty"
    using toy_logging_run by blast
  let ?r = "toy_replaying\<lparr>world := (world toy_replaying)\<lparr>files := files (world s')\<rparr>\<rparr>"
  have "pending 40 (big_endian toy_mpi) ?r Map.empty"
    by (rule pending_start) (simp_all add: toy_replaying_def)
  then have step: "in_step 40 toy_mpi toy_controls Map.empty toy_logging ?r"
    by (simp add: in_step_def toy_replaying_def toy_logging_def toy_start_def agree_def size_of_comm_def)
  have log: "has_log ?r toy_logging s'" by (simp add: has_log_def)
  from record_replay [OF toy_laws toy_recording run toy_compatible step log] run show ?thesis by blast
qed

section \<open>Pending receives\<close>

text \<open>The entries of pending receives: each under its own request, with a buffer of a length.\<close>

definition typed_pending :: "(ptr \<rightharpoonup> request_t) \<Rightarrow> bool" where
  "typed_pending m \<longleftrightarrow> (\<forall>k r. m k = Some r \<longrightarrow> r_request r = k \<and> 0 \<le> r_bufsize r)"

lemma typed_restrict: "typed_pending m \<Longrightarrow> typed_pending (m |` A)"
  by (simp add: typed_pending_def restrict_map_def)

lemma typed_update: "typed_pending m \<Longrightarrow> r_request r = k \<Longrightarrow> 0 \<le> r_bufsize r \<Longrightarrow> typed_pending (m(k \<mapsto> r))"
  by (simp add: typed_pending_def)

lemma typed_after:
  assumes "args_ok M G Q F m c s" "typed_pending m"
  shows "typed_pending (pending_after c m)"
  using assms typed_restrict [OF assms(2)] by (cases c) (simp_all add: typed_update)

lemma typed_after_f:
  assumes "f_args_ok M F m f s" "typed_pending m"
  shows "typed_pending (pending_after_f M (mem (world s)) f m)"
  using assms typed_restrict [OF assms(2)] by (cases f) (simp_all add: typed_update get_int_def)

text \<open>C8. Along every captured run the counter stays an int that is not negative, and the table of pending
  receives stays well formed: it finds each pending receive at the address of its request, in a
  block with this address and the length of a buffer, and it finds nothing at other addresses.\<close>

theorem captured_run_typed:
  assumes "captured M G Q F s m es s' m'" "capture_laws hb G M" "recording hb G M F s m" "typed_pending m"
  shows "is_int (cpt_write s') \<and> 0 \<le> cpt_write s' \<and>
    (\<forall>k. case m' k of
       None \<Rightarrow> get_request M k s' = Inr NULL
     | Some r \<Rightarrow> (\<exists>p. get_request M k s' = Inr p \<and> p \<noteq> NULL \<and> heap s' p = Some r) \<and> r_request r = k \<and> 0 \<le> r_bufsize r)"
proof -
  have "typed_pending (snd p')" if "run (captured_step M G Q F) p es p'" "typed_pending (snd p)" for p p'
    using that
  proof (induction rule: run.induct)
    case (more e p p1 es p')
    obtain s m s1 m1 where p: "p = (s, m)" "p1 = (s1, m1)" by (metis prod.exhaust)
    from more.hyps(1) [unfolded p] have "typed_pending m1"
    proof (cases rule: captured_step_cases)
      case (call c ret)
      then show ?thesis using typed_after [of M G Q F m c s] more.prems by (simp add: call_ok_def p)
    next
      case (call_f f)
      then show ?thesis using typed_after_f [OF f_call_okD(1), OF call_f(3)] more.prems by (simp add: p)
    qed (use more.prems p in simp_all)
    then show ?case using more.IH by (simp add: p)
  qed simp
  then have typed: "typed_pending m'" using assms(1,4) by (fastforce simp: captured_def)
  have rec: "recording hb G M F s' m'" using captured_keeps(1) [OF assms(1-3)] .
  then have pend: "pending hb (big_endian M) s' m'" by (simp add: recording_def)
  have "case m' k of
       None \<Rightarrow> get_request M k s' = Inr NULL
     | Some r \<Rightarrow> (\<exists>p. get_request M k s' = Inr p \<and> p \<noteq> NULL \<and> heap s' p = Some r) \<and> r_request r = k \<and> 0 \<le> r_bufsize r" for k
    using get_request_pending [OF pend, of k] typed by (auto simp: typed_pending_def split: option.split)
  then show ?thesis using rec by (auto simp: recording_def logging_def)
qed

lemma toy_typed: "typed_pending Map.empty"
  by (simp add: typed_pending_def)

theorem captured_run_typed_witness:
  "\<exists>s'. captured toy_mpi toy_ghost toy_controls toy_fortran toy_logging Map.empty toy_program s' Map.empty \<and>
     0 \<le> cpt_write s' \<and> (\<forall>k. get_request toy_mpi k s' = Inr NULL)"
proof -
  obtain s' where run: "captured toy_mpi toy_ghost toy_controls toy_fortran toy_logging Map.empty toy_program s' Map.empty"
    using toy_logging_run by blast
  from captured_run_typed [OF run toy_laws toy_recording toy_typed] run show ?thesis by auto
qed

text \<open>A program that waits for the requests \<open>ks\<close>, in this order.\<close>

abbreviation (input) waits :: "ptr \<Rightarrow> ptr list \<Rightarrow> event list" where
  "waits status ks \<equiv> map (\<lambda>k. Call (Wait k status)) ks"

lemma waits_received:
  assumes laws: "capture_laws hb G M" and s: "recording hb G M F s m" "typed_pending m"
    and ks: "set ks \<inter> F = {}" "\<forall>k \<in> set ks. request_cells M k \<subseteq> Q \<and> status_cells M status \<subseteq> Q"
      "\<forall>k \<in> set ks. \<forall>k' \<in> dom m - {k}. (request_cells M k \<union> status_cells M status) \<inter> request_var M F k' = {}"
    and valid: "\<forall>ks1 k ks2 s1 m1. ks = ks1 @ k # ks2 \<longrightarrow> captured M G Q F s m (waits status ks1) s1 m1 \<longrightarrow>
      valid G (Wait k status) (world s1)"
    and counter: "is_int (cpt_write s + int (card (dom m)))"
  shows "\<exists>s' bss. received_in M G Q F s m (waits status ks) s' (m |` (- set ks)) bss \<and>
    map length bss = map (\<lambda>x. length (data_cells M (data_of x))) (completed m ks)"
  using ks valid
proof (induction ks rule: rev_induct)
  case Nil
  have "received_in M G Q F s m [] s m []" by (simp add: received_in_def outputs.silent)
  then show ?case by (intro exI [of _ s] exI [of _ "[]"]) simp
next
  case (snoc k ks)
  let ?m = "m |` (- set ks)" and ?c = "Wait k status"
  have fin: "finite (dom m)" using s(1) by (simp add: recording_def pending_def)
  have "\<forall>ks1 k' ks2 s1 m1. ks = ks1 @ k' # ks2 \<longrightarrow> captured M G Q F s m (waits status ks1) s1 m1 \<longrightarrow> valid G (Wait k' status) (world s1)"
    using snoc.prems(4) by (metis append.assoc append_Cons)
  then obtain s1 bss where s1: "received_in M G Q F s m (waits status ks) s1 ?m bss"
    "map length bss = map (\<lambda>x. length (data_cells M (data_of x))) (completed m ks)"
    using snoc.IH snoc.prems(1-3) by auto
  note run = received_in_captured [OF s1(1)]
  have rec: "recording hb G M F s1 ?m" using captured_keeps(1) [OF run laws s(1)] .
  have typed: "typed_pending ?m" using s(2) by (rule typed_restrict)
  have valid: "valid G ?c (world s1)" using snoc.prems(4) run by blast
  have "(request_cells M k \<union> status_cells M status) \<inter> vars M F (dom ?m - {k}) = {}"
    using snoc.prems(3) by (fastforce simp: vars_def)
  then have ok: "call_ok M G Q F ?m ?c s1"
    using snoc.prems(1,2) valid typed rec dom_kept [of ?m "{k}"] separate_restrict [of M F ?m "- {k}"]
    by (simp add: call_ok_def written_def typed_pending_def recording_def)
  have "length (capture_receives M s1 ?m ?c) + card (dom (pending_after ?c ?m)) = card (dom ?m)"
    using completed_length [of ?m "[k]"] fin by (simp add: finite_subset [OF _ fin])
  moreover have "length (completed m ks) + card (dom ?m) = card (dom m)" using completed_length [OF fin] .
  moreover have "cpt_write s1 = cpt_write s + int (length (completed m ks))"
    using received_logs(2) [OF s1(1) laws s(1)] s1(2) map_eq_imp_length_eq by fastforce
  ultimately have "is_int (cpt_write s1 + int (length (capture_receives M s1 ?m ?c)))"
    using counter rec s(1) by (auto simp: is_int_def recording_def logging_def)
  then obtain s2 where s2: "captured_step M G Q F (Call ?c) (s1, ?m) (s2, pending_after ?c ?m)"
    using capture_step [OF _ _ rec ok] captured_step.call [OF ok] laws unfolding capture_laws_def by blast
  have "- set ks \<inter> - {k} = - set (ks @ [k])" by auto
  then have m: "pending_after ?c ?m = m |` (- set (ks @ [k]))" by simp
  have "outputs (captured_step M G Q F) (step_log M) (s1, ?m) [Call ?c] (s2, m |` (- set (ks @ [k])))
      (step_log M (Call ?c) (s1, ?m) (s2, m |` (- set (ks @ [k]))) @ [])"
    using s2 unfolding m by (intro outputs.intros)
  then have "received_in M G Q F s m (waits status (ks @ [k])) s2 (m |` (- set (ks @ [k])))
      (bss @ contents M (mem (world s2)) (map data_of (completed ?m [k])))"
    using outputs_append s1(1) unfolding received_in_def by fastforce
  moreover have "map length (bss @ contents M (mem (world s2)) (map data_of (completed ?m [k]))) =
      map (\<lambda>x. length (data_cells M (data_of x))) (completed m (ks @ [k]))"
    unfolding completed_append by (simp add: s1(2) contents_def del: completed.simps)
  ultimately show ?case by blast
qed

text \<open>C9. No receive stays pending for ever: when the program waits for requests of C, with MPI_Wait, in
  any order and as often as it likes, and each wait it comes to is one MPI completes, then every
  wait returns, if neither the requests nor the status overlap the request of another pending
  receive, and there are numbers left for a log file of each pending receive. Afterwards the request table finds none of these requests any more, and still all
  the other pending receives, those of Fortran included. Each receive that was pending and is
  waited for has one log file, in the order of the waits, with the content its buffer had after
  the wait, of the length of the buffer; no other file has changed.\<close>

theorem waits_complete:
  assumes laws: "capture_laws hb G M" and s: "recording hb G M F s m" "typed_pending m"
    and ks: "set ks \<inter> F = {}" "\<forall>k \<in> set ks. request_cells M k \<subseteq> Q \<and> status_cells M status \<subseteq> Q"
      "\<forall>k \<in> set ks. \<forall>k' \<in> dom m - {k}. (request_cells M k \<union> status_cells M status) \<inter> request_var M F k' = {}"
    and valid: "\<forall>ks1 k ks2 s1 m1. ks = ks1 @ k # ks2 \<longrightarrow> captured M G Q F s m (waits status ks1) s1 m1 \<longrightarrow>
      valid G (Wait k status) (world s1)"
    and counter: "is_int (cpt_write s + int (card (dom m)))"
  shows "\<exists>s' bss. received_in M G Q F s m (waits status ks) s' (m |` (- set ks)) bss \<and>
    recording hb G M F s' (m |` (- set ks)) \<and>
    (\<forall>k. if k \<in> dom m - set ks then \<exists>p. get_request M k s' = Inr p \<and> p \<noteq> NULL \<and> heap s' p = m k
      else get_request M k s' = Inr NULL) \<and>
    files (world s') = log_all (MPIre_output_path s) (cpt_write s) bss (files (world s)) \<and>
    cpt_write s' = cpt_write s + int (length bss) \<and> length bss = card (dom m \<inter> set ks) \<and>
    map length bss = map (\<lambda>x. length (data_cells M (data_of x))) (completed m ks)"
proof -
  obtain s' bss where run: "received_in M G Q F s m (waits status ks) s' (m |` (- set ks)) bss"
    and n: "map length bss = map (\<lambda>x. length (data_cells M (data_of x))) (completed m ks)"
    using waits_received [OF assms] by blast
  have rec: "recording hb G M F s' (m |` (- set ks))"
    using captured_keeps(1) [OF received_in_captured [OF run] laws s(1)] .
  then have pend: "pending hb (big_endian M) s' (m |` (- set ks))" by (simp add: recording_def)
  have "if k \<in> dom m - set ks then \<exists>p. get_request M k s' = Inr p \<and> p \<noteq> NULL \<and> heap s' p = m k
      else get_request M k s' = Inr NULL" for k
    using get_request_pending [OF pend, of k] by (cases "m k") (auto simp: restrict_map_def split: if_splits)
  moreover have "length bss = card (dom m \<inter> set ks)"
  proof -
    have fin: "finite (dom m)" using s(1) by (simp add: recording_def pending_def)
    have "card (dom m) = card (dom m \<inter> set ks) + card (dom m - set ks)"
      using card_Int_Diff [OF fin] by (simp add: add.commute)
    moreover have "dom m \<inter> - set ks = dom m - set ks" by blast
    ultimately show ?thesis using completed_length [OF fin, of ks] map_eq_imp_length_eq [OF n] by simp
  qed
  ultimately show ?thesis using run rec n received_logs [OF run laws s(1)] by blast
qed

section \<open>MPI_Waitall of the Fortran interface\<close>

text \<open>C11. The Fortran MPI_Waitall of the capture logs the pending receives of the array, in its order, and
  takes them out of the table; from these files the Fortran MPI_Waitall of the replay fills the
  same buffers with the same data and takes the same receives out of its table.\<close>

theorem fortran_waitall_roundtrip:
  assumes laws: "capture_laws hb G M" and s: "recording hb G M F s m" and ok: "f_call_ok M G Q F m (F_Waitall cnt requests statuses ierror) s"
    and rs: "rs = completed m (request_array requests (get_int M cnt s))" "is_int (cpt_write s + int (length rs))"
    and r: "compatible hb' Q G' M' M" "in_step hb' M Q m s r"
  shows "\<exists>s'. mpi_waitall_f M cnt requests statuses ierror s = Inr s' \<and>
    pending hb (big_endian M) s' (m |` (- set (request_array requests (get_int M cnt s)))) \<and>
    cpt_write s' = cpt_write s + int (length rs) \<and>
    (has_log r s s' \<longrightarrow> (\<exists>r'. r_mpi_waitall_f M' cnt requests statuses ierror r = Inr r' \<and>
       pending hb' (big_endian M) r' (m |` (- set (request_array requests (get_int M cnt s)))) \<and> cpt_read r' = cpt_write s' \<and>
       (\<forall>x \<in> set rs. \<forall>a \<in> cells_of M x. mem (world r') a = mem (world s') a)))"
proof -
  let ?f = "F_Waitall cnt requests statuses ierror" and ?L = "map data_of rs"
  let ?g = "answers_f M (size_of_comm M (COMM_WORLD M) s) (MPIre_rank s) (mem (world s)) ?f"
  let ?m = "m |` (- set (request_array requests (get_int M cnt s)))"
  have L: "?L = received_f M (size_of_comm M (COMM_WORLD M) s) (MPIre_rank s) (mem (world s)) m ?f"
    by (simp add: rs(1) get_int_def)
  have k: "is_int (cpt_write s + int (length ?L))" using rs(2) by simp
  obtain s' where s': "capture_f M ?f s = Inr s'" "keeps hb G M Q F ?L ?g (starts_f ?f) ?m s s'"
    using capture_f_step [OF _ _ _ s ok L k] laws by (auto simp: capture_laws_def get_int_def)
  have "\<exists>r'. r_mpi_waitall_f M' cnt requests statuses ierror r = Inr r' \<and> pending hb' (big_endian M) r' ?m \<and>
      cpt_read r' = cpt_write s' \<and> (\<forall>x \<in> set rs. \<forall>a \<in> cells_of M x. mem (world r') a = mem (world s') a)"
    if log: "has_log r s s'"
  proof -
    have "available M (mem (world s')) ?L r"
      using log by (intro keeps_available [OF s'(2) r(2)]) (auto simp: has_log_def)
    moreover have "reading (length ?L) r"
      using s k r(2) by (simp add: reading_def in_step_def recording_def logging_def log_dir_def)
    ultimately obtain r' where "replay_f M' ?f r = Inr r'" "replays hb' M Q ?L ?g (starts_f ?f) ?m (mem (world s')) r r'"
      using replay_f_step [OF r(1) ok r(2) L] by (auto simp: get_int_def)
    moreover have "a \<notin> Q \<and> a \<in> received_cells M ?L" if "x \<in> set rs" "a \<in> cells_of M x" for x a
    proof -
      have "a \<in> received_cells M ?L" using that by (auto simp: received_cells_of)
      then show ?thesis using f_call_okD(5) [OF ok] unfolding L by blast
    qed
    ultimately show ?thesis using s'(2) r(2) by (auto simp: replays_def keeps_def in_step_def)
  qed
  then show ?thesis using s' by (auto simp: keeps_def recording_def)
qed

text \<open>For the witness: the receive of \<open>one_request\<close> is waited for in an array of one request.\<close>

definition toy_array :: "toy capture" where
  "toy_array = toy_logging\<lparr>heap := heap one_request, requestHtab := requestHtab one_request\<rparr>"

definition toy_rearray :: "toy capture \<Rightarrow> toy replay" where
  "toy_rearray s' = toy_replaying\<lparr>heap := heap one_request, requestHtab := requestHtab one_request,
     world := (world toy_replaying)\<lparr>files := files (world s')\<rparr>\<rparr>"

lemma toy_array:
  "recording 40 toy_ghost toy_mpi F toy_array one_pending" "in_step 40 toy_mpi toy_controls one_pending toy_array (toy_rearray s')"
  "get_int toy_mpi 260 toy_array = 1"
proof -
  have pend: "pending 40 (big_endian toy_mpi) toy_array one_pending" "pending 40 (big_endian toy_mpi) (toy_rearray s') one_pending"
    using one_request_pending by (simp_all add: pending_def toy_array_def toy_rearray_def first_fit_def)
  have "logging toy_mpi toy_array"
    using toy_recording by (simp add: recording_def logging_def toy_array_def dump_on_def log_dir_def is_dir_def rank_of_def)
  moreover have "posted_ok toy_ghost toy_mpi F (world toy_array) one_pending"
    by (simp add: posted_ok_def toy_array_def toy_logging_def toy_start_def toy_ghost_def toy_posted_def)
  ultimately show "recording 40 toy_ghost toy_mpi F toy_array one_pending"
    using pend(1) by (simp add: recording_def one_pending_def toy_defs)
  show "in_step 40 toy_mpi toy_controls one_pending toy_array (toy_rearray s')"
    using pend(2) by (simp add: in_step_def toy_array_def toy_rearray_def toy_replaying_def toy_logging_def toy_start_def agree_def size_of_comm_def)
  show "get_int toy_mpi 260 toy_array = 1"
    using toy_args_int [OF toy_logging_args] by (simp add: get_int_def toy_array_def)
qed

theorem fortran_waitall_roundtrip_witness:
  "\<exists>s' r'. mpi_waitall_f toy_mpi 260 4096 2048 268 toy_array = Inr s' \<and> cpt_write s' = 1 \<and>
     r_mpi_waitall_f toy_mpi 260 4096 2048 268 (toy_rearray s') = Inr r' \<and> cpt_read r' = 1 \<and>
     (\<forall>a \<in> {8192, 8193, 8194, 8195}. mem (world r') a = mem (world s') a)"
proof -
  let ?x = "\<lparr>r_request = 4096, r_datatype = 7, r_buffer = 8192, r_bufsize = 4\<rparr> :: request_t"
  have one: "[?x] = completed one_pending (request_array 4096 (get_int toy_mpi 260 toy_array))"
    by (simp add: toy_array one_pending_def element_def request_array_def)
  have counter: "cpt_write toy_array = 0" by (simp add: toy_array_def toy_logging_def toy_start_def)
  have ok: "f_call_ok toy_mpi toy_ghost toy_controls {4096} one_pending (F_Waitall 260 4096 2048 268) toy_array"
    using toy_array(3) by (simp add: one_pending_def toy_defs request_array_def get_int_def)
  have k: "is_int (cpt_write toy_array + int (length [?x]))" by (simp add: counter is_int_def)
  note roundtrip = fortran_waitall_roundtrip [OF toy_laws toy_array(1) ok one k toy_compatible toy_array(2)]
  obtain s' where s': "mpi_waitall_f toy_mpi 260 4096 2048 268 toy_array = Inr s'" "cpt_write s' = 1"
    using roundtrip [of toy_array] by (auto simp: counter)
  have "has_log (toy_rearray s') toy_array s'" by (simp add: has_log_def toy_rearray_def)
  then show ?thesis using roundtrip [of s'] s' by (auto simp: cells_of_def data_cells_def data_of_def)
qed

text \<open>Here the same request is waited for twice.\<close>

theorem waits_complete_witness:
  "\<exists>s' bss. received_in toy_mpi toy_ghost toy_controls {} toy_array one_pending (waits 12288 [4096, 4096]) s' Map.empty [bss] \<and>
    (\<forall>k. get_request toy_mpi k s' = Inr NULL) \<and> cpt_write s' = 1 \<and> length bss = 4 \<and>
    files (world s') = log_all ''log'' 0 [bss] (files (world toy_array))"
proof -
  have counter: "cpt_write toy_array = 0" "MPIre_output_path toy_array = ''log''"
    by (simp_all add: toy_array_def toy_logging_def toy_start_def)
  note rec = toy_array(1) [of "{}"]
  have typed: "typed_pending one_pending" by (simp add: typed_pending_def one_pending_def)
  let ?m = "one_pending |` (- set [4096, 4096])"
  have "\<exists>s' bss. received_in toy_mpi toy_ghost toy_controls {} toy_array one_pending (waits 12288 [4096, 4096]) s' ?m bss \<and>
    recording 40 toy_ghost toy_mpi {} s' ?m \<and>
    (\<forall>k. if k \<in> dom one_pending - set [4096, 4096] then \<exists>p. get_request toy_mpi k s' = Inr p \<and> p \<noteq> NULL \<and> heap s' p = one_pending k
      else get_request toy_mpi k s' = Inr NULL) \<and>
    files (world s') = log_all (MPIre_output_path toy_array) (cpt_write toy_array) bss (files (world toy_array)) \<and>
    cpt_write s' = cpt_write toy_array + int (length bss) \<and> length bss = card (dom one_pending \<inter> set [4096, 4096]) \<and>
    map length bss = map (\<lambda>x. length (data_cells toy_mpi (data_of x))) (completed one_pending [4096, 4096])"
    by (rule waits_complete [OF toy_laws rec typed]) (simp_all add: one_pending_def counter is_int_def)
  then show ?thesis
    by (fastforce simp: one_pending_def counter data_cells_def data_of_def toy_cells_def)
qed

end
