(* ===== verification/Capture_Limits.thy ===== *)
theory Capture_Limits
  imports Record_Replay
begin

text \<open>
  Where the two libraries do not do what they are meant to: what MPI_Waitall logs, the counts of
  the Fortran MPI_Alltoallv, and processes that are not captured.
\<close>

section \<open>Processes that are not captured\<close>

text \<open>In a process whose rank is not MPIRE_RANK in any communicator, every function of the C
  interface is the function of the MPI library, whatever the state of the request table.\<close>

theorem uncaptured_is_mpi:
  assumes "\<forall>comm. rank_of M comm s \<noteq> MPIre_rank s" "\<nexists>p q. c = Init p q" "c \<noteq> Finalize"
  shows "capture_call M c s = Inr (pmpi M c s)"
  using assms
  by (cases c) (auto simp: MPI_Irecv_def MPI_Recv_def MPI_Wait_def MPI_Waitall_def MPI_Bcast_def MPI_Alltoall_def
      MPI_Alltoallv_def MPI_Allreduce_def MPI_Reduce_def pmpi_def Let_def split: prod.splits)

theorem uncaptured_is_mpi_witness:
  "capture_call toy_mpi (Recv 64 3 9 1 5 1 8192) (toy_start\<lparr>MPIre_rank := 1\<rparr>) =
   Inr (pmpi toy_mpi (Recv 64 3 9 1 5 1 8192) (toy_start\<lparr>MPIre_rank := 1\<rparr>))"
  by (rule uncaptured_is_mpi) (simp_all add: rank_of_def toy_mpi_def)

lemma static_table_undefined: "htable_get static_table h cmp = None"
proof -
  have "table_get static_table i = None" for i by (simp add: static_table_def table_get_def)
  then have "htable_val_loop static_table perfect off h2 = None" for perfect off h2
    by (subst htable_val_loop.simps) simp
  then show ?thesis by (simp add: htable_get_def htable_firstval_def htable_val_def)
qed

text \<open>
  A process that was not set up: its table is the static one of the file, all zero, and
  MPIRE_ACTIVE_DUMP is not in the environment. Its calls leave it so, for they only reach MPI.
\<close>

definition not_set_up :: "('w, 'a) capture_scheme \<Rightarrow> bool" where
  "not_set_up s \<longleftrightarrow> requestHtab s = static_table \<and> env (world s) ''MPIRE_ACTIVE_DUMP'' = None"

definition keeps_env :: "'w mpi \<Rightarrow> bool" where
  "keeps_env M \<longleftrightarrow> (\<forall>c w. env (snd (PMPI M c w)) = env w)"

lemma pmpi_not_set_up:
  "keeps_env M \<Longrightarrow> not_set_up s \<Longrightarrow> pmpi M c s = (ret, s1) \<Longrightarrow> not_set_up s1 \<and> MPIre_rank s1 = MPIre_rank s"
  by (auto simp: keeps_env_def not_set_up_def pmpi_def dest: spec2 [of _ c "world s"] split: prod.splits)

lemma crash_in_write: "not_set_up s \<Longrightarrow> write_in_file M b n d s = Inl Undefined"
  by (simp add: not_set_up_def write_in_file_def)

lemma crash_in_add: "not_set_up s \<Longrightarrow> add_request M b n d request s = Inl Undefined"
  by (simp add: not_set_up_def add_request_def get_request_def static_table_undefined)

lemma sum_ints_stops: "sum_ints M p n s = Inl e \<Longrightarrow> e = Undefined"
proof -
  have "for_each is (\<lambda>i total. c_int (total + f i)) k = Inl e \<Longrightarrow> e = Undefined" for "is" f k
    by (induction "is" arbitrary: k) (auto simp: c_int_def split: if_splits)
  then show "sum_ints M p n s = Inl e \<Longrightarrow> e = Undefined" unfolding sum_ints_def .
qed

lemma crash_in_alltoallv: "and_then (sum_ints M p n s) (\<lambda>n. Inl Undefined) = Inl Undefined"
  using sum_ints_stops [of M p n s] by (cases "sum_ints M p n s") simp_all

lemma crash_in_alltoall: "and_then (c_int k) (\<lambda>n. Inl Undefined) = Inl Undefined"
  by (simp add: c_int_def)

lemmas crashes = crash_in_write crash_in_add crash_in_alltoall crash_in_alltoallv
lemmas capturing = MPI_Irecv_def MPI_Recv_def MPI_Wait_def MPI_Waitall_def MPI_Bcast_def MPI_Alltoall_def MPI_Alltoallv_def
  MPI_Allreduce_def MPI_Reduce_def

lemma not_set_up_call:
  assumes "keeps_env M" "not_set_up s" "rank_of M (COMM_WORLD M) s \<noteq> MPIre_rank s" "\<nexists>p q. c = Init p q" "c \<noteq> Finalize"
    "capture_call M c s = Inr (ret, s1)"
  shows "not_set_up s1 \<and> MPIre_rank s1 = MPIre_rank s"
proof -
  obtain ret' s2 where s2: "pmpi M c s = (ret', s2)" by (cases "pmpi M c s")
  note kept = pmpi_not_set_up [OF assms(1,2) s2]
  have "capture_call M c s = Inl Undefined \<or> capture_call M c s = Inr (ret', s2)"
    using assms(2-5) kept s2 by (cases c) (simp_all add: crashes capturing Let_def)
  then show ?thesis using kept assms(6) by auto
qed

lemma not_set_up_run:
  assumes M: "keeps_env M" and s: "not_set_up s" "\<forall>l. Comm_rank M (COMM_WORLD M) l \<noteq> MPIre_rank s"
    and cs: "\<forall>c \<in> set cs. (\<nexists>p q. c = Init p q) \<and> c \<noteq> Finalize"
    and run: "exec_all (\<lambda>c s. and_then (capture_call M c s) (\<lambda>(ret, s). Inr s)) cs s = Inr s'"
  shows "not_set_up s' \<and> MPIre_rank s' = MPIre_rank s"
  using s cs run
proof (induction cs arbitrary: s)
  case (Cons c cs)
  obtain ret s1 where s1: "capture_call M c s = Inr (ret, s1)"
    "exec_all (\<lambda>c s. and_then (capture_call M c s) (\<lambda>(ret, s). Inr s)) cs s1 = Inr s'"
    using Cons.prems(4) by auto
  have "not_set_up s1 \<and> MPIre_rank s1 = MPIre_rank s"
    using not_set_up_call [OF M Cons.prems(1) _ _ _ s1(1)] Cons.prems(2,3) by (simp add: rank_of_def)
  then show ?case using Cons.IH [OF _ _ _ s1(2)] Cons.prems(2,3) by simp
qed simp

lemma init_not_set_up:
  assumes M: "keeps_env M" and init: "MPI_Init M argc argv s0 = Inr (ret, s)" and s0: "not_set_up s0"
    and other: "\<forall>l. Comm_rank M (COMM_WORLD M) l \<noteq> MPIre_rank s"
  shows "not_set_up s"
proof -
  obtain s1 where s1: "pmpi M (Init argc argv) s0 = (ret, s1)" "init_MPIre M s1 = Inr s"
    using init by (auto simp: MPI_Init_def split: prod.splits)
  have "not_set_up s1" using pmpi_not_set_up [OF M s0 s1(1)] by simp
  moreover obtain t r where r: "env (world s1) ''MPIRE_RANK'' = Some t" "atoi t = Inr r"
    using s1(2) by (auto simp: init_MPIre_def split: option.splits)
  have "Comm_rank M (COMM_WORLD M) (lib (world s1)) \<noteq> r"
  proof
    assume captured: "Comm_rank M (COMM_WORLD M) (lib (world s1)) = r"
    obtain s2 where s2: "init_dump (s1\<lparr>MPIre_rank := r\<rparr>) = Inr s2"
      "and_then (make_output_dir (s2\<lparr>MPIre_output_path := output_path s2, requestHtab := htable_init\<rparr>)) (save_nprocs M) = Inr s"
      using s1(2) r captured by (auto simp: init_MPIre_def rank_of_def Let_def)
    have "MPIre_rank s2 = r" using s2(1) by (auto simp: init_dump_def split: option.splits)
    moreover have "MPIre_rank s = MPIre_rank s2"
      using s2(2) by (auto simp: make_output_dir_def save_nprocs_def Let_def split: option.splits if_splits)
    ultimately show False using captured other by metis
  qed
  then have "s = s1\<lparr>MPIre_rank := r\<rparr>" using s1(2) r by (simp add: init_MPIre_def rank_of_def Let_def)
  ultimately show ?thesis by (simp add: not_set_up_def)
qed

text \<open>C25. The captured process is known by its rank in MPI_COMM_WORLD at the start, but by its rank in the
  communicator at each call. Take a process whose rank in MPI_COMM_WORLD is and stays another one,
  with MPIRE_ACTIVE_DUMP not set. After an MPI_Init that returned and any calls of C that returned,
  in which there is no second MPI_Init and no MPI_Finalize, it still is not set up: if it has the
  rank MPIRE_RANK in some communicator, its next receiving call there has no defined result: MPI_Irecv searches a table that was never initialised; MPI_Recv, MPI_Alltoall,
  MPI_Alltoallv, MPI_Allreduce, MPI_Bcast from another root and MPI_Reduce to this process pass
  the missing MPIRE_ACTIVE_DUMP to atoi. Here MPI itself leaves the environment alone.\<close>

theorem other_process_crashes:
  assumes M: "keeps_env M"
    and init: "MPI_Init M argc argv s0 = Inr (ret, s)" "requestHtab s0 = static_table" "env (world s0) ''MPIRE_ACTIVE_DUMP'' = None"
    and other: "\<forall>l. Comm_rank M (COMM_WORLD M) l \<noteq> MPIre_rank s"
    and run: "\<forall>c \<in> set cs. (\<nexists>p q. c = Init p q) \<and> c \<noteq> Finalize"
      "exec_all (\<lambda>c s. and_then (capture_call M c s) (\<lambda>(ret, s). Inr s)) cs s = Inr s'"
    and rank: "rank_of M comm s' = MPIre_rank s'"
  shows "MPI_Irecv M b n d source tag comm request s' = Inl Undefined \<and>
    MPI_Recv M b n d source tag comm status s' = Inl Undefined \<and>
    MPI_Alltoall M sb sn sd b n d comm s' = Inl Undefined \<and>
    MPI_Alltoallv M sb sns sv sd b ns rv d comm s' = Inl Undefined \<and>
    MPI_Allreduce M sb b n d op comm s' = Inl Undefined \<and>
    (root \<noteq> MPIre_rank s' \<longrightarrow> MPI_Bcast M b n d root comm s' = Inl Undefined) \<and>
    (root = MPIre_rank s' \<longrightarrow> MPI_Reduce M sb b n d op root comm s' = Inl Undefined)"
proof -
  have "not_set_up s"
    using init_not_set_up [OF M init(1) _ other] init(2,3) by (simp add: not_set_up_def)
  then have s': "not_set_up s'" using not_set_up_run [OF M _ other run] by simp
  have "not_set_up s1 \<and> MPIre_rank s1 = MPIre_rank s'" if "pmpi M c s' = (r, s1)" for c r s1
    using pmpi_not_set_up [OF M s' that] .
  then show ?thesis using s' rank by (auto simp: crashes capturing Let_def split: prod.splits)
qed

lemma toy_call_env: "env (toy_call c w) = env w"
  by (cases c) (auto simp: deliver_def forget_def)

text \<open>The process with rank 0 of MPI_COMM_WORLD and rank 1 of the communicator 2, when rank 1 is captured.\<close>

definition toy_split :: "toy mpi" where
  "toy_split = toy_mpi\<lparr>Comm_rank := \<lambda>comm l. if comm = 2 then 1 else 0\<rparr>"

theorem other_process_crashes_witness:
  "\<exists>s s'. MPI_Init toy_split 0 0 (toy_start\<lparr>world := (world toy_start)\<lparr>env := [''MPIRE_RANK'' \<mapsto> ''1'']\<rparr>\<rparr>) = Inr (MPI_SUCCESS, s) \<and>
    capture_call toy_split (Recv 64 3 9 1 5 1 12288) s = Inr (MPI_SUCCESS, s') \<and>
    MPI_Irecv toy_split 64 3 9 1 5 2 4096 s' = Inl Undefined \<and> MPI_Alltoall toy_split 32 3 9 64 3 9 2 s' = Inl Undefined \<and>
    MPI_Bcast toy_split 64 3 9 0 2 s' = Inl Undefined \<and> MPI_Reduce toy_split 32 64 3 9 2 1 2 s' = Inl Undefined"
proof -
  let ?s0 = "toy_start\<lparr>world := (world toy_start)\<lparr>env := [''MPIRE_RANK'' \<mapsto> ''1'']\<rparr>\<rparr>"
  have M: "keeps_env toy_split" by (simp add: keeps_env_def toy_split_def toy_mpi_def toy_call_env)
  have one: "atoi ''1'' = Inr 1" by code_simp
  obtain s where s: "MPI_Init toy_split 0 0 ?s0 = Inr (MPI_SUCCESS, s)" "MPIre_rank s = 1"
    by (simp add: MPI_Init_def init_MPIre_def pmpi_def toy_split_def toy_mpi_def toy_start_def rank_of_def one)
  have init: "requestHtab ?s0 = static_table" "env (world ?s0) ''MPIRE_ACTIVE_DUMP'' = None" by (simp_all add: toy_start_def)
  have other: "\<forall>l. Comm_rank toy_split (COMM_WORLD toy_split) l \<noteq> MPIre_rank s"
    by (simp add: toy_split_def toy_mpi_def s(2))
  obtain s' where s': "capture_call toy_split (Recv 64 3 9 1 5 1 12288) s = Inr (MPI_SUCCESS, s')" "MPIre_rank s' = 1"
    using s(2) by (simp add: MPI_Recv_def pmpi_def toy_split_def toy_mpi_def rank_of_def)
  have "exec_all (\<lambda>c s. and_then (capture_call toy_split c s) (\<lambda>(ret, s). Inr s)) [Recv 64 3 9 1 5 1 12288] s = Inr s'"
    using s'(1) by simp
  moreover have "rank_of toy_split 2 s' = MPIre_rank s'" by (simp add: s'(2) rank_of_def toy_split_def)
  ultimately have "MPI_Irecv toy_split 64 3 9 1 5 2 4096 s' = Inl Undefined \<and> MPI_Alltoall toy_split 32 3 9 64 3 9 2 s' = Inl Undefined \<and>
    MPI_Bcast toy_split 64 3 9 0 2 s' = Inl Undefined \<and> MPI_Reduce toy_split 32 64 3 9 2 1 2 s' = Inl Undefined"
    using other_process_crashes [OF M s(1) init other, of "[Recv 64 3 9 1 5 1 12288]" s' 2] s'(2) by simp
  then show ?thesis using s(1) s'(1) by blast
qed

section \<open>Waiting for several receives\<close>

text \<open>C24. MPI_Waitall of the capture looks each request up by its handle instead of the address of its
  variable. Once the wait has set the handles to a value that is not the address of a pending
  receive, it logs nothing and all the receives stay in the table, while the replay looks up
  the addresses: it reads a log file for the first receive, and ends the program if there is
  none.\<close>

theorem waitall_logs_nothing:
  assumes "pending hb (big_endian M) s m" "rank_of M (COMM_WORLD M) s = MPIre_rank s" "1 \<le> n"
    "PMPI M (Waitall n requests statuses) (world s) = (ret, w)"
    "\<forall>i<nat n. m (load_request M (mem w) (element (sizeof_request M) requests i)) = None"
    "file_laws G' M'" "pending hb' (big_endian M') r m" "is_int (cpt_read r)" "is_int (cpt_read r + 1)"
    "MPIre_input_path r \<noteq> []" "length (MPIre_input_path r) \<le> 1000"
    "m requests = Some x" "files (world r) (log_path (MPIre_input_path r) (cpt_read r)) = None"
  shows "MPI_Waitall M n requests statuses s = Inr (ret, s\<lparr>world := w\<rparr>) \<and>
    pending hb (big_endian M) (s\<lparr>world := w\<rparr>) m \<and>
    R_MPI_Waitall M' n requests statuses r = Inl Exit_failure"
proof (intro conjI)
  show pend: "pending hb (big_endian M) (s\<lparr>world := w\<rparr>) m" using assms(1) by simp
  have "complete_request M (write_in_file M) (load_request M (mem w) (element (sizeof_request M) requests i))
      (element (sizeof_request M) requests i) (s\<lparr>world := w\<rparr>) = Inr (s\<lparr>world := w\<rparr>)" if "i < nat n" for i
    using capture.complete_unknown [where al = M and M = M, OF pend] assms(5) that by blast
  then have "for_each [0..<nat n] (\<lambda>i s. complete_request M (write_in_file M)
      (load_request M (mem (world s)) (element (sizeof_request M) requests i))
      (element (sizeof_request M) requests i) s) (s\<lparr>world := w\<rparr>) = Inr (s\<lparr>world := w\<rparr>)"
    by (intro for_each_skip) simp
  then show "MPI_Waitall M n requests statuses s = Inr (ret, s\<lparr>world := w\<rparr>)"
    using assms(2-4) by (simp add: MPI_Waitall_def pmpi_def Let_def)
  have "read_in_file M' (r_buffer x) (r_bufsize x) (r_datatype x) r = Inl Exit_failure"
    using read_in_file_missing [OF assms(6,8-11,13)] .
  then have "complete_request M' (read_in_file M') requests requests r = Inl Exit_failure"
    using replay.complete_fails [where al = M' and M = M', OF assms(7,12)] by blast
  moreover have "[0..<nat n] = 0 # [1..<nat n]" using assms(3) by (simp add: upt_conv_Cons)
  ultimately show "R_MPI_Waitall M' n requests statuses r = Inl Exit_failure"
    by (simp add: R_MPI_Waitall_def element_def)
qed

lemma toy_array_pending:
  "pending 40 (big_endian toy_mpi) toy_array one_pending" "pending 40 (big_endian toy_mpi) (toy_rearray s') one_pending"
  using toy_array(1,2) by (auto simp: recording_def in_step_def)

theorem waitall_logs_nothing_witness:
  "MPI_Waitall toy_mpi 1 4096 8192 toy_array =
     Inr (MPI_SUCCESS, toy_array\<lparr>world := toy_call (Waitall 1 4096 8192) (world toy_array)\<rparr>) \<and>
   pending 40 (big_endian toy_mpi) (toy_array\<lparr>world := toy_call (Waitall 1 4096 8192) (world toy_array)\<rparr>) one_pending \<and>
   R_MPI_Waitall toy_mpi 1 4096 8192 (toy_rearray toy_logging) = Inl Exit_failure"
proof (rule waitall_logs_nothing [OF toy_array_pending(1) _ _ _ _ toy_file_laws toy_array_pending(2)])
  show "one_pending 4096 = Some \<lparr>r_request = 4096, r_datatype = 7, r_buffer = 8192, r_bufsize = 4\<rparr>"
    by (simp add: one_pending_def)
  have "load_int False (mem (world toy_array)) 4096 = 0"
    by (simp add: load_int_def toy_array_def toy_logging_def toy_start_def)
  moreover have "awaited (lib (world toy_array)) h = []" for h
    by (simp add: awaited_def toy_posted_def toy_array_def toy_logging_def toy_start_def)
  ultimately show "\<forall>i<nat 1. one_pending (load_request toy_mpi
      (mem (toy_call (Waitall 1 4096 8192) (world toy_array))) (element (sizeof_request toy_mpi) 4096 i)) = None"
    by (simp add: toy_mpi_def one_pending_def element_def toy_request_def forget_def deliver_def fill_def)
qed (simp_all add: toy_array_def toy_rearray_def toy_logging_def toy_start_def toy_replaying_def rank_of_def is_int_def toy_mpi_def)

section \<open>The counts of the Fortran MPI_Alltoallv\<close>

definition count_word :: "memory \<Rightarrow> ptr \<Rightarrow> u32" where
  "count_word m p = word_of_int (load_int False m p)"

lemma count_word_bytes:
  "count_word m p = ucast (m p) OR push_bit 8 (ucast (m (p + 1))) OR push_bit 16 (ucast (m (p + 2))) OR
     push_bit 24 (ucast (m (p + 3)))"
  by (simp add: count_word_def load_int_def Let_def)

lemma ucast_push_byte:
  assumes "n + 8 \<le> 32"
  shows "ucast (push_bit n (ucast (b :: u8)) :: u32) = (push_bit n (ucast b) :: u64)"
proof (rule bit_word_eqI)
  fix k
  assume "k < LENGTH(64)"
  have "bit b (k - n) \<Longrightarrow> k - n < 8" using bit_imp_le_length [of b "k - n"] by simp
  then show "bit (ucast (push_bit n (ucast b) :: u32) :: u64) k \<longleftrightarrow> bit (push_bit n (ucast b) :: u64) k"
    using assms by (auto simp: bit_simps)
qed

lemma load_ptr_counts:
  "load_ptr False m p = ucast (count_word m p) OR push_bit 32 (ucast (count_word m (p + 4)))"
proof -
  have upt: "[0..<8] = [0, 1, 2, 3, 4, 5, 6, 7 :: nat]" by (simp add: upt_rec)
  have low: "ucast (ucast b :: u32) = (ucast b :: u64)" for b :: u8 using ucast_push_byte [of 0 b] by simp
  show ?thesis
    unfolding load_ptr_def count_word_bytes upt
    by (simp add: unsigned_or_eq ucast_push_byte low ac_simps del: push_bit_of_1)
qed

text \<open>The Fortran MPI_Alltoallv declares its arrays of counts as arrays of pointers: on a
  little-endian machine it does not pass on the address of an array but the first two counts in
  it, read as one address; the MPI library and the log get their counts from there.\<close>

theorem alltoallv_f_passes_counts:
  assumes "\<not> big_endian M"
  shows "let passed = (\<lambda>p. ucast (count_word (mem (world s)) p) OR push_bit 32 (ucast (count_word (mem (world s)) (p + 4))) :: ptr)
    in mpi_alltoallv_f M sendbuf sendcounts sdispls sendtype recvbuf recvcounts rdispls recvtype comm ierror s =
      store_ierror M ierror (MPI_Alltoallv M sendbuf (passed sendcounts) (passed sdispls) (Type_f2c M (get_int M sendtype s))
        recvbuf (passed recvcounts) (passed rdispls) (Type_f2c M (get_int M recvtype s)) (Comm_f2c M (get_int M comm s)) s)"
proof -
  have "load_ptr False (mem (world s)) p = ucast (count_word (mem (world s)) p) OR
      push_bit 32 (ucast (count_word (mem (world s)) (p + 4)))" for p
    by (rule load_ptr_counts)
  then show ?thesis using assms by (simp add: mpi_alltoallv_f_def get_ptr_def Let_def)
qed

theorem alltoallv_f_passes_counts_witness:
  "let passed = (\<lambda>p. ucast (count_word (mem (world toy_logging)) p) OR
        push_bit 32 (ucast (count_word (mem (world toy_logging)) (p + 4))) :: ptr)
    in mpi_alltoallv_f toy_mpi 16 32 48 64 80 96 112 128 144 160 toy_logging =
      store_ierror toy_mpi 160 (MPI_Alltoallv toy_mpi 16 (passed 32) (passed 48) (Type_f2c toy_mpi (get_int toy_mpi 64 toy_logging))
        80 (passed 96) (passed 112) (Type_f2c toy_mpi (get_int toy_mpi 128 toy_logging))
        (Comm_f2c toy_mpi (get_int toy_mpi 144 toy_logging)) toy_logging)"
  by (rule alltoallv_f_passes_counts) (simp add: toy_mpi_def)

section \<open>The handle of a Fortran request\<close>

text \<open>The conversions and the MPI library, from the world \<open>w\<close>, leave the bytes \<open>A\<close> alone.\<close>

definition leaves_alone :: "'w mpi \<Rightarrow> ptr set \<Rightarrow> ptr \<Rightarrow> 'w world \<Rightarrow> bool" where
  "leaves_alone M A status w \<longleftrightarrow> (\<forall>a \<in> A. (\<forall>h mm. store_request M (c_request M) h mm a = mm a) \<and>
     (\<forall>p mm. Status_f2c M p (c_status M) mm a = mm a) \<and> (\<forall>p mm. Status_c2f M p status mm a = mm a) \<and>
     (\<forall>mm. mem (snd (PMPI M (Wait (c_request M) (c_status M)) (w\<lparr>mem := mm\<rparr>))) a = mm a))"

text \<open>The Fortran MPI_Wait works on a C copy of the request, as MPI_Irecv does, but never converts the copy
  back: whatever MPI makes of the handle, the program's variable keeps the one of the request
  that was freed, where the standard has MPI_REQUEST_NULL.\<close>

theorem mpi_wait_f_keeps_handle:
  assumes quiet: "quiet_files M" and alone: "leaves_alone M (int_cells request) status (world s)"
    and "int_cells ierror \<inter> int_cells request = {}" and s': "mpi_wait_f M request status ierror s = Inr s'"
  shows "get_int M request s' = get_int M request s"
proof -
  have "mem (world s') a = mem (world s) a" if a: "a \<in> int_cells request" for a
  proof -
    let ?s1 = "on_mem (Status_f2c M status (c_status M)) (on_mem (store_request M (c_request M) (Request_f2c M (get_int M request s))) s)"
    obtain ret s2 where s2: "pmpi M (Wait (c_request M) (c_status M)) ?s1 = (ret, s2)"
      by (cases "pmpi M (Wait (c_request M) (c_status M)) ?s1")
    have "world s2 = snd (PMPI M (Wait (c_request M) (c_status M)) (world ?s1))"
      using s2 by (auto simp: pmpi_def split: prod.splits)
    moreover have "world ?s1 = (world s)\<lparr>mem := mem (world ?s1)\<rparr>" by (simp add: on_mem_def)
    ultimately have "mem (world s2) a = mem (world ?s1) a" using alone a unfolding leaves_alone_def by metis
    moreover have "mem (world ?s1) a = mem (world s) a" using alone a by (simp add: leaves_alone_def on_mem_def)
    moreover have "mem (world (put_int M ierror ret s2)) a = mem (world s2) a"
      using assms(3) a by (auto simp: put_int_def on_mem_def intro: store_int_frame)
    moreover obtain s3 where "s' = on_mem (Status_c2f M (c_status M) status) s3" "mem (world s3) = mem (world (put_int M ierror ret s2))"
      using s' s2 by (auto simp: mpi_wait_f_def Let_def split: if_splits dest!: complete_request_mem [OF quiet])
    ultimately show ?thesis using alone a by (simp add: leaves_alone_def on_mem_def)
  qed
  then show ?thesis unfolding get_int_def by (rule load_int_cong)
qed

theorem mpi_wait_f_keeps_handle_witness:
  "\<exists>s'. mpi_wait_f toy_mpi 4096 8192 8448 toy_logging = Inr s' \<and> get_int toy_mpi 4096 s' = get_int toy_mpi 4096 toy_logging"
proof -
  have pend: "pending 40 (big_endian toy_mpi) s Map.empty" if "heap s = Map.empty" "requestHtab s = htable_init" for s :: "toy capture"
    using that by (intro pending_start) simp_all
  have "complete_request toy_mpi (write_in_file toy_mpi) 4096 4096 s = Inr s"
    if "heap s = Map.empty" "requestHtab s = htable_init" for s :: "toy capture"
    using capture.complete_unknown [where al = toy_mpi and M = toy_mpi, OF pend [OF that]] by simp
  then obtain s' where s': "mpi_wait_f toy_mpi 4096 8192 8448 toy_logging = Inr s'"
    by (simp add: mpi_wait_f_def Let_def pmpi_def toy_mpi_def on_mem_def put_int_def toy_logging_def toy_start_def)
  have alone: "leaves_alone toy_mpi (int_cells 4096) 8192 (world toy_logging)"
    by (auto simp: leaves_alone_def toy_mpi_def toy_logging_def toy_start_def int_cells_def store_int_def Let_def
        forget_def deliver_def fill_def awaited_def toy_posted_def)
  have apart: "int_cells 8448 \<inter> int_cells 4096 = {}" by (simp add: int_cells_def)
  from mpi_wait_f_keeps_handle [OF toy_quiet alone apart s'] s' show ?thesis by blast
qed

end
