(* ===== verification/Htable_Type.thy ===== *)
theory Htable_Type
  imports Htable_Inv
begin

text \<open>
  The operations HTABLE_DEFINE_TYPE generates for a type (src/src/ccan/ccan/htable/htable_type.h):
  a hash table whose entries have a key. The macro's parameters \<open>keyof\<close>, \<open>hashfn\<close> and \<open>eqfn\<close> are
  arguments; \<open>keyof\<close> and \<open>eqfn\<close> read the memory of the entry and give None where it cannot be read.
\<close>

section \<open>Operations\<close>

definition name_hash :: "(ptr \<Rightarrow> 'k option) \<Rightarrow> ('k \<Rightarrow> u64) \<Rightarrow> rehash" where
  "name_hash keyof hashfn elem = map_option hashfn (keyof elem)"

definition name_init :: htable where
  "name_init = htable_init"

definition name_clear :: "htable \<Rightarrow> htable" where
  "name_clear ht = htable_clear ht"

definition name_add ::
  "(ptr \<Rightarrow> 'k option) \<Rightarrow> ('k \<Rightarrow> u64) \<Rightarrow> bool \<Rightarrow> htable \<Rightarrow> ptr \<Rightarrow> (bool \<times> htable) option" where
  "name_add keyof hashfn calloc_ok ht elem =
     do { k \<leftarrow> keyof elem; htable_add (name_hash keyof hashfn) calloc_ok ht (hashfn k) elem }"

definition name_del :: "(ptr \<Rightarrow> 'k option) \<Rightarrow> ('k \<Rightarrow> u64) \<Rightarrow> htable \<Rightarrow> ptr \<Rightarrow> (bool \<times> htable) option" where
  "name_del keyof hashfn ht elem = do { k \<leftarrow> keyof elem; htable_del ht (hashfn k) elem }"

definition name_get :: "('k \<Rightarrow> u64) \<Rightarrow> (ptr \<Rightarrow> 'k \<Rightarrow> bool option) \<Rightarrow> htable \<Rightarrow> 'k \<Rightarrow> ptr option" where
  "name_get hashfn eqfn ht k = htable_get ht (hashfn k) (\<lambda>c. eqfn c k)"

definition name_delkey ::
  "(ptr \<Rightarrow> 'k option) \<Rightarrow> ('k \<Rightarrow> u64) \<Rightarrow> (ptr \<Rightarrow> 'k \<Rightarrow> bool option) \<Rightarrow> htable \<Rightarrow> 'k \<Rightarrow> (bool \<times> htable) option" where
  "name_delkey keyof hashfn eqfn ht k =
     do { elem \<leftarrow> name_get hashfn eqfn ht k;
          if elem \<noteq> NULL then name_del keyof hashfn ht elem else Some (False, ht) }"

definition name_first :: "htable \<Rightarrow> (ptr \<times> nat) option" where
  "name_first ht = htable_first ht"

definition name_next :: "htable \<Rightarrow> nat \<Rightarrow> (ptr \<times> nat) option" where
  "name_next ht off = htable_next ht off"

section \<open>A map from keys to entries\<close>

abbreviation (input) typed_maps ::
  "nat \<Rightarrow> (ptr \<Rightarrow> 'k option) \<Rightarrow> ('k \<Rightarrow> u64) \<Rightarrow> htable \<Rightarrow> ('k \<rightharpoonup> ptr) \<Rightarrow> bool" where
  "typed_maps hb keyof hashfn t m \<equiv> requests.maps hb hashfn keyof t m"

lemma name_hash_fun: "name_hash keyof hashfn = (\<lambda>p. map_option hashfn (keyof p))"
  by (simp add: fun_eq_iff name_hash_def)

lemma name_get_maps:
  assumes "typed_maps hb keyof hashfn t m" "\<And>c x. eqfn c x = map_option (\<lambda>y. y = x) (keyof c)"
  shows "name_get hashfn eqfn t k = Some (case m k of None \<Rightarrow> NULL | Some p \<Rightarrow> p)"
  using requests.get_maps [OF assms(1), of k] assms(2) by (simp add: name_get_def)

lemma name_add_maps:
  assumes m: "typed_maps hb keyof hashfn t m" and "m k = None" "p \<notin> ran m" "in_region hb p"
    "size (ptrs t) < max_elems" and key: "keyof p = Some k"
  shows "\<exists>t'. name_add keyof hashfn True t p = Some (True, t') \<and> typed_maps hb keyof hashfn t' (m(k \<mapsto> p))"
  using requests.add_maps [OF assms(1-5), of keyof] key by (auto simp: name_add_def name_hash_fun)

lemma name_del_maps:
  assumes m: "typed_maps hb keyof hashfn t m" and p: "m k = Some p"
  shows "\<exists>t'. name_del keyof hashfn t p = Some (True, t') \<and> typed_maps hb keyof hashfn t' (m(k := None))"
  using requests.del_maps [OF m p] requests.mapsD(2) [OF m p] by (auto simp: name_del_def)

text \<open>Without memory the table cannot grow; then nothing is added.\<close>

lemma name_add_no_memory:
  assumes m: "typed_maps hb keyof hashfn t m" and "size (ptrs t) < max_elems" and key: "keyof p = Some k"
  shows "name_add keyof hashfn False t p =
    (if ht_elems t + 1 \<le> ht_max t then name_add keyof hashfn True t p else Some (False, t))"
proof -
  have "ht_inv (\<lambda>p. map_option hashfn (keyof p)) t"
    using requests.mapsD(1) [OF m] by (simp add: region_inv_def)
  from may_grow [OF this assms(2)] show ?thesis
    using key by (auto simp: name_add_def htable_add_def double_table_def)
qed

text \<open>C31. A typed table is a map from keys to entries, if \<open>eqfn\<close> compares the key of an entry: \<open>get\<close>
  returns the entry of a key, or NULL; \<open>delkey\<close> takes away the entry of a key and returns true, or
  changes nothing and returns false. \<open>add\<close> puts an entry under its key and returns true, if neither
  the key nor the entry is in the table yet, the entry lies in the region of the table's pointers
  (they share their highest bit), there are fewer than the 805306368 entries a table of 2^30
  buckets takes, and calloc succeeds; when calloc fails, \<open>add\<close> does the same while the table has
  room without growing, and returns false and changes nothing when it has not.\<close>

theorem typed_table_is_map:
  assumes "typed_maps hb keyof hashfn t m" "\<forall>c x. eqfn c x = map_option (\<lambda>y. y = x) (keyof c)"
  shows "name_get hashfn eqfn t k = Some (case m k of None \<Rightarrow> NULL | Some p \<Rightarrow> p) \<and>
    (\<forall>p. keyof p = Some k \<and> m k = None \<and> p \<notin> ran m \<and> in_region hb p \<and> size (ptrs t) < max_elems \<longrightarrow>
       (\<exists>t'. name_add keyof hashfn True t p = Some (True, t') \<and> typed_maps hb keyof hashfn t' (m(k \<mapsto> p))) \<and>
       name_add keyof hashfn False t p =
         (if ht_elems t + 1 \<le> ht_max t then name_add keyof hashfn True t p else Some (False, t))) \<and>
    (\<exists>t'. name_delkey keyof hashfn eqfn t k = Some (m k \<noteq> None, t') \<and> typed_maps hb keyof hashfn t' (m(k := None)) \<and>
       (m k = None \<longrightarrow> t' = t))"
proof (intro conjI allI impI)
  have get: "name_get hashfn eqfn t k = Some (case m k of None \<Rightarrow> NULL | Some p \<Rightarrow> p)"
    using name_get_maps [OF assms(1)] assms(2) by blast
  then show "name_get hashfn eqfn t k = Some (case m k of None \<Rightarrow> NULL | Some p \<Rightarrow> p)" .
  fix p
  assume p: "keyof p = Some k \<and> m k = None \<and> p \<notin> ran m \<and> in_region hb p \<and> size (ptrs t) < max_elems"
  then show "\<exists>t'. name_add keyof hashfn True t p = Some (True, t') \<and> typed_maps hb keyof hashfn t' (m(k \<mapsto> p))"
    using name_add_maps [OF assms(1)] by blast
  show "name_add keyof hashfn False t p =
      (if ht_elems t + 1 \<le> ht_max t then name_add keyof hashfn True t p else Some (False, t))"
    using name_add_no_memory [OF assms(1)] p by blast
next
  have get: "name_get hashfn eqfn t k = Some (case m k of None \<Rightarrow> NULL | Some p \<Rightarrow> p)"
    using name_get_maps [OF assms(1)] assms(2) by blast
  show "\<exists>t'. name_delkey keyof hashfn eqfn t k = Some (m k \<noteq> None, t') \<and> typed_maps hb keyof hashfn t' (m(k := None)) \<and>
      (m k = None \<longrightarrow> t' = t)"
  proof (cases "m k")
    case None
    then have "m(k := None) = m" by (rule fun_upd_idem)
    then show ?thesis using get None assms(1) by (simp add: name_delkey_def)
  next
    case (Some p)
    then have "p \<noteq> NULL" using requests.maps_not_NULL [OF assms(1)] by blast
    then show ?thesis using get Some name_del_maps [OF assms(1) Some] by (simp add: name_delkey_def)
  qed
qed

text \<open>For the witness, an entry is its own key.\<close>

theorem typed_table_is_map_witness:
  "name_get id (\<lambda>c x. Some (c = x)) name_init 24 = Some NULL \<and>
    (\<exists>t'. name_add Some id True name_init 24 = Some (True, t') \<and> typed_maps 4 Some id t' (Map.empty(24 \<mapsto> 24))) \<and>
    name_add Some id False name_init 24 = Some (False, name_init) \<and>
    (\<exists>t'. name_delkey Some id (\<lambda>c x. Some (c = x)) name_init 24 = Some (False, t') \<and>
       typed_maps 4 Some id t' (Map.empty(24 := None)))"
proof -
  have maps: "typed_maps 4 Some id name_init Map.empty" by (simp add: name_init_def requests.maps_empty)
  have "in_region 4 24" "size (ptrs name_init) < max_elems"
    by (simp_all add: in_region_def name_init_def ht_inv_init)
  then show ?thesis
    using typed_table_is_map [OF maps, of "\<lambda>c x. Some (c = x)" 24]
    by (simp add: name_init_def htable_init_def HTABLE_INITIALIZER_def)
qed

end
