(* ===== verification/Hash_Memory.thy ===== *)
theory Hash_Memory
  imports Lookup3
begin

unbundle bit_operations_syntax

text \<open>
  The macros of src/src/ccan/ccan/hash/hash.h, which choose a hash function by the size of the
  elements of an array, and the compile-time assertion of src/src/ccan/ccan/build_assert they are
  guarded by. Here the keys are in memory: an array of \<open>n\<close> elements of \<open>sz\<close> bytes at \<open>p\<close>. The
  lemmas show which of the functions on lists are applied to which reading of the memory.
\<close>

section \<open>Arrays in memory\<close>

definition bytes :: "memory \<Rightarrow> ptr \<Rightarrow> nat \<Rightarrow> u8 list" where
  "bytes m p n = map (\<lambda>i. m (p + word_of_nat i)) [0..<n]"

fun bytes_value :: "u8 list \<Rightarrow> 'a :: len word" where
  "bytes_value [] = 0"
| "bytes_value (b # bs) = ucast b OR push_bit 8 (bytes_value bs)"

text \<open>An integer of \<open>sz\<close> bytes, and an array of them.\<close>

definition load_word :: "bool \<Rightarrow> nat \<Rightarrow> memory \<Rightarrow> ptr \<Rightarrow> 'a :: len word" where
  "load_word be sz m p = bytes_value (if be then rev (bytes m p sz) else bytes m p sz)"

definition load_array :: "bool \<Rightarrow> nat \<Rightarrow> memory \<Rightarrow> ptr \<Rightarrow> nat \<Rightarrow> 'a :: len word list" where
  "load_array be sz m p n = map (\<lambda>i. load_word be sz m (element sz p i)) [0..<n]"

section \<open>The macros\<close>

text \<open>
  \<open>BUILD_ASSERT_OR_ZERO(cond)\<close> is \<open>sizeof(char [1 - 2*!(cond)]) - 1\<close>; an array of negative size does
  not compile, which is None.
\<close>

definition BUILD_ASSERT_OR_ZERO :: "bool \<Rightarrow> u64 option" where
  "BUILD_ASSERT_OR_ZERO cond =
     (let size = 1 - 2 * (if cond then 0 else 1) :: int
      in if size < 0 then None else Some (word_of_int size - 1))"

text \<open>\<open>num\<close> is a size_t; the product with the size of an element wraps.\<close>

definition hash_macro :: "bool \<Rightarrow> memory \<Rightarrow> nat \<Rightarrow> ptr \<Rightarrow> u64 \<Rightarrow> u32 \<Rightarrow> u32" where
  "hash_macro be m sz p num base = hash_any be p (bytes m p (unat (num * word_of_nat sz))) base"

definition hash64_macro :: "bool \<Rightarrow> memory \<Rightarrow> nat \<Rightarrow> ptr \<Rightarrow> u64 \<Rightarrow> u64 \<Rightarrow> u64" where
  "hash64_macro be m sz p num base = hash64_any be p (bytes m p (unat (num * word_of_nat sz))) base"

text \<open>The sum binds stronger than the comparison: the zero is added to the first size.\<close>

definition hash_stable :: "bool \<Rightarrow> memory \<Rightarrow> nat \<Rightarrow> ptr \<Rightarrow> u64 \<Rightarrow> u32 \<Rightarrow> u32 option" where
  "hash_stable be m sz p num base =
     (case BUILD_ASSERT_OR_ZERO (sz = 8 \<or> sz = 4 \<or> sz = 2 \<or> sz = 1) of
        None \<Rightarrow> None
      | Some z \<Rightarrow> Some
          (if z + word_of_nat sz = 8 then hash_stable_64 (load_array be 8 m p (unat num)) base
           else if sz = 4 then hash_stable_32 (load_array be 4 m p (unat num)) base
           else if sz = 2 then hash_stable_16 (load_array be 2 m p (unat num)) base
           else hash_stable_8 be p (bytes m p (unat num)) base))"

definition hash64_stable :: "bool \<Rightarrow> memory \<Rightarrow> nat \<Rightarrow> ptr \<Rightarrow> u64 \<Rightarrow> u64 \<Rightarrow> u64 option" where
  "hash64_stable be m sz p num base =
     (case BUILD_ASSERT_OR_ZERO (sz = 8 \<or> sz = 4 \<or> sz = 2 \<or> sz = 1) of
        None \<Rightarrow> None
      | Some z \<Rightarrow> Some
          (if z + word_of_nat sz = 8 then hash64_stable_64 (load_array be 8 m p (unat num)) base
           else if sz = 4 then hash64_stable_32 (load_array be 4 m p (unat num)) base
           else if sz = 2 then hash64_stable_16 (load_array be 2 m p (unat num)) base
           else hash64_stable_8 be p (bytes m p (unat num)) base))"

text \<open>
  \<open>hashl\<close> is the 64-bit hash where a long has 64 bits; both operands of its conditional have the
  type of the wider one, and \<open>base\<close> is cut to the parameter of \<open>hash_any\<close>.
\<close>

definition hashl :: "bool \<Rightarrow> nat \<Rightarrow> memory \<Rightarrow> nat \<Rightarrow> ptr \<Rightarrow> u64 \<Rightarrow> u64 \<Rightarrow> u64 option" where
  "hashl be sizeof_long m sz p num base =
     map_option (\<lambda>z. z + (if sizeof_long = 8 then hash64_macro be m sz p num base
                          else ucast (hash_macro be m sz p num (ucast base))))
       (BUILD_ASSERT_OR_ZERO (sizeof_long = 4 \<or> sizeof_long = 8))"

section \<open>What they hash\<close>

lemma BUILD_ASSERT_OR_ZERO_simps [simp]:
  "BUILD_ASSERT_OR_ZERO True = Some 0" "BUILD_ASSERT_OR_ZERO False = None"
  by (simp_all add: BUILD_ASSERT_OR_ZERO_def)

lemma length_bytes [simp]: "length (bytes m p n) = n"
  by (simp add: bytes_def)

lemma bytes_cong: "(\<And>i. i < n \<Longrightarrow> m (p + word_of_nat i) = m' (p' + word_of_nat i)) \<Longrightarrow> bytes m p n = bytes m' p' n"
  by (simp add: bytes_def)

lemma bytes_Suc: "bytes m p (Suc n) = bytes m p n @ [m (p + word_of_nat n)]"
  by (simp add: bytes_def)

lemma bytes_add: "bytes m p (a + b) = bytes m p a @ bytes m (p + word_of_nat a) b"
proof (induction b)
  case (Suc b)
  have "p + word_of_nat (a + b) = p + word_of_nat a + word_of_nat b" by (simp add: add.assoc)
  with Suc show ?case by (simp only: add_Suc_right bytes_Suc append_assoc)
qed (simp add: bytes_def)

lemma bit_bytes_value:
  "bit (bytes_value bs :: 'a :: len word) k \<longleftrightarrow> k < LENGTH('a) \<and> k div 8 < length bs \<and> bit (bs ! (k div 8)) (k mod 8)"
proof (induction bs arbitrary: k)
  case (Cons b bs)
  show ?case
  proof (cases "k < 8")
    case True
    then show ?thesis by (auto simp: bit_simps)
  next
    case False
    then have "k div 8 = Suc ((k - 8) div 8)" "k mod 8 = (k - 8) mod 8" by (simp_all add: le_div_geq le_mod_geq)
    then show ?thesis
      using False Cons.IH [of "k - 8"] by (auto simp: bit_simps dest: bit_imp_le_length)
  qed
qed simp

text \<open>An integer laid out in memory in the order of the machine is read back.\<close>

lemma bytes_value_split:
  assumes "8 * length bs = LENGTH('a :: len)"
  shows "map (\<lambda>j. ucast (drop_bit (8 * j) (bytes_value bs :: 'a word))) [0..<length bs] = bs"
proof (rule nth_equalityI)
  fix j
  assume "j < length (map (\<lambda>j. ucast (drop_bit (8 * j) (bytes_value bs :: 'a word)) :: u8) [0..<length bs])"
  then have j: "j < length bs" by simp
  have "ucast (drop_bit (8 * j) (bytes_value bs :: 'a word)) = bs ! j"
  proof (rule bit_word_eqI)
    fix k
    assume k: "k < LENGTH(8)"
    then have "(8 * j + k) div 8 = j" "(8 * j + k) mod 8 = k" "8 * j + k < LENGTH('a)"
      using assms j by simp_all
    then show "bit (ucast (drop_bit (8 * j) (bytes_value bs :: 'a word)) :: u8) k \<longleftrightarrow> bit (bs ! j) k"
      using j k by (simp add: bit_simps bit_bytes_value)
  qed
  then show "map (\<lambda>j. ucast (drop_bit (8 * j) (bytes_value bs :: 'a word))) [0..<length bs] ! j = bs ! j"
    using j by simp
qed simp

lemma le_bytes_map:
  "le_bytes w = map (\<lambda>j. ucast (drop_bit (8 * j) w)) [0..<4]"
  "le_bytes16 h = map (\<lambda>j. ucast (drop_bit (8 * j) h)) [0..<2]"
  by (simp_all add: le_bytes_def le_bytes16_def upt_rec)

lemma le_bytes64_map: "le_bytes64 d = map (\<lambda>j. ucast (drop_bit (8 * j) d)) [0..<8]"
proof -
  have "ucast (drop_bit n (ucast x :: u32)) = (ucast (drop_bit n x) :: u8)" if "n \<le> 24" for n and x :: u64
    using that by (intro bit_word_eqI) (auto simp: bit_simps)
  from this [of 0] this show ?thesis by (simp add: le_bytes64_def le_bytes_def upt_rec)
qed

lemma le_bytes_value:
  "length bs = 4 \<Longrightarrow> le_bytes (bytes_value bs) = bs" "length bs = 8 \<Longrightarrow> le_bytes64 (bytes_value bs) = bs"
  "length bs = 2 \<Longrightarrow> le_bytes16 (bytes_value bs) = bs"
  using bytes_value_split [where 'a = 32, of bs] bytes_value_split [where 'a = 64, of bs]
    bytes_value_split [where 'a = 16, of bs]
  by (simp_all only: le_bytes_map le_bytes64_map) simp_all

lemma be_bytes_value:
  "length bs = 4 \<Longrightarrow> be_bytes (bytes_value (rev bs)) = bs" "length bs = 8 \<Longrightarrow> be_bytes64 (bytes_value (rev bs)) = bs"
  by (simp_all add: be_bytes_def be_bytes64_def le_bytes_value)

lemma bytes_concat: "bytes m p (sz * n) = concat (map (\<lambda>i. bytes m (element sz p i) sz) [0..<n])"
proof (induction n)
  case (Suc n)
  have "bytes m p (sz * Suc n) = bytes m p (sz * n) @ bytes m (p + word_of_nat (sz * n)) sz"
    using bytes_add [of m p "sz * n" sz] by (simp add: add.commute)
  with Suc show ?case by (simp add: element_def)
qed (simp add: bytes_def)

lemma load_array_bytes:
  "concat (map (if be then be_bytes else le_bytes) (load_array be 4 m p n)) = bytes m p (4 * n)"
  by (simp add: bytes_concat load_array_def load_word_def le_bytes_value be_bytes_value comp_def)

lemma load_word_bytes:
  "(if be then be_bytes64 else le_bytes64) (load_word be 8 m p) = bytes m p 8"
  by (simp add: load_word_def le_bytes_value be_bytes_value)

text \<open>Reading an integer into a wider word and cutting it.\<close>

lemma ucast_bytes_value:
  "LENGTH('b) \<le> LENGTH('a) \<Longrightarrow> ucast (bytes_value bs :: 'a :: len word) = (bytes_value bs :: 'b :: len word)"
  by (rule bit_word_eqI) (auto simp: bit_simps bit_bytes_value)

lemma load_array_narrow:
  assumes "load_array be sz m p n = (load_array be' sz m' p' n :: 'a :: len word list)" "LENGTH('b) \<le> LENGTH('a)"
  shows "load_array be sz m p n = (load_array be' sz m' p' n :: 'b :: len word list)"
proof -
  have narrow: "map ucast (load_array be sz m p n :: 'a word list) = (load_array be sz m p n :: 'b word list)" for be m p
    using assms(2) by (simp add: load_array_def load_word_def ucast_bytes_value)
  show ?thesis using arg_cong [OF assms(1), of "map (ucast :: 'a word \<Rightarrow> 'b word)"] by (simp only: narrow)
qed

lemma load_array_bytes1: "(load_array be 1 m p n :: u8 list) = bytes m p n"
proof -
  have "bytes m q 1 = [m q]" for q by (simp add: bytes_def)
  then have "load_word be 1 m q = m q" for q by (simp add: load_word_def)
  then show ?thesis by (simp add: load_array_def bytes_def element_def)
qed

section \<open>Properties\<close>

text \<open>C32. On the memory of either machine, the macro \<open>hash\<close> of an array of 32-bit values is \<open>hash_u32\<close> of
  its elements, as the comment above \<open>hash_u32\<close> says, and the macro \<open>hash\<close> of a variable that holds
  a pointer is \<open>hash_pointer\<close> of it: both branches of that function give the same hash.\<close>

theorem hash_of_memory:
  assumes "unat num < 2 ^ 62"
  shows "hash_macro be m 4 p num base = hash_u32 (load_array be 4 m p (unat num)) base \<and>
    hash_macro be m 8 q 1 base = hash_pointer be (load_word be 8 m q) base"
proof
  have "unat (num * 4) = 4 * unat num" using assms by (simp add: unat_word_ariths)
  then show "hash_macro be m 4 p num base = hash_u32 (load_array be 4 m p (unat num)) base"
    using load_array_bytes [of be m p "unat num"] hash_u32_is_hash_any [of "load_array be 4 m p (unat num)" base p]
    by (simp add: hash_macro_def split: if_splits)
  show "hash_macro be m 8 q 1 base = hash_pointer be (load_word be 8 m q) base"
    using load_word_bytes [of be m q] hash_pointer_is_hash_any [of be "load_word be 8 m q" base q]
    by (simp add: hash_macro_def split: if_splits)
qed

theorem hash_of_memory_witness:
  "hash_macro True (\<lambda>a. ucast a) 4 16 3 7 = hash_u32 (load_array True 4 (\<lambda>a. ucast a) 16 (unat (3 :: u64))) 7 \<and>
    hash_macro True (\<lambda>a. ucast a) 8 32 1 7 = hash_pointer True (load_word True 8 (\<lambda>a. ucast a) 32) 7"
  by (rule hash_of_memory) simp

text \<open>C33. The macros \<open>hash_stable\<close> and \<open>hash64_stable\<close> compile for elements of one, two, four and eight
  bytes only, and their result does not depend on the machine: arrays with the same values, equally
  many and of the same size, on machines of any byte order and at any address, have the same
  stable hash from the same base.\<close>

theorem hash_stable_portable:
  assumes "load_array be sz m p (unat num) = (load_array be' sz m' p' (unat num) :: u64 list)"
  shows "hash_stable be m sz p num base = hash_stable be' m' sz p' num base \<and>
    hash64_stable be m sz p num base64 = hash64_stable be' m' sz p' num base64 \<and>
    (hash_stable be m sz p num base = None \<longleftrightarrow> sz \<notin> {1, 2, 4, 8}) \<and>
    (hash64_stable be m sz p num base64 = None \<longleftrightarrow> sz \<notin> {1, 2, 4, 8})"
proof -
  note same = load_array_narrow [OF assms]
  consider "sz = 1" | "sz = 2" | "sz = 4" | "sz = 8" | "sz \<notin> {1, 2, 4, 8}" by auto
  then show ?thesis
  proof cases
    case 1
    then have "bytes m p (unat num) = bytes m' p' (unat num)"
      using same [where 'b = 8] by (simp only: load_array_bytes1) simp
    then show ?thesis
      using 1 by (simp add: hash_stable_def hash64_stable_def hash_stable_8_def hash64_stable_8_def hashlittle_eq)
  next
    case 2
    then show ?thesis using same [where 'b = 16] by (simp add: hash_stable_def hash64_stable_def)
  next
    case 3
    then show ?thesis using same [where 'b = 32] by (simp add: hash_stable_def hash64_stable_def)
  next
    case 4
    then show ?thesis using assms by (simp add: hash_stable_def hash64_stable_def)
  next
    case 5
    then show ?thesis by (simp add: hash_stable_def hash64_stable_def)
  qed
qed

text \<open>The two 32-bit values 0x04030201 and 0x08070605 in the memories of the two machines.\<close>

theorem hash_stable_portable_witness:
  "let m = (\<lambda>a. ucast a); m' = (\<lambda>a. if a < 4 then 4 - ucast a else 12 - ucast a) in
   hash_stable False m 4 1 2 7 = hash_stable True m' 4 0 2 7 \<and>
   hash64_stable False m 4 1 2 7 = hash64_stable True m' 4 0 2 7 \<and>
   (hash_stable False m 4 1 2 7 = None \<longleftrightarrow> 4 \<notin> {1, 2, 4, 8 :: nat}) \<and>
   (hash64_stable False m 4 1 2 7 = None \<longleftrightarrow> 4 \<notin> {1, 2, 4, 8 :: nat})"
  unfolding Let_def by (rule hash_stable_portable) code_simp

end
