(* ===== verification/Hash_Self_Test.thy ===== *)
theory Hash_Self_Test
  imports Hash_Memory C_Library
begin

unbundle bit_operations_syntax

text \<open>
  The self test of src/src/ccan/ccan/hash/hash.c, under the switch SELF_TEST: four drivers that
  print what they find. They are written against an older interface of lookup3: \<open>hashlittle\<close> takes
  its start value by value, and \<open>hashlittle2\<close>, \<open>hash_word\<close> and \<open>hash_word2\<close> are not defined in the
  repository. These four functions are a record, an argument of the drivers. The local arrays are
  in memory, at addresses of the compiler's choice, and have any content before they are
  written. The lemmas show what the drivers find out of a hash function, and what they miss.
\<close>

section \<open>What the drivers call and print\<close>

text \<open>
  \<open>hashlittle2\<close> and \<open>hash_word2\<close> take two start values by reference and return two hashes in them.
\<close>

record lookup3_api =
  hashlittle_old :: "memory \<Rightarrow> ptr \<Rightarrow> nat \<Rightarrow> u32 \<Rightarrow> u32"
  hashlittle2 :: "memory \<Rightarrow> ptr \<Rightarrow> nat \<Rightarrow> u32 \<times> u32 \<Rightarrow> u32 \<times> u32"
  hash_word :: "memory \<Rightarrow> ptr \<Rightarrow> nat \<Rightarrow> u32 \<Rightarrow> u32"
  hash_word2 :: "memory \<Rightarrow> ptr \<Rightarrow> nat \<Rightarrow> u32 \<times> u32 \<Rightarrow> u32 \<times> u32"

text \<open>The calls of printf, by their format: the numbers they print, or a fixed text.\<close>

datatype message =
    Text string
  | Time int u32
  | Max_trials nat
  | Bit_unchanged "u32 list" nat nat nat nat
  | Mix_success nat nat nat
  | Hashes "u32 list"
  | Word_mismatch u32 u32
  | Alignment_error u32 u32 u32 nat nat
  | Empty_hash nat u32

definition MAXPAIR :: nat where "MAXPAIR = 60"
definition MAXLEN :: nat where "MAXLEN = 70"

text \<open>An assignment to each of the first \<open>n\<close> elements of an array of bytes.\<close>

definition set_bytes :: "ptr \<Rightarrow> nat \<Rightarrow> u8 \<Rightarrow> memory \<Rightarrow> memory" where
  "set_bytes p n v m = fold (\<lambda>i m. m(p + word_of_nat i := v)) [0..<n] m"

definition store_bytes :: "ptr \<Rightarrow> u8 list \<Rightarrow> memory \<Rightarrow> memory" where
  "store_bytes p bs m = fold (\<lambda>i m. m(p + word_of_nat i := bs ! i)) [0..<length bs] m"

section \<open>The drivers\<close>

text \<open>Timing: \<open>a\<close> and \<open>z\<close> are what \<open>time\<close> returns before and after. The loop runs once.\<close>

definition driver1 :: "lookup3_api \<Rightarrow> ptr \<Rightarrow> int \<Rightarrow> int \<Rightarrow> memory \<Rightarrow> message list" where
  "driver1 T buf a z m =
     (let m = set_bytes buf 256 0x78 m;
          h = fold (\<lambda>i h. hashlittle_old T m buf 1 h) [0..<1] 0
      in if z - a > 0 then [Time (z - a) h] else [])"

text \<open>
  \<open>driver2\<close>: one bit of the input flipped. \<open>a[i] ^= (k<<j); a[i] ^= (k>>(8-j))\<close> in uint32_t, cut to a
  byte by the assignment.
\<close>

definition xor_rotated :: "ptr \<Rightarrow> nat \<Rightarrow> u32 \<Rightarrow> memory \<Rightarrow> memory" where
  "xor_rotated p j k m =
     (let m = m(p := m p XOR ucast (push_bit j k)) in m(p := m p XOR ucast (drop_bit (8 - j) k)))"

definition clear_keys :: "ptr \<Rightarrow> ptr \<Rightarrow> nat \<Rightarrow> memory \<Rightarrow> memory" where
  "clear_keys a b hlen m = fold (\<lambda>l m. m(b + word_of_nat l := 0, a + word_of_nat l := 0)) [0..<hlen + 1] m"

text \<open>
  The bits not yet seen, of six kinds: an output bit that changed, did not change, was set and was
  not set in the first and in the second hash. HASHSTATE is 1.
\<close>

type_synonym unseen = "u32 \<times> u32 \<times> u32 \<times> u32 \<times> u32 \<times> u32"

definition see :: "u32 \<Rightarrow> u32 \<Rightarrow> unseen \<Rightarrow> unseen" where
  "see c d = (\<lambda>(e, f, g, h, x, y).
     (e AND (c XOR d), f AND NOT (c XOR d), g AND c, h AND NOT c, x AND d, y AND NOT d))"

definition finished :: "unseen \<Rightarrow> bool" where
  "finished = (\<lambda>(e, f, g, h, x, y). e OR f OR g OR h OR x OR y = 0)"

definition trial ::
  "lookup3_api \<Rightarrow> ptr \<Rightarrow> ptr \<Rightarrow> nat \<Rightarrow> nat \<Rightarrow> nat \<Rightarrow> nat \<Rightarrow> nat \<Rightarrow> memory \<times> unseen \<Rightarrow> memory \<times> unseen"
where
  "trial T a b hlen i j m k = (\<lambda>(mm, u).
     let mm = clear_keys a b hlen mm;
         mm = xor_rotated (a + word_of_nat i) j (word_of_nat k) mm;
         c = hashlittle_old T mm a hlen (word_of_nat m);
         mm = xor_rotated (b + word_of_nat i) j (word_of_nat (k + 1)) mm;
         d = hashlittle_old T mm b hlen (word_of_nat m)
     in (mm, see c d u))"

text \<open>The loop over the pairs of keys, which is left early when all has been seen.\<close>

function trials ::
  "(nat \<Rightarrow> memory \<times> unseen \<Rightarrow> memory \<times> unseen) \<Rightarrow> nat \<Rightarrow> memory \<times> unseen \<Rightarrow> nat \<times> memory \<times> unseen"
where
  "trials step k s =
     (if k < MAXPAIR then let s = step k s in if finished (snd s) then (k, s) else trials step (k + 2) s
      else (k, s))"
  by pat_completeness auto
termination by (relation "measure (\<lambda>(step, k, s). MAXPAIR - k)") auto

declare trials.simps [simp del]

text \<open>
  The variables of \<open>driver2\<close> that live longer than a trial. A loop that is left by \<open>goto done\<close>
  returns True.
\<close>

record driver2_state =
  d_mem :: memory
  d_i :: nat
  d_m :: nat
  d_z :: nat
  d_out :: "message list"

fun loop_until :: "('a \<Rightarrow> 's \<Rightarrow> 's \<times> bool) \<Rightarrow> 'a list \<Rightarrow> 's \<Rightarrow> 's \<times> bool" where
  "loop_until f [] s = (s, False)"
| "loop_until f (x # xs) s = (let (s, stop) = f x s in if stop then (s, True) else loop_until f xs s)"

definition try_initval ::
  "lookup3_api \<Rightarrow> ptr \<Rightarrow> ptr \<Rightarrow> nat \<Rightarrow> nat \<Rightarrow> nat \<Rightarrow> nat \<Rightarrow> driver2_state \<Rightarrow> driver2_state \<times> bool"
where
  "try_initval T a b hlen i j m s =
     (let (k, mm, e, f, g, h, x, y) =
            trials (trial T a b hlen i j m) 0 (d_mem s, NOT 0, NOT 0, NOT 0, NOT 0, NOT 0, NOT 0);
          s = s\<lparr>d_mem := mm, d_i := i, d_m := m\<rparr>;
          s = (if k > d_z s then s\<lparr>d_z := k\<rparr> else s);
          s = (if k = MAXPAIR then s\<lparr>d_out := d_out s @ [Bit_unchanged [e, f, g, h, x, y] i j m hlen]\<rparr> else s)
      in (s, d_z s = MAXPAIR))"

definition try_initvals ::
  "lookup3_api \<Rightarrow> ptr \<Rightarrow> ptr \<Rightarrow> nat \<Rightarrow> nat \<Rightarrow> nat \<Rightarrow> driver2_state \<Rightarrow> driver2_state \<times> bool"
where
  "try_initvals T a b hlen i j s =
     (let (s, stop) = loop_until (try_initval T a b hlen i j) [1..<8] s
      in (if stop then s else s\<lparr>d_m := 8\<rparr>, stop))"

definition try_length :: "lookup3_api \<Rightarrow> ptr \<Rightarrow> ptr \<Rightarrow> nat \<Rightarrow> driver2_state \<Rightarrow> driver2_state" where
  "try_length T a b hlen s =
     (let (s, stop) = loop_until (\<lambda>i. loop_until (try_initvals T a b hlen i) [0..<8]) [0..<hlen] (s\<lparr>d_z := 0\<rparr>);
          s = (if stop then s else s\<lparr>d_i := hlen\<rparr>)
      in if d_z s < MAXPAIR then s\<lparr>d_out := d_out s @ [Mix_success (d_i s) (d_m s) (d_z s div 2)]\<rparr> else s)"

definition driver2 :: "lookup3_api \<Rightarrow> ptr \<Rightarrow> ptr \<Rightarrow> memory \<Rightarrow> message list" where
  "driver2 T qa qb m =
     d_out (fold (try_length T qa (qb + 1)) [0..<MAXLEN]
       \<lparr>d_mem = m, d_i = 0, d_m = 0, d_z = 0, d_out = [Max_trials (MAXPAIR div 2)]\<rparr>) @ [Text []]"

text \<open>
  \<open>driver3\<close>: the same text at four alignments, the functions with one and with two results, and keys
  with changing bytes around them. The addresses of its local variables are a record.
\<close>

record driver3_stack =
  s_buf :: ptr
  s_len :: ptr
  s_q :: ptr
  s_qq :: ptr
  s_qqq :: ptr
  s_qqqq :: ptr

definition test_text :: "u8 list" where
  "test_text = text_bytes ''This is the time for all good men to come to the aid of their country...''"

text \<open>The arrays of char are initialised with the text, zero to three letters x in front and a NUL behind.\<close>

definition init_texts :: "driver3_stack \<Rightarrow> memory \<Rightarrow> memory" where
  "init_texts st m =
     (let x = [0x78];
          m = store_bytes (s_q st) (test_text @ [0]) m;
          m = store_bytes (s_qq st) (x @ test_text @ [0]) m;
          m = store_bytes (s_qqq st) (x @ x @ test_text @ [0]) m
      in store_bytes (s_qqqq st) (x @ x @ x @ test_text @ [0]) m)"

text \<open>A line of twelve hashes, of the text without its last characters; \<open>sizeof(q)\<close> counts the NUL.\<close>

definition sizeof_q :: nat where
  "sizeof_q = length test_text + 1"

definition hash_line :: "lookup3_api \<Rightarrow> memory \<Rightarrow> ptr \<Rightarrow> message" where
  "hash_line T m p = Hashes (map (\<lambda>d. hashlittle_old T m p (sizeof_q - d) 13) [1..<13])"

definition compare_results :: "lookup3_api \<Rightarrow> bool \<Rightarrow> driver3_stack \<Rightarrow> memory \<Rightarrow> memory \<times> message list" where
  "compare_results T be st m =
     (let (i, j) = hashlittle2 T m (s_q st) sizeof_q (47, 0);
          out = (if hashlittle_old T m (s_q st) sizeof_q 47 \<noteq> i
                 then [Text ''hashlittle2 and hashlittle mismatch''] else []);
          m = store_bytes (s_len st) ((if be then be_bytes else le_bytes) 0xdeadbeef) m;
          (i, j) = hash_word2 T m (s_len st) 1 (47, 0)
      in (m, out @ (if hash_word T m (s_len st) 1 47 \<noteq> i
                    then [Word_mismatch i (hash_word T m (s_len st) 1 47)] else [])))"

text \<open>
  Keys of zeros of length \<open>i\<close>, hashed before and after the bytes next to them are set. The code puts \<open>i\<close>
  into the variable \<open>len\<close> and passes its value; the cells of \<open>len\<close> are not written here, since nothing
  reads them any more.
\<close>

definition probe ::
  "lookup3_api \<Rightarrow> ptr \<Rightarrow> nat \<Rightarrow> nat \<Rightarrow> memory \<times> message list \<Rightarrow> memory \<times> message list"
where
  "probe T b h i = (\<lambda>(m, out).
     let m = set_bytes b i 0 m;
         ref = hashlittle_old T m b i 1;
         m = m(b + word_of_nat i := NOT 0);
         m = m(b - 1 := NOT 0);
         x = hashlittle_old T m b i 1;
         y = hashlittle_old T m b i 1
     in (m, if ref \<noteq> x \<or> ref \<noteq> y then out @ [Alignment_error ref x y h i] else out))"

definition probes :: "lookup3_api \<Rightarrow> ptr \<Rightarrow> memory \<times> message list \<Rightarrow> memory \<times> message list" where
  "probes T buf = fold (\<lambda>h. fold (probe T (buf + 1 + word_of_nat h) h) [0..<MAXLEN]) [0..<8]"

definition driver3 :: "lookup3_api \<Rightarrow> bool \<Rightarrow> driver3_stack \<Rightarrow> memory \<Rightarrow> message list" where
  "driver3 T be st m =
     (let m = init_texts st m;
          out = [Text ''Endianness.  These lines should all be the same (for values filled in):'',
                 Hashes (map (\<lambda>d. hash_word T m (s_q st) ((sizeof_q - d) div 4) 13) [1, 5, 9]),
                 hash_line T m (s_q st), hash_line T m (s_qq st + 1),
                 hash_line T m (s_qqq st + 2), hash_line T m (s_qqqq st + 3), Text []];
          (m, out') = compare_results T be st m
      in snd (probes T (s_buf st) (m, out @ out')))"

text \<open>\<open>driver4\<close>: the hashes of empty keys, each started from the one before.\<close>

definition driver4 :: "lookup3_api \<Rightarrow> ptr \<Rightarrow> memory \<Rightarrow> message list" where
  "driver4 T buf m =
     (let m = m(buf := NOT 0)
      in snd (fold (\<lambda>i (h, out). let h = hashlittle_old T m buf 0 h in (h, out @ [Empty_hash i h])) [0..<8]
           (0, [Text ''These should all be different''])))"

text \<open>
  \<open>main\<close> runs the drivers one after the other; the frames of their local variables and what is in
  them at the start are arguments. It returns 1 in any case.
\<close>

definition self_test ::
  "lookup3_api \<Rightarrow> bool \<Rightarrow> ptr \<times> ptr \<times> ptr \<times> driver3_stack \<times> ptr \<Rightarrow> int \<Rightarrow> int \<Rightarrow>
    memory \<times> memory \<times> memory \<times> memory \<Rightarrow> message list \<times> int"
where
  "self_test T be = (\<lambda>(buf1, qa, qb, st, buf4) a z (m1, m2, m3, m4).
     (driver1 T buf1 a z m1 @ driver2 T qa qb m2 @ driver3 T be st m3 @ driver4 T buf4 m4, 1))"

section \<open>Hash functions under test\<close>

text \<open>
  What a hash function must do, and all the drivers can be passed by: read its key and nothing
  else. \<open>H\<close> is the function of the bytes of the key.
\<close>

definition reads_key_only :: "lookup3_api \<Rightarrow> (u8 list \<Rightarrow> u32 \<Rightarrow> u32) \<Rightarrow> bool" where
  "reads_key_only T H \<longleftrightarrow> (\<forall>m p n v. hashlittle_old T m p n v = H (bytes m p n) v)"

text \<open>The repository's \<open>hashlittle\<close> and \<open>hash_u32\<close>, called in the way the drivers call the functions.\<close>

definition hash_c :: "bool \<Rightarrow> lookup3_api" where
  "hash_c be =
     \<lparr>hashlittle_old = \<lambda>m p n v. fst (hashlittle be p (bytes m p n) v),
      hashlittle2 = \<lambda>m p n (v, w). hashlittle be p (bytes m p n) v,
      hash_word = \<lambda>m p n v. hash_u32 (load_array be 4 m p n) v,
      hash_word2 = \<lambda>m p n (v, w). (hash_u32 (load_array be 4 m p n) v, w)\<rparr>"

lemma hash_c_reads_key_only: "reads_key_only (hash_c be) (\<lambda>key v. fst (lookup3 le_word key v))"
  by (simp add: reads_key_only_def hash_c_def hashlittle_eq)

section \<open>Local arrays\<close>

lemma word_of_nat_inj: "i < 2 ^ 64 \<Longrightarrow> j < 2 ^ 64 \<Longrightarrow> (word_of_nat i :: ptr) = word_of_nat j \<longleftrightarrow> i = j"
  by (simp add: word_of_nat_eq_iff take_bit_nat_eq_self)

lemma bytes_agree: "(\<And>a. a \<in> bytes_at n p \<Longrightarrow> m a = m' a) \<Longrightarrow> bytes m p n = bytes m' p n"
  by (rule bytes_cong) (simp add: bytes_at_def)

lemma bytes_at_mono: "n \<le> k \<Longrightarrow> bytes_at n p \<subseteq> bytes_at k p"
  by (auto simp: bytes_at_def)

lemma bytes_at_add: "bytes_at n (p + word_of_nat i) \<subseteq> bytes_at (i + n) p"
  by (auto simp: bytes_at_def add.assoc simp flip: of_nat_add)

lemma after_bytes: "n \<le> i \<Longrightarrow> i < 2 ^ 64 \<Longrightarrow> p + word_of_nat i \<notin> bytes_at n p"
  by (auto simp: bytes_at_def word_of_nat_inj)

lemma before_bytes:
  assumes "n < 2 ^ 64"
  shows "p - 1 \<notin> bytes_at n p"
proof
  assume "p - 1 \<in> bytes_at n p"
  then obtain i where i: "i < n" "p - 1 = p + word_of_nat i" by (auto simp: bytes_at_def)
  then have "word_of_nat (Suc i) = (0 :: ptr)" by (simp add: algebra_simps)
  then have "2 ^ 64 dvd Suc i" unfolding word_of_nat_eq_0_iff by simp
  then show False using i(1) assms nat_dvd_not_less [of "Suc i" "2 ^ 64"] by simp
qed

lemma set_bytes_simp: "set_bytes p n v m a = (if a \<in> bytes_at n p then v else m a)"
  by (induction n) (auto simp: set_bytes_def bytes_at_def less_Suc_eq)

lemma bytes_set_bytes: "bytes (set_bytes p n v m) p n = replicate n v"
  by (intro nth_equalityI) (simp_all add: bytes_def set_bytes_simp bytes_at_def)

lemma store_bytes_take:
  fixes p :: ptr
  assumes "n \<le> length bs" "length bs \<le> 2 ^ 64" "j < length bs"
  shows "fold (\<lambda>i m. m(p + word_of_nat i := bs ! i)) [0..<n] m (p + word_of_nat j) =
    (if j < n then bs ! j else m (p + word_of_nat j))"
  using assms(1)
proof (induction n)
  case (Suc n)
  have "(word_of_nat j :: ptr) = word_of_nat n \<longleftrightarrow> j = n" using Suc.prems assms by (intro word_of_nat_inj) simp_all
  then show ?case using Suc by (auto simp: less_Suc_eq)
qed simp

lemma bytes_store_bytes: "length bs \<le> 2 ^ 64 \<Longrightarrow> bytes (store_bytes p bs m) p (length bs) = bs"
  by (intro nth_equalityI) (simp_all add: bytes_def store_bytes_def store_bytes_take)

lemma store_bytes_other: "a \<notin> bytes_at (length bs) p \<Longrightarrow> store_bytes p bs m a = m a"
proof -
  have "(\<And>i. i < n \<Longrightarrow> a \<noteq> p + word_of_nat i) \<Longrightarrow> fold (\<lambda>i m. m(p + word_of_nat i := bs ! i)) [0..<n] m a = m a" for n
    by (induction n) simp_all
  then show "a \<notin> bytes_at (length bs) p \<Longrightarrow> ?thesis" by (simp add: store_bytes_def bytes_at_def image_iff)
qed

section \<open>The third driver\<close>

text \<open>A hash function that looks at its key, and at the byte in front of one that is not empty.\<close>

definition reads_one_before :: "lookup3_api \<Rightarrow> (u8 option \<Rightarrow> u8 list \<Rightarrow> u32 \<Rightarrow> u32) \<Rightarrow> bool" where
  "reads_one_before T G \<longleftrightarrow>
     (\<forall>m p n v. hashlittle_old T m p n v = G (if n = 0 then None else Some (m (p - 1))) (bytes m p n) v)"

lemma reads_key_only_before: "reads_key_only T H \<Longrightarrow> reads_one_before T (\<lambda>b. H)"
  by (simp add: reads_key_only_def reads_one_before_def)

lemma probe_silent:
  assumes T: "reads_one_before T G" and i: "i < MAXLEN" and m: "0 < i \<Longrightarrow> m (b - 1) = NOT 0"
  shows "\<exists>m'. probe T b h i (m, out) = (m', out) \<and> m' (b - 1) = NOT 0"
proof -
  define m1 where "m1 = set_bytes b i 0 m"
  have i64: "i < 2 ^ 64" using i by (simp add: MAXLEN_def)
  have before: "0 < i \<Longrightarrow> m1 (b - 1) = NOT 0" using m before_bytes [OF i64] by (simp add: m1_def set_bytes_simp)
  have same: "bytes (m1(b + word_of_nat i := NOT 0, b - 1 := NOT 0)) b i = bytes m1 b i"
    using after_bytes [OF order_refl i64] before_bytes [OF i64] by (intro bytes_agree) auto
  then have "hashlittle_old T (m1(b + word_of_nat i := NOT 0, b - 1 := NOT 0)) b i 1 = hashlittle_old T m1 b i 1"
    using T before by (simp add: reads_one_before_def)
  then show ?thesis by (simp add: probe_def Let_def m1_def [symmetric])
qed

lemma probes_silent:
  assumes "reads_one_before T G"
  shows "snd (probes T buf (m, out)) = out"
proof -
  have inner: "\<exists>m'. fold (probe T b h) [0..<n] (m, out) = (m', out) \<and> (0 < n \<longrightarrow> m' (b - 1) = NOT 0)"
    if "n \<le> MAXLEN" for b h n m
    using that
  proof (induction n)
    case (Suc n)
    then obtain m' where "fold (probe T b h) [0..<n] (m, out) = (m', out)" "0 < n \<longrightarrow> m' (b - 1) = NOT 0" by auto
    then show ?case using probe_silent [OF assms, of n m' b h out] Suc.prems by auto
  qed simp
  have "\<exists>m'. fold (\<lambda>h. fold (probe T (buf + 1 + word_of_nat h) h) [0..<MAXLEN]) hs (m, out) = (m', out)" for hs m
  proof (induction hs arbitrary: m)
    case (Cons h hs)
    obtain m' where "fold (probe T (buf + 1 + word_of_nat h) h) [0..<MAXLEN] (m, out) = (m', out)" using inner by blast
    then show ?case using Cons.IH [of m'] by simp
  qed simp
  then show ?thesis unfolding probes_def by (metis snd_conv)
qed

text \<open>The texts are where they were put: no two of the arrays overlap.\<close>

definition stack_ok :: "driver3_stack \<Rightarrow> bool" where
  "stack_ok st \<longleftrightarrow>
     bytes_at (sizeof_q + 1) (s_qq st) \<inter> bytes_at sizeof_q (s_q st) = {} \<and>
     bytes_at (sizeof_q + 2) (s_qqq st) \<inter> (bytes_at sizeof_q (s_q st) \<union> bytes_at (sizeof_q + 1) (s_qq st)) = {} \<and>
     bytes_at (sizeof_q + 3) (s_qqqq st) \<inter>
       (bytes_at sizeof_q (s_q st) \<union> bytes_at (sizeof_q + 1) (s_qq st) \<union> bytes_at (sizeof_q + 2) (s_qqq st)) = {}"

lemma sizeof_q: "sizeof_q = 73" "length test_text = 72"
  by (simp_all add: sizeof_q_def test_text_def text_bytes_def)

lemma bytes_prefix: "bytes m p n = bs \<Longrightarrow> k \<le> n \<Longrightarrow> bytes m p k = take k bs"
  using bytes_add [of m p k "n - k"] by simp

lemma bytes_suffix: "bytes m p (k + n) = bs \<Longrightarrow> bytes m (p + word_of_nat k) n = drop k bs"
  by (auto simp: bytes_add)

lemma init_texts_bytes:
  assumes "stack_ok st" and m: "m' = init_texts st m"
  shows "bytes m' (s_q st) 73 = test_text @ [0]" "bytes m' (s_qq st + 1) 73 = test_text @ [0]"
    "bytes m' (s_qqq st + 2) 73 = test_text @ [0]" "bytes m' (s_qqqq st + 3) 73 = test_text @ [0]"
proof -
  let ?x = "[0x78] :: u8 list" and ?t = "test_text @ [0]"
  have apart: "bytes_at 74 (s_qq st) \<inter> bytes_at 73 (s_q st) = {}" "bytes_at 75 (s_qqq st) \<inter> bytes_at 73 (s_q st) = {}"
    "bytes_at 76 (s_qqqq st) \<inter> bytes_at 73 (s_q st) = {}" "bytes_at 75 (s_qqq st) \<inter> bytes_at 74 (s_qq st) = {}"
    "bytes_at 76 (s_qqqq st) \<inter> bytes_at 74 (s_qq st) = {}" "bytes_at 76 (s_qqqq st) \<inter> bytes_at 75 (s_qqq st) = {}"
    using assms(1) by (auto simp: stack_ok_def sizeof_q)
  have other: "bytes (store_bytes p bs m) q n = bytes m q n" if "bytes_at (length bs) p \<inter> bytes_at n q = {}" for p bs m q n
    using that by (intro bytes_agree store_bytes_other) auto
  have same: "bytes (store_bytes p bs m) p n = bs" if "length bs = n" "n \<le> 2 ^ 64" for p bs m n
    using that bytes_store_bytes by auto
  show "bytes m' (s_q st) 73 = ?t"
    by (simp add: m init_texts_def other same sizeof_q apart)
  have "bytes m' (s_qq st) 74 = ?x @ ?t"
    by (simp add: m init_texts_def other same sizeof_q apart)
  then show "bytes m' (s_qq st + 1) 73 = ?t" using bytes_suffix [of m' "s_qq st" 1 73] by simp
  have "bytes m' (s_qqq st) 75 = ?x @ ?x @ ?t"
    by (simp add: m init_texts_def other same sizeof_q apart)
  then show "bytes m' (s_qqq st + 2) 73 = ?t" using bytes_suffix [of m' "s_qqq st" 2 73] by simp
  have "bytes m' (s_qqqq st) 76 = ?x @ ?x @ ?x @ ?t"
    by (simp add: m init_texts_def other same sizeof_q apart)
  then show "bytes m' (s_qqqq st + 3) 73 = ?t" using bytes_suffix [of m' "s_qqqq st" 3 73] by simp
qed

text \<open>C39. The third driver passes a hash function that reads its key and nothing else, and whose versions
  with one and with two results agree: it prints four equal lines of hashes for the four
  alignments, and neither a mismatch nor an alignment error, whatever is in memory at the start.\<close>

theorem driver3_passes:
  assumes T: "reads_key_only T H" and st: "stack_ok st"
    and two: "\<And>m p n v w. fst (hashlittle2 T m p n (v, w)) = hashlittle_old T m p n v"
      "\<And>m p n v w. fst (hash_word2 T m p n (v, w)) = hash_word T m p n v"
  shows "\<exists>ws. driver3 T be st m =
    [Text ''Endianness.  These lines should all be the same (for values filled in):'', Hashes ws] @
    replicate 4 (Hashes (map (\<lambda>d. H (take (73 - d) (test_text @ [0])) 13) [1..<13])) @ [Text []]"
proof -
  let ?m = "init_texts st m" and ?line = "Hashes (map (\<lambda>d. H (take (73 - d) (test_text @ [0])) 13) [1..<13])"
  have line: "hash_line T ?m p = ?line" if "bytes ?m p 73 = test_text @ [0]" for p
    using T bytes_prefix [OF that] unfolding hash_line_def sizeof_q reads_key_only_def by simp
  have "snd (compare_results T be st ?m) = []"
    by (simp add: compare_results_def Let_def case_prod_unfold two)
  then obtain m' where "compare_results T be st ?m = (m', [])" by (metis prod.collapse)
  then have "driver3 T be st m =
      [Text ''Endianness.  These lines should all be the same (for values filled in):'',
       Hashes (map (\<lambda>d. hash_word T ?m (s_q st) ((sizeof_q - d) div 4) 13) [1, 5, 9]), ?line, ?line, ?line, ?line, Text []]"
    unfolding driver3_def Let_def init_texts_bytes [OF st refl, THEN line]
    by (simp only: prod.case append_Nil2 probes_silent [OF reads_key_only_before [OF T]])
  moreover have "replicate 4 x = [x, x, x, x]" for x :: message by (simp add: numeral_eq_Suc)
  ultimately show ?thesis by (simp only: append_Cons append_Nil) blast
qed

definition example_stack :: driver3_stack where
  "example_stack = \<lparr>s_buf = 0x1000, s_len = 0x1100, s_q = 0x1200, s_qq = 0x1300, s_qqq = 0x1400, s_qqqq = 0x1500\<rparr>"

lemma bytes_at_unat:
  assumes "a \<in> bytes_at n p" "unat p + n \<le> 2 ^ 64"
  shows "unat p \<le> unat a" "unat a < unat p + n"
proof -
  obtain i where i: "i < n" "a = p + word_of_nat i" using assms(1) by (auto simp: bytes_at_def)
  then have "unat a = unat p + i" using assms(2) by (simp add: unat_word_ariths unsigned_of_nat take_bit_nat_eq_self)
  then show "unat p \<le> unat a" "unat a < unat p + n" using i(1) by simp_all
qed

lemma bytes_at_apart:
  assumes "unat p + n \<le> unat q" "unat q + k \<le> 2 ^ 64"
  shows "bytes_at k q \<inter> bytes_at n p = {}"
  using bytes_at_unat [of _ n p] bytes_at_unat [of _ k q] assms by fastforce

theorem driver3_passes_witness:
  "\<exists>ws. driver3 (hash_c True) True example_stack (\<lambda>a. 7) =
    [Text ''Endianness.  These lines should all be the same (for values filled in):'', Hashes ws] @
    replicate 4 (Hashes (map (\<lambda>d. fst (lookup3 le_word (take (73 - d) (test_text @ [0])) 13)) [1..<13])) @ [Text []]"
proof (rule driver3_passes [OF hash_c_reads_key_only])
  show "stack_ok example_stack"
    unfolding stack_ok_def sizeof_q Int_Un_distrib Un_empty
    by (intro conjI bytes_at_apart) (simp_all add: example_stack_def)
qed (simp_all add: hash_c_def)

text \<open>C40. What the third driver misses: \<open>*(b-1)\<close> is set once, with the empty key, and never reset, so
  that for all other keys the byte in front of the key is the same when the hashes are compared.
  A hash function that reads this byte passes the check, which is meant for it.\<close>

theorem driver3_blind_in_front:
  assumes "reads_one_before T G"
  shows "Alignment_error ref x y h i \<notin> set (driver3 T be st m)"
  using probes_silent [OF assms]
  by (auto simp: driver3_def compare_results_def hash_line_def Let_def split: prod.splits if_splits)

text \<open>A hash function that returns the byte in front of its key.\<close>

definition front_reader :: lookup3_api where
  "front_reader = (hash_c False)\<lparr>hashlittle_old := \<lambda>m p n v. if n = 0 then 0 else ucast (m (p - 1))\<rparr>"

theorem driver3_blind_in_front_witness:
  "hashlittle_old front_reader (\<lambda>a. 1) 16 4 0 \<noteq> hashlittle_old front_reader ((\<lambda>a. 1)(15 := 2)) 16 4 0 \<and>
   (\<forall>ref x y h i. Alignment_error ref x y h i \<notin> set (driver3 front_reader True example_stack (\<lambda>a. 0)))"
proof -
  have "reads_one_before front_reader (\<lambda>b key v. case b of None \<Rightarrow> 0 | Some b \<Rightarrow> ucast b)"
    by (simp add: reads_one_before_def front_reader_def)
  from driver3_blind_in_front [OF this] show ?thesis by (simp add: front_reader_def)
qed

section \<open>The second driver\<close>

text \<open>The keys of zeros with one byte that is \<open>k\<close>, rotated by \<open>j\<close> bits.\<close>

definition key :: "nat \<Rightarrow> nat \<Rightarrow> nat \<Rightarrow> u32 \<Rightarrow> u8 list" where
  "key n i j k = (replicate n 0)[i := ucast (push_bit j k) XOR ucast (drop_bit (8 - j) k)]"

text \<open>The two keys of a trial differ in one bit: bit \<open>j\<close> of byte \<open>i\<close>.\<close>

theorem keys_differ_in_one_bit:
  assumes "even k" "k < MAXPAIR" "j < 8" "i < n"
  shows "key n i j (word_of_nat (k + 1)) = (key n i j (word_of_nat k))[i := key n i j (word_of_nat k) ! i XOR push_bit j 1]"
proof -
  have "\<forall>k \<in> set [0..<60]. even k \<longrightarrow> (\<forall>j \<in> set [0..<8].
      ucast (push_bit j (word_of_nat (k + 1) :: u32)) XOR ucast (drop_bit (8 - j) (word_of_nat (k + 1) :: u32)) =
      (ucast (push_bit j (word_of_nat k :: u32)) XOR ucast (drop_bit (8 - j) (word_of_nat k :: u32)) XOR push_bit j 1 :: u8))"
    by code_simp
  then show ?thesis using assms by (simp add: key_def MAXPAIR_def del: set_upt) (simp add: atLeast0LessThan xor.assoc)
qed

lemma clear_keys_simp:
  "clear_keys a b n m q = (if q \<in> bytes_at (n + 1) a \<union> bytes_at (n + 1) b then 0 else m q)"
proof -
  have "fold (\<lambda>l m. m(b + word_of_nat l := 0, a + word_of_nat l := 0)) [0..<n] m q =
      (if q \<in> bytes_at n a \<union> bytes_at n b then 0 else m q)" for n
    by (induction n) (auto simp: bytes_at_def less_Suc_eq)
  from this [of "n + 1"] show ?thesis by (simp only: clear_keys_def)
qed

lemma xor_rotated_simp:
  "xor_rotated p j k m = m(p := m p XOR (ucast (push_bit j k) XOR ucast (drop_bit (8 - j) k)))"
  by (simp add: xor_rotated_def Let_def xor.assoc)

lemma bytes_update:
  assumes "i < n" "n < 2 ^ 64"
  shows "bytes (m(p + word_of_nat i := v)) p n = (bytes m p n)[i := v]"
  using assms by (intro nth_equalityI) (auto simp: bytes_def word_of_nat_inj nth_list_update)

lemma trial_key:
  assumes "bytes mm p n = replicate n 0" "i < n" "n < 2 ^ 64"
  shows "bytes (xor_rotated (p + word_of_nat i) j k mm) p n = key n i j k"
proof -
  have "mm (p + word_of_nat i) = bytes mm p n ! i" using assms(2) by (simp add: bytes_def)
  then show ?thesis using assms by (simp add: xor_rotated_simp bytes_update key_def)
qed

lemma trial_sees:
  assumes T: "reads_key_only T H" and apart: "bytes_at (n + 1) a \<inter> bytes_at (n + 1) b = {}" and n: "i < n" "n < 2 ^ 64"
  shows "snd (trial T a b n i j m k (mm, u)) =
    see (H (key n i j (word_of_nat k)) (word_of_nat m)) (H (key n i j (word_of_nat (k + 1))) (word_of_nat m)) u"
proof -
  let ?mm = "clear_keys a b n mm"
  let ?mma = "xor_rotated (a + word_of_nat i) j (word_of_nat k) ?mm"
  have clear: "bytes ?mm p n = replicate n 0" if "p = a \<or> p = b" for p
    using that by (intro nth_equalityI) (auto simp: bytes_def clear_keys_simp bytes_at_def)
  have "a + word_of_nat i \<in> bytes_at (n + 1) a" using n(1) by (auto simp: bytes_at_def)
  then have "a + word_of_nat i \<notin> bytes_at n b" using apart bytes_at_mono [of n "n + 1" b] by auto
  then have "bytes ?mma b n = bytes ?mm b n"
    by (intro bytes_agree) (auto simp: xor_rotated_simp)
  then have "bytes ?mma b n = replicate n 0" using clear by simp
  then show ?thesis
    using trial_key [OF clear, of a] trial_key [of ?mma b n i j "word_of_nat (k + 1)"] n T
    by (simp add: trial_def Let_def reads_key_only_def)
qed

text \<open>
  The specification of a trial series: among the 30 pairs of keys, each output bit was changed and
  not changed by the bit of the input, and was set and not set in either hash.
\<close>

definition pairs :: "nat list" where
  "pairs = filter even [0..<MAXPAIR]"

definition bit_affects :: "(u8 list \<Rightarrow> u32 \<Rightarrow> u32) \<Rightarrow> nat \<Rightarrow> nat \<Rightarrow> nat \<Rightarrow> nat \<Rightarrow> bool" where
  "bit_affects H n i j m \<longleftrightarrow>
     (let c = (\<lambda>k. H (key n i j (word_of_nat k)) (word_of_nat m));
          d = (\<lambda>k. H (key n i j (word_of_nat (k + 1))) (word_of_nat m))
      in \<forall>t < 32. (\<exists>k \<in> set pairs. bit (c k XOR d k) t) \<and> (\<exists>k \<in> set pairs. \<not> bit (c k XOR d k) t) \<and>
           (\<exists>k \<in> set pairs. bit (c k) t) \<and> (\<exists>k \<in> set pairs. \<not> bit (c k) t) \<and>
           (\<exists>k \<in> set pairs. bit (d k) t) \<and> (\<exists>k \<in> set pairs. \<not> bit (d k) t))"

lemma or_eq_0: "x OR y = 0 \<longleftrightarrow> x = 0 \<and> y = (0 :: u32)"
  by (metis (no_types) or.left_neutral or_eq_0_iff)

lemma finished_see: "finished u \<Longrightarrow> finished (see c d u)"
  by (cases u) (simp add: finished_def see_def or_eq_0)

lemma finished_fold_see: "finished u \<Longrightarrow> finished (fold (\<lambda>k. see (c k) (d k)) ks u)"
  by (induction ks arbitrary: u) (simp_all add: finished_see)

lemma fold_and_bit: "bit (fold (\<lambda>k e. e AND w k) ks e :: u32) t \<longleftrightarrow> bit e t \<and> (\<forall>k \<in> set ks. bit (w k) t)"
  by (induction ks arbitrary: e) (auto simp: bit_simps)

lemma fold_and_eq_0: "fold (\<lambda>k e. e AND w k) ks (NOT 0) = (0 :: u32) \<longleftrightarrow> (\<forall>t < 32. \<exists>k \<in> set ks. \<not> bit (w k) t)"
  by (auto simp: bit_eq_iff fold_and_bit bit_simps)

lemma fold_see:
  "fold (\<lambda>k. see (c k) (d k)) ks (e, f, g, h, x, y) =
    (fold (\<lambda>k e. e AND (c k XOR d k)) ks e, fold (\<lambda>k e. e AND NOT (c k XOR d k)) ks f,
     fold (\<lambda>k e. e AND c k) ks g, fold (\<lambda>k e. e AND NOT (c k)) ks h,
     fold (\<lambda>k e. e AND d k) ks x, fold (\<lambda>k e. e AND NOT (d k)) ks y)"
  by (induction ks arbitrary: e f g h x y) (simp_all add: see_def)

lemma finished_all:
  "finished (fold (\<lambda>k. see (c k) (d k)) ks (NOT 0, NOT 0, NOT 0, NOT 0, NOT 0, NOT 0)) \<longleftrightarrow>
    (\<forall>t < 32. (\<exists>k \<in> set ks. bit (c k XOR d k) t) \<and> (\<exists>k \<in> set ks. \<not> bit (c k XOR d k) t) \<and>
       (\<exists>k \<in> set ks. bit (c k) t) \<and> (\<exists>k \<in> set ks. \<not> bit (c k) t) \<and>
       (\<exists>k \<in> set ks. bit (d k) t) \<and> (\<exists>k \<in> set ks. \<not> bit (d k) t))"
  by (simp only: fold_see finished_def prod.case or_eq_0 fold_and_eq_0) (auto simp: bit_not_iff)

text \<open>The loop stops early exactly if it has seen everything in the end.\<close>

lemma filter_even_step:
  assumes "even k" "k < n"
  shows "filter even [k..<n] = k # filter even [k + 2..<n]"
  using assms by (simp add: upt_conv_Cons [of k]) (cases "Suc k < n"; simp add: upt_conv_Cons [of "Suc k"])

lemma trials_stop:
  assumes step: "\<And>k mm u. snd (step k (mm, u)) = see (c k) (d k) u"
  shows "even k \<Longrightarrow> k \<le> MAXPAIR \<Longrightarrow> fst (trials step k (mm, u)) \<le> MAXPAIR \<and>
    (fst (trials step k (mm, u)) = MAXPAIR \<longleftrightarrow>
       k = MAXPAIR \<or> \<not> finished (fold (\<lambda>k. see (c k) (d k)) (filter even [k..<MAXPAIR]) u))"
proof (induction "MAXPAIR - k" arbitrary: k mm u rule: less_induct)
  case less
  show ?case
  proof (cases "k < MAXPAIR")
    case True
    obtain mm' where s: "step k (mm, u) = (mm', see (c k) (d k) u)" using step by (metis prod.collapse)
    have even: "filter even [k..<MAXPAIR] = k # filter even [k + 2..<MAXPAIR]"
      using less.prems True by (intro filter_even_step)
    have "even MAXPAIR" by (simp add: MAXPAIR_def)
    then have k2: "k + 2 \<le> MAXPAIR" using less.prems(1) True by presburger
    show ?thesis
    proof (cases "finished (see (c k) (d k) u)")
      case finished: True
      then show ?thesis
        using True by (simp add: trials.simps [of step k] s even finished_fold_see)
    next
      case False
      then have "trials step k (mm, u) = trials step (k + 2) (mm', see (c k) (d k) u)"
        using True by (simp add: trials.simps [of step k] s)
      moreover have "k + 2 = MAXPAIR \<Longrightarrow> filter even [k + 2..<MAXPAIR] = []" by simp
      ultimately show ?thesis
        using less.hyps [of "k + 2" mm' "see (c k) (d k) u"] less.prems True k2 False
        by (simp only: even fold.simps o_apply) auto
    qed
  next
    case False
    then show ?thesis using less.prems by (simp add: trials.simps [of step MAXPAIR])
  qed
qed

text \<open>
  What a loop of the driver does with an untroubled state: it is left exactly if there is something
  in \<open>B\<close> to report, with one line for it.
\<close>

definition reports :: "nat \<Rightarrow> (nat \<times> nat \<times> nat) set \<Rightarrow> driver2_state \<Rightarrow> driver2_state \<times> bool \<Rightarrow> bool" where
  "reports n B s = (\<lambda>(s', stop). (stop \<longleftrightarrow> B \<noteq> {}) \<and>
     (if stop then d_z s' = MAXPAIR \<and> (\<exists>acc i j m. (i, j, m) \<in> B \<and> d_out s' = d_out s @ [Bit_unchanged acc i j m n])
      else d_z s' < MAXPAIR \<and> d_out s' = d_out s))"

lemma loop_until_reports:
  assumes "\<And>x s. x \<in> set xs \<Longrightarrow> d_z s < MAXPAIR \<Longrightarrow> reports n (B x) s (f x s)"
  shows "d_z s < MAXPAIR \<Longrightarrow> reports n (\<Union>x \<in> set xs. B x) s (loop_until f xs s)"
  using assms
proof (induction xs arbitrary: s)
  case (Cons x xs)
  obtain s' stop where f: "f x s = (s', stop)" by (cases "f x s")
  then have x: "reports n (B x) s (s', stop)" using Cons.prems by fastforce
  show ?case
  proof (cases stop)
    case True
    then show ?thesis using x f by (auto simp: reports_def)
  next
    case False
    then have s': "d_z s' < MAXPAIR" "d_out s' = d_out s" "B x = {}" using x by (simp_all add: reports_def)
    then have "reports n (\<Union>x \<in> set xs. B x) s' (loop_until f xs s')" using Cons by auto
    then show ?thesis using f False s'(2,3) by (auto simp: reports_def split: prod.splits if_splits)
  qed
qed (simp add: reports_def)

lemma reports_cong: "reports n B s (s', stop) \<Longrightarrow> d_z s'' = d_z s' \<Longrightarrow> d_out s'' = d_out s' \<Longrightarrow> reports n B s (s'', stop)"
  by (simp add: reports_def)

definition unaffected :: "(u8 list \<Rightarrow> u32 \<Rightarrow> u32) \<Rightarrow> nat \<Rightarrow> (nat \<times> nat \<times> nat) set" where
  "unaffected H n = {(i, j, m). i < n \<and> j < 8 \<and> 1 \<le> m \<and> m < 8 \<and> \<not> bit_affects H n i j m}"

lemma try_initval_reports:
  assumes T: "reads_key_only T H" and apart: "bytes_at (n + 1) a \<inter> bytes_at (n + 1) b = {}" and n: "i < n" "n < 2 ^ 64"
    and z: "d_z s < MAXPAIR"
  shows "reports n (if bit_affects H n i j m then {} else {(i, j, m)}) s (try_initval T a b n i j m s)"
proof -
  let ?c = "\<lambda>k. H (key n i j (word_of_nat k)) (word_of_nat m)" and ?d = "\<lambda>k. H (key n i j (word_of_nat (k + 1))) (word_of_nat m)"
  obtain k mm e f g h x y where t: "trials (trial T a b n i j m) 0 (d_mem s, NOT 0, NOT 0, NOT 0, NOT 0, NOT 0, NOT 0) =
      (k, mm, e, f, g, h, x, y)" by (metis prod_cases3 prod.exhaust)
  have "even (0 :: nat)" "0 \<le> MAXPAIR" by simp_all
  from trials_stop [where c = ?c and d = ?d, OF trial_sees [OF T apart n] this,
      of "d_mem s" "(NOT 0, NOT 0, NOT 0, NOT 0, NOT 0, NOT 0)", folded pairs_def]
  have "k \<le> MAXPAIR" "k = MAXPAIR \<longleftrightarrow> \<not> bit_affects H n i j m"
    unfolding t fst_conv finished_all bit_affects_def Let_def by (auto simp: MAXPAIR_def)
  then show ?thesis
    using z unfolding try_initval_def t prod.case Let_def by (auto simp: reports_def)
qed

lemma try_initvals_reports:
  assumes T: "reads_key_only T H" and apart: "bytes_at (n + 1) a \<inter> bytes_at (n + 1) b = {}" and n: "i < n" "n < 2 ^ 64"
    and z: "d_z s < MAXPAIR"
  shows "reports n {(i, j, m) |m. 1 \<le> m \<and> m < 8 \<and> \<not> bit_affects H n i j m} s (try_initvals T a b n i j s)"
proof -
  have B: "(\<Union>m \<in> set [1..<8]. if bit_affects H n i j m then {} else {(i, j, m)}) =
      {(i, j, m) |m. 1 \<le> m \<and> m < 8 \<and> \<not> bit_affects H n i j m}" by (auto split: if_splits)
  have "reports n (\<Union>m \<in> set [1..<8]. if bit_affects H n i j m then {} else {(i, j, m)}) s (loop_until (try_initval T a b n i j) [1..<8] s)"
    by (intro loop_until_reports try_initval_reports [OF T apart n] z)
  then have "reports n {(i, j, m) |m. 1 \<le> m \<and> m < 8 \<and> \<not> bit_affects H n i j m} s (loop_until (try_initval T a b n i j) [1..<8] s)"
    unfolding B .
  then show ?thesis
    unfolding try_initvals_def
    by (cases "loop_until (try_initval T a b n i j) [1..<8] s") (simp only: Let_def prod.case, erule reports_cong, simp_all)
qed

lemma try_length_reports:
  assumes T: "reads_key_only T H" and apart: "bytes_at (n + 1) a \<inter> bytes_at (n + 1) b = {}" and n: "n < 2 ^ 64"
  shows "\<exists>l. d_out (try_length T a b n s) = d_out s @ [l] \<and>
    (if unaffected H n = {} then \<exists>m z. l = Mix_success n m z \<and> z < MAXPAIR div 2
     else \<exists>acc i j m. l = Bit_unchanged acc i j m n \<and> (i, j, m) \<in> unaffected H n)"
proof -
  let ?f = "\<lambda>i. loop_until (try_initvals T a b n i) [0..<8]" and ?s = "s\<lparr>d_z := 0\<rparr>"
  have B: "(\<Union>i \<in> set [0..<n]. \<Union>j \<in> set [0..<8]. {(i, j, m) |m. 1 \<le> m \<and> m < 8 \<and> \<not> bit_affects H n i j m}) = unaffected H n"
    by (auto simp: unaffected_def)
  have "reports n (\<Union>j \<in> set [0..<8]. {(i, j, m) |m. 1 \<le> m \<and> m < 8 \<and> \<not> bit_affects H n i j m}) s (?f i s)"
    if "i \<in> set [0..<n]" "d_z s < MAXPAIR" for i s
    using that by (intro loop_until_reports try_initvals_reports [OF T apart]) (use n in simp_all)
  note inner = this
  have "d_z ?s < MAXPAIR" by (simp add: MAXPAIR_def)
  from loop_until_reports [where f = ?f and xs = "[0..<n]", OF inner this]
  have "reports n (unaffected H n) ?s (loop_until ?f [0..<n] ?s)" unfolding B .
  then show ?thesis
    by (auto simp: try_length_def reports_def Let_def MAXPAIR_def split: prod.splits if_splits)
qed

text \<open>C38. The second driver decides what it is meant to check. With a hash function that reads its key
  and nothing else it prints one line for each length of key: success, if each bit of the key,
  under each start value, affects every bit of the hash, and otherwise one bit that does not;
  and no successful length takes more trials than the first line announces.\<close>

theorem driver2_verdict:
  assumes T: "reads_key_only T H" and apart: "bytes_at (MAXLEN + 1) qa \<inter> bytes_at (MAXLEN + 1) (qb + 1) = {}"
  shows "\<exists>line. driver2 T qa qb mm = Max_trials 30 # map line [0..<MAXLEN] @ [Text []] \<and>
    (\<forall>n < MAXLEN.
       if \<forall>i < n. \<forall>j < 8. \<forall>m \<in> {1..<8}. bit_affects H n i j m then \<exists>m z. line n = Mix_success n m z \<and> z < 30
       else \<exists>acc i j m. line n = Bit_unchanged acc i j m n \<and> i < n \<and> j < 8 \<and> m \<in> {1..<8} \<and> \<not> bit_affects H n i j m)"
proof -
  define ok where "ok l n \<longleftrightarrow> (if unaffected H n = {} then \<exists>m z. l = Mix_success n m z \<and> z < MAXPAIR div 2
     else \<exists>acc i j m. l = Bit_unchanged acc i j m n \<and> (i, j, m) \<in> unaffected H n)" for l n
  have step: "\<exists>l. d_out (try_length T qa (qb + 1) n s) = d_out s @ [l] \<and> ok l n" if "n < MAXLEN" for n s
  proof -
    have "n + 1 \<le> MAXLEN + 1" using that by simp
    then have "bytes_at (n + 1) qa \<inter> bytes_at (n + 1) (qb + 1) = {}"
      using apart bytes_at_mono [of "n + 1" "MAXLEN + 1"] by blast
    then show ?thesis
      using try_length_reports [OF T, of n qa "qb + 1" s] that by (auto simp: ok_def MAXLEN_def)
  qed
  have "\<exists>line. d_out (fold (try_length T qa (qb + 1)) [0..<n] s) = d_out s @ map line [0..<n] \<and> (\<forall>k < n. ok (line k) k)"
    if "n \<le> MAXLEN" for n s
    using that
  proof (induction n)
    case (Suc n)
    then obtain line where line: "d_out (fold (try_length T qa (qb + 1)) [0..<n] s) = d_out s @ map line [0..<n]" "\<forall>k < n. ok (line k) k"
      by auto
    obtain l where "d_out (fold (try_length T qa (qb + 1)) [0..<Suc n] s) = d_out s @ map line [0..<n] @ [l]" "ok l n"
      using step [of n "fold (try_length T qa (qb + 1)) [0..<n] s"] Suc.prems line(1) by auto
    then show ?case using line(2) by (intro exI [of _ "line(n := l)"]) (simp add: less_Suc_eq)
  qed simp
  from this [OF order_refl, of "\<lparr>d_mem = mm, d_i = 0, d_m = 0, d_z = 0, d_out = [Max_trials (MAXPAIR div 2)]\<rparr>"]
  obtain line where "driver2 T qa qb mm = Max_trials 30 # map line [0..<MAXLEN] @ [Text []]"
    "\<forall>n < MAXLEN. ok (line n) n"
    by (auto simp: driver2_def MAXPAIR_def)
  moreover have "unaffected H n = {} \<longleftrightarrow> (\<forall>i < n. \<forall>j < 8. \<forall>m \<in> {1..<8}. bit_affects H n i j m)" for n
    by (auto simp: unaffected_def)
  moreover have "(i, j, m) \<in> unaffected H n \<longleftrightarrow> i < n \<and> j < 8 \<and> m \<in> {1..<8} \<and> \<not> bit_affects H n i j m" for i j m n
    by (auto simp: unaffected_def)
  moreover have "MAXPAIR div 2 = 30" by (simp add: MAXPAIR_def)
  ultimately show ?thesis unfolding ok_def by (intro exI [of _ line] conjI) (simp_all only:)
qed

theorem driver2_verdict_witness:
  "\<exists>line. driver2 (hash_c False) 0x1000 0x1100 (\<lambda>a. 7) = Max_trials 30 # map line [0..<MAXLEN] @ [Text []] \<and>
    (\<forall>n < MAXLEN.
       if \<forall>i < n. \<forall>j < 8. \<forall>m \<in> {1..<8}. bit_affects (\<lambda>key v. fst (lookup3 le_word key v)) n i j m
       then \<exists>m z. line n = Mix_success n m z \<and> z < 30
       else \<exists>acc i j m. line n = Bit_unchanged acc i j m n \<and> i < n \<and> j < 8 \<and> m \<in> {1..<8} \<and>
         \<not> bit_affects (\<lambda>key v. fst (lookup3 le_word key v)) n i j m)"
proof (rule driver2_verdict [OF hash_c_reads_key_only])
  have "unat (0x1000 :: ptr) + (MAXLEN + 1) \<le> unat (0x1101 :: ptr)" "unat (0x1101 :: ptr) + (MAXLEN + 1) \<le> 2 ^ 64"
    by (simp_all add: MAXLEN_def)
  from bytes_at_apart [OF this] show "bytes_at (MAXLEN + 1) 0x1000 \<inter> bytes_at (MAXLEN + 1) (0x1100 + 1) = {}"
    by (simp add: Int_commute)
qed

section \<open>The fourth driver\<close>

text \<open>With the repository's \<open>hashlittle\<close>, the hashes of empty keys are all different, as the first line of
  the fourth driver says they should be.\<close>

theorem driver4_all_different:
  "\<exists>hs. driver4 (hash_c be) buf m = Text ''These should all be different'' # map (\<lambda>i. Empty_hash i (hs i)) [0..<8] \<and>
     distinct (map hs [0..<8])"
proof -
  have h: "hashlittle_old (hash_c be) m buf 0 v = 0xdeadbeef + v" for m v
    by (simp add: hash_c_def hashlittle_eq lookup3_def bytes_def block_loop.simps hash_finish_def hash_start_def Let_def)
  show ?thesis
    by (rule exI [of _ "\<lambda>i. word_of_nat (i + 1) * 0xdeadbeef"]) (simp add: driver4_def Let_def h upt_rec)
qed

end
