(* ===== verification/Debug_Trace.thy ===== *)
theory Debug_Trace
  imports Record_Replay
begin

text \<open>
  The code under DEBUG: with this switch both libraries write the functions that take part in the
  capture to a file, \<open>capture_comm\<close> and \<open>replay_comm\<close>, one line for each call. Here a library has a
  second component of its state, the stream \<open>comm_fd\<close> of mpire.h. The lemmas compare the two files:
  they list the same functions, but for MPI_Reduce.
\<close>

section \<open>The stream\<close>

text \<open>
  \<open>comm_fd\<close> is NULL at first, then a file with the lines written to it, each a function and the
  value of MPIRE_ACTIVE_DUMP, and no stream any more after \<open>fclose\<close>. What is printed to stderr is
  left out.
\<close>

datatype stream =
    No_stream
  | Stream string "(string \<times> string) list"
  | Closed_stream

definition print_calling_function_special :: "string \<Rightarrow> ('w, 'a) process_scheme \<Rightarrow> stream \<Rightarrow> stop + stream" where
  "print_calling_function_special caller_name s comm_fd =
     and_then (or_undefined (env (world s) ''MPIRE_ACTIVE_DUMP'')) (\<lambda>d.
       case comm_fd of
         Stream p ls \<Rightarrow> Inr (Stream p (ls @ [(caller_name, d)]))
       | _ \<Rightarrow> Inl Undefined)"

fun print_calling_function :: "string option \<Rightarrow> ('w, 'a) process_scheme \<Rightarrow> stream \<Rightarrow> stop + stream" where
  "print_calling_function None s comm_fd = Inr comm_fd"
| "print_calling_function (Some caller_name) s comm_fd = print_calling_function_special caller_name s comm_fd"

definition open_comm :: "string \<Rightarrow> ('w, 'a) process_scheme \<Rightarrow> stream \<times> ('w, 'a) process_scheme" where
  "open_comm comm_file s =
     (case write_text comm_file [] (world s) of
        None \<Rightarrow> (No_stream, s)
      | Some w \<Rightarrow> (Stream comm_file [], s\<lparr>world := w\<rparr>))"

definition comm_text :: "(string \<times> string) list \<Rightarrow> string" where
  "comm_text ls = concat (map (\<lambda>(name, d). name @ '' '' @ d @ [char_of (10 :: nat)]) ls)"

definition close_comm :: "stream \<times> ('w, 'a) process_scheme \<Rightarrow> stop + stream \<times> ('w, 'a) process_scheme" where
  "close_comm = (\<lambda>(comm_fd, s). case comm_fd of
      Stream p ls \<Rightarrow> Inr (Closed_stream,
        s\<lparr>world := (world s)\<lparr>files := (files (world s))(resolve p \<mapsto> text_bytes (comm_text ls))\<rparr>\<rparr>)
    | _ \<Rightarrow> Inl Undefined)"

section \<open>The capture\<close>

definition debug_init_MPIre :: "'w mpi \<Rightarrow> stream \<times> ('w, 'a) capture_scheme \<Rightarrow> stop + stream \<times> ('w, 'a) capture_scheme" where
  "debug_init_MPIre M = (\<lambda>(comm_fd, s). and_then (init_MPIre M s) (\<lambda>s.
     Inr (if rank_of M (COMM_WORLD M) s = MPIre_rank s
          then open_comm (snprintf 1024 (MPIre_output_path s @ ''/capture_comm'')) s else (comm_fd, s))))"

text \<open>In MPI_Init and MPI_Finalize only the captured process prints; all processes close the stream.\<close>

definition print_if_captured ::
  "'w mpi \<Rightarrow> string \<Rightarrow> stream \<times> ('w, 'a) capture_scheme \<Rightarrow> stop + stream \<times> ('w, 'a) capture_scheme" where
  "print_if_captured M name = (\<lambda>(comm_fd, s). and_then
     (print_calling_function (if rank_of M (COMM_WORLD M) s = MPIre_rank s then Some name else None) s comm_fd)
     (\<lambda>comm_fd. Inr (comm_fd, s)))"

definition debug_MPI_Init ::
  "'w mpi \<Rightarrow> ptr \<Rightarrow> ptr \<Rightarrow> stream \<times> ('w, 'a) capture_scheme \<Rightarrow> (stream \<times> ('w, 'a) capture_scheme) result" where
  "debug_MPI_Init M argc argv = (\<lambda>(comm_fd, s).
     let (ret, s) = pmpi M (Init argc argv) s
     in and_then (debug_init_MPIre M (comm_fd, s)) (\<lambda>s.
        and_then (print_if_captured M ''MPI_Init'' s) (\<lambda>s. Inr (ret, s))))"

definition debug_mpi_init_f ::
  "'w mpi \<Rightarrow> ptr \<Rightarrow> stream \<times> ('w, 'a) capture_scheme \<Rightarrow> stop + stream \<times> ('w, 'a) capture_scheme" where
  "debug_mpi_init_f M ierror = (\<lambda>(comm_fd, s).
     let (ret, s) = pmpi M (Init 0 NULL) s
     in and_then (debug_init_MPIre M (comm_fd, put_int M ierror ret s)) (print_if_captured M ''mpi_init_''))"

definition debug_MPI_Finalize ::
  "'w mpi \<Rightarrow> stream \<times> ('w, 'a) capture_scheme \<Rightarrow> (stream \<times> ('w, 'a) capture_scheme) result" where
  "debug_MPI_Finalize M s =
     and_then (print_if_captured M ''MPI_Finalize'' s) (\<lambda>s. and_then (close_comm s) (\<lambda>(comm_fd, s).
       and_then (MPI_Finalize M s) (\<lambda>(ret, s). Inr (ret, (comm_fd, s)))))"

definition debug_mpi_finalize_f ::
  "'w mpi \<Rightarrow> ptr \<Rightarrow> stream \<times> ('w, 'a) capture_scheme \<Rightarrow> stop + stream \<times> ('w, 'a) capture_scheme" where
  "debug_mpi_finalize_f M ierror s =
     and_then (print_if_captured M ''mpi_finalize_'' s) (\<lambda>s. and_then (close_comm s) (\<lambda>(comm_fd, s).
       and_then (mpi_finalize_f M ierror s) (\<lambda>s. Inr (comm_fd, s))))"

text \<open>
  The other functions print at most once, before they change the log or the table, and nothing of
  what they do depends on it. \<open>capture_prints\<close> is the name that is printed; \<open>found\<close> is that the
  request is in the table, which MPI_Wait looks at. A Fortran function that calls the C function
  prints the name of that one.
\<close>

definition found :: "'e allocator_scheme \<Rightarrow> ptr \<Rightarrow> 'a request_state_scheme \<Rightarrow> bool" where
  "found al request s = (case get_request al request s of Inr p \<Rightarrow> p \<noteq> NULL | Inl e \<Rightarrow> False)"

definition only_if :: "bool \<Rightarrow> 'a \<Rightarrow> 'a option" where
  "only_if b x = (if b then Some x else None)"

fun capture_prints :: "'w mpi \<Rightarrow> mpi_call \<Rightarrow> ('w, 'a) capture_scheme \<Rightarrow> string option" where
  "capture_prints M (Irecv b n d source tag comm request) s = only_if (rank_of M comm s = MPIre_rank s) ''MPI_Irecv''"
| "capture_prints M (Recv b n d source tag comm status) s = only_if (rank_of M comm s = MPIre_rank s) ''MPI_Recv''"
| "capture_prints M (Wait request status) s =
     only_if (rank_of M (COMM_WORLD M) s = MPIre_rank s \<and> found M request s) ''MPI_Wait''"
| "capture_prints M (Waitall n requests statuses) s =
     only_if (rank_of M (COMM_WORLD M) s = MPIre_rank s) ''MPI_Waitall''"
| "capture_prints M (Bcast b n d root comm) s =
     only_if (rank_of M comm s = MPIre_rank s \<and> rank_of M comm s \<noteq> root) ''MPI_Bcast''"
| "capture_prints M (Alltoall sb sn sd rb rn rd comm) s = only_if (rank_of M comm s = MPIre_rank s) ''MPI_Alltoall''"
| "capture_prints M (Alltoallv sb sn sv sd rb rn rv rd comm) s =
     only_if (rank_of M comm s = MPIre_rank s) ''MPI_Alltoallv''"
| "capture_prints M (Allreduce sb rb n d op comm) s = only_if (rank_of M comm s = MPIre_rank s) ''MPI_Allreduce''"
| "capture_prints M (Reduce sb rb n d op root comm) s =
     only_if (rank_of M comm s = MPIre_rank s \<and> rank_of M comm s = root) ''MPI_Reduce''"
| "capture_prints M c s = None"

fun capture_prints_f :: "'w mpi \<Rightarrow> f_call \<Rightarrow> ('w, 'a) capture_scheme \<Rightarrow> string option" where
  "capture_prints_f M (F_Irecv b n d source tag comm request ierror) s =
     only_if (rank_of M (Comm_f2c M (get_int M comm s)) s = MPIre_rank s) ''mpi_irecv_''"
| "capture_prints_f M (F_Wait request status ierror) s =
     only_if (rank_of M (COMM_WORLD M) s = MPIre_rank s \<and> found M request s) ''mpi_wait_''"
| "capture_prints_f M (F_Waitall n requests statuses ierror) s =
     only_if (rank_of M (COMM_WORLD M) s = MPIre_rank s) ''mpi_waitall_''"
| "capture_prints_f M f s = capture_prints M (in_c M (mem (world s)) f) s"

text \<open>The environment is read before the call; MPI leaves it alone.\<close>

fun debug_capture_call ::
  "'w mpi \<Rightarrow> mpi_call \<Rightarrow> stream \<times> ('w, 'a) capture_scheme \<Rightarrow> (stream \<times> ('w, 'a) capture_scheme) result" where
  "debug_capture_call M (Init argc argv) s = debug_MPI_Init M argc argv s"
| "debug_capture_call M Finalize s = debug_MPI_Finalize M s"
| "debug_capture_call M c (comm_fd, s) =
     and_then (print_calling_function (capture_prints M c s) s comm_fd) (\<lambda>comm_fd.
     and_then (capture_call M c s) (\<lambda>(ret, s). Inr (ret, (comm_fd, s))))"

fun debug_capture_f ::
  "'w mpi \<Rightarrow> f_call \<Rightarrow> stream \<times> ('w, 'a) capture_scheme \<Rightarrow> stop + stream \<times> ('w, 'a) capture_scheme" where
  "debug_capture_f M (F_Init ierror) s = debug_mpi_init_f M ierror s"
| "debug_capture_f M (F_Finalize ierror) s = debug_mpi_finalize_f M ierror s"
| "debug_capture_f M f (comm_fd, s) =
     and_then (print_calling_function (capture_prints_f M f s) s comm_fd) (\<lambda>comm_fd.
     and_then (capture_f M f s) (\<lambda>s. Inr (comm_fd, s)))"

fun debug_capture :: "'w mpi \<Rightarrow> event \<Rightarrow> stream \<times> 'w capture \<Rightarrow> stop + stream \<times> 'w capture" where
  "debug_capture M (Compute f) (comm_fd, s) = Inr (comm_fd, on_mem f s)"
| "debug_capture M (Arrive g) (comm_fd, s) = Inr (comm_fd, on_mem g s)"
| "debug_capture M (Call c) s = and_then (debug_capture_call M c s) (\<lambda>(ret, s). Inr s)"
| "debug_capture M (Call_f f) s = debug_capture_f M f s"

section \<open>The replay\<close>

definition debug_init_replay :: "('w, 'a) replay_scheme \<Rightarrow> stop + stream \<times> ('w, 'a) replay_scheme" where
  "debug_init_replay s = and_then (init_replay s) (\<lambda>s.
     let s = s\<lparr>world := (world s)\<lparr>env := (env (world s))(''MPIRE_ACTIVE_DUMP'' \<mapsto> ''1'')\<rparr>\<rparr>
     in Inr (open_comm (snprintf 1024 (MPIre_input_path s @ ''/replay_comm'')) s))"

text \<open>MPI_Init prints when it is called for the first time.\<close>

definition debug_R_init ::
  "'w mpi \<Rightarrow> string \<Rightarrow> ptr \<Rightarrow> ptr \<Rightarrow> stream \<times> ('w, 'a) replay_scheme \<Rightarrow> (stream \<times> ('w, 'a) replay_scheme) result" where
  "debug_R_init M name argc argv = (\<lambda>(comm_fd, s).
     if Initialized M (lib (world s)) then Inr (MPI_SUCCESS, (comm_fd, s\<lparr>cpt_read := 0\<rparr>))
     else and_then (debug_init_replay s) (\<lambda>(comm_fd, s).
          and_then (print_calling_function (Some name) s comm_fd) (\<lambda>comm_fd.
            let (ret, s) = pmpi M (Init argc argv) s in Inr (ret, (comm_fd, s)))))"

definition debug_R_finalize ::
  "string \<Rightarrow> stream \<times> ('w, 'a) replay_scheme \<Rightarrow> stop + stream \<times> ('w, 'a) replay_scheme" where
  "debug_R_finalize name = (\<lambda>(comm_fd, s).
     and_then (print_calling_function (Some name) s comm_fd) (\<lambda>comm_fd. close_comm (comm_fd, s)))"

fun replay_prints :: "'w mpi \<Rightarrow> mpi_call \<Rightarrow> ('w, 'a) replay_scheme \<Rightarrow> string option" where
  "replay_prints M (Irecv b n d source tag comm request) s = Some ''MPI_Irecv''"
| "replay_prints M (Recv b n d source tag comm status) s = Some ''MPI_Recv''"
| "replay_prints M (Wait request status) s = only_if (found M request s) ''MPI_Wait''"
| "replay_prints M (Waitall n requests statuses) s = Some ''MPI_Waitall''"
| "replay_prints M (Bcast b n d root comm) s = only_if (MPIre_rank s \<noteq> root) ''MPI_Bcast''"
| "replay_prints M (Alltoall sb sn sd rb rn rd comm) s = Some ''MPI_Alltoall''"
| "replay_prints M (Alltoallv sb sn sv sd rb rn rv rd comm) s = Some ''MPI_Alltoallv''"
| "replay_prints M (Allreduce sb rb n d op comm) s = Some ''MPI_Allreduce''"
| "replay_prints M (Reduce sb rb n d op root comm) s = Some ''MPI_Reduce''"
| "replay_prints M c s = None"

text \<open>The call of mpi_reduce_ goes to the MPI library, which prints nothing.\<close>

fun replay_prints_f :: "'w mpi \<Rightarrow> f_call \<Rightarrow> ('w, 'a) replay_scheme \<Rightarrow> string option" where
  "replay_prints_f M (F_Irecv b n d source tag comm request ierror) s = Some ''mpi_irecv_''"
| "replay_prints_f M (F_Wait request status ierror) s = only_if (found M request s) ''mpi_wait_''"
| "replay_prints_f M (F_Waitall n requests statuses ierror) s = Some ''mpi_waitall_''"
| "replay_prints_f M (F_Reduce sb rb n d op root comm ierror) s = None"
| "replay_prints_f M f s = replay_prints M (in_c M (mem (world s)) f) s"

fun debug_replay_call ::
  "'w mpi \<Rightarrow> mpi_call \<Rightarrow> stream \<times> ('w, 'a) replay_scheme \<Rightarrow> (stream \<times> ('w, 'a) replay_scheme) result" where
  "debug_replay_call M (Init argc argv) s = debug_R_init M ''MPI_Init'' argc argv s"
| "debug_replay_call M Finalize s = and_then (debug_R_finalize ''MPI_Finalize'' s) (\<lambda>(comm_fd, s).
     and_then (R_MPI_Finalize M s) (\<lambda>(ret, s). Inr (ret, (comm_fd, s))))"
| "debug_replay_call M c (comm_fd, s) =
     and_then (print_calling_function (replay_prints M c s) s comm_fd) (\<lambda>comm_fd.
     and_then (replay_call M c s) (\<lambda>(ret, s). Inr (ret, (comm_fd, s))))"

fun debug_replay_f ::
  "'w mpi \<Rightarrow> f_call \<Rightarrow> stream \<times> ('w, 'a) replay_scheme \<Rightarrow> stop + stream \<times> ('w, 'a) replay_scheme" where
  "debug_replay_f M (F_Init ierror) s = and_then (debug_R_init M ''mpi_init_'' 0 NULL s)
     (\<lambda>(ret, (comm_fd, s)). Inr (comm_fd, put_int M ierror ret s))"
| "debug_replay_f M (F_Finalize ierror) s = and_then (debug_R_finalize ''mpi_finalize_'' s) (\<lambda>(comm_fd, s).
     and_then (r_mpi_finalize_f M ierror s) (\<lambda>s. Inr (comm_fd, s)))"
| "debug_replay_f M f (comm_fd, s) =
     and_then (print_calling_function (replay_prints_f M f s) s comm_fd) (\<lambda>comm_fd.
     and_then (replay_f M f s) (\<lambda>s. Inr (comm_fd, s)))"

fun debug_replay :: "'w mpi \<Rightarrow> event \<Rightarrow> stream \<times> 'w replay \<Rightarrow> stop + stream \<times> 'w replay" where
  "debug_replay M (Compute f) (comm_fd, s) = Inr (comm_fd, on_mem f s)"
| "debug_replay M (Arrive g) (comm_fd, s) = Inr (comm_fd, s)"
| "debug_replay M (Call c) s = and_then (debug_replay_call M c s) (\<lambda>(ret, s). Inr s)"
| "debug_replay M (Call_f f) s = debug_replay_f M f s"

section \<open>What both print\<close>

text \<open>
  The name a call prints in the process \<open>rank\<close>, where the receives \<open>m\<close> are pending: in the capture,
  and in the replay as long as MPI_Reduce is called by its root.
\<close>

fun call_name :: "int \<Rightarrow> (ptr \<rightharpoonup> request_t) \<Rightarrow> mpi_call \<Rightarrow> string option" where
  "call_name rank m (Irecv b n d source tag comm request) = Some ''MPI_Irecv''"
| "call_name rank m (Recv b n d source tag comm status) = Some ''MPI_Recv''"
| "call_name rank m (Wait request status) = only_if (m request \<noteq> None) ''MPI_Wait''"
| "call_name rank m (Waitall n requests statuses) = Some ''MPI_Waitall''"
| "call_name rank m (Bcast b n d root comm) = only_if (rank \<noteq> root) ''MPI_Bcast''"
| "call_name rank m (Alltoall sb sn sd rb rn rd comm) = Some ''MPI_Alltoall''"
| "call_name rank m (Alltoallv sb sn sv sd rb rn rv rd comm) = Some ''MPI_Alltoallv''"
| "call_name rank m (Allreduce sb rb n d op comm) = Some ''MPI_Allreduce''"
| "call_name rank m (Reduce sb rb n d op root comm) = only_if (rank = root) ''MPI_Reduce''"
| "call_name rank m c = None"

fun call_name_f :: "'w mpi \<Rightarrow> memory \<Rightarrow> int \<Rightarrow> (ptr \<rightharpoonup> request_t) \<Rightarrow> f_call \<Rightarrow> string option" where
  "call_name_f M mm rank m (F_Irecv b n d source tag comm request ierror) = Some ''mpi_irecv_''"
| "call_name_f M mm rank m (F_Wait request status ierror) = only_if (m request \<noteq> None) ''mpi_wait_''"
| "call_name_f M mm rank m (F_Waitall n requests statuses ierror) = Some ''mpi_waitall_''"
| "call_name_f M mm rank m f = call_name rank m (in_c M mm f)"

text \<open>The events whose names both libraries print.\<close>

fun same_names :: "int \<Rightarrow> event \<Rightarrow> bool" where
  "same_names rank (Call Finalize) \<longleftrightarrow> False"
| "same_names rank (Call (Reduce sb rb n d op root comm)) \<longleftrightarrow> rank = root"
| "same_names rank (Call_f (F_Finalize ierror)) \<longleftrightarrow> False"
| "same_names rank e \<longleftrightarrow> True"

lemma found_pending: "pending hb (big_endian al) s m \<Longrightarrow> found al k s \<longleftrightarrow> m k \<noteq> None"
  using get_request_pending [of hb al s m k] by (auto simp: found_def split: option.splits)

lemma recording_rank: "recording hb G M F s m \<Longrightarrow> rank_of M (COMM_WORLD M) s = MPIre_rank s"
  by (simp add: recording_def logging_def)

lemma recording_found: "recording hb G M F s m \<Longrightarrow> found M k s \<longleftrightarrow> m k \<noteq> None"
  using found_pending [of hb M s m k] by (simp add: recording_def)

lemma capture_prints_name:
  assumes "recording hb G M F s m" "args_ok M G Q F m c s"
  shows "capture_prints M c s = call_name (MPIre_rank s) m c"
  using assms(2) recording_rank [OF assms(1)] recording_found [OF assms(1)]
  by (cases c) (simp_all add: world_comm_def only_if_def)

lemma capture_prints_f_name:
  assumes "recording hb G M F s m" "f_args_ok M F m f s"
  shows "capture_prints_f M f s = call_name_f M (mem (world s)) (MPIre_rank s) m f"
  using assms(2) recording_rank [OF assms(1)] recording_found [OF assms(1)]
  by (cases f) (simp_all add: world_comm_def only_if_def get_int_def)

lemma replay_prints_name:
  assumes "in_step hb M Q m s r" "big_endian M' = big_endian M" "same_names (MPIre_rank s) (Call c)"
  shows "replay_prints M' c r = call_name (MPIre_rank s) m c"
proof -
  have "found M' k r \<longleftrightarrow> m k \<noteq> None" for k
    using assms(1,2) found_pending [of hb M' r m k] by (simp add: in_step_def)
  then show ?thesis using assms(1,3) by (cases c) (simp_all add: in_step_def only_if_def)
qed

lemma replay_prints_f_name:
  assumes r: "in_step hb M Q m s r" and M': "big_endian M' = big_endian M" and ok: "f_call_ok M G Q F m f s"
  shows "replay_prints_f M' f r = call_name_f M (mem (world s)) (MPIre_rank s) m f"
proof -
  have "found M' k r \<longleftrightarrow> m k \<noteq> None" for k
    using r M' found_pending [of hb M' r m k] by (simp add: in_step_def)
  moreover have "MPIre_rank r = MPIre_rank s" using r by (simp add: in_step_def)
  moreover have "int_in M' (mem (world r)) p = int_in M (mem (world s)) p" if "p \<in> int_args f" for p
    using args_in_step [OF ok r M' that refl] by (simp add: get_int_def)
  moreover have "f_args_ok M F m f s" using ok by (rule f_call_okD(1))
  ultimately show ?thesis by (cases f) (simp_all add: only_if_def)
qed

section \<open>One event\<close>

fun event_name :: "'w mpi \<Rightarrow> memory \<Rightarrow> int \<Rightarrow> (ptr \<rightharpoonup> request_t) \<Rightarrow> event \<Rightarrow> string option" where
  "event_name M mm rank m (Call c) = call_name rank m c"
| "event_name M mm rank m (Call_f f) = call_name_f M mm rank m f"
| "event_name M mm rank m e = None"

definition line :: "string option \<Rightarrow> string \<Rightarrow> (string \<times> string) list" where
  "line name d = (case name of None \<Rightarrow> [] | Some x \<Rightarrow> [(x, d)])"

lemma printed:
  "env (world s) ''MPIRE_ACTIVE_DUMP'' = Some d \<Longrightarrow> print_calling_function name s (Stream p ls) = Inr (Stream p (ls @ line name d))"
  by (cases name) (simp_all add: print_calling_function_special_def line_def)

lemma debug_capture_step:
  assumes step: "captured_step M G Q F e (s, m) (s1, m1)" and s: "recording hb G M F s m" and e: "same_names (MPIre_rank s) e"
  shows "\<exists>d. debug_capture M e (Stream p ls, s) = Inr (Stream p (ls @ line (event_name M (mem (world s)) (MPIre_rank s) m e) d), s1)"
proof -
  obtain d where d: "env (world s) ''MPIRE_ACTIVE_DUMP'' = Some d"
    using s by (auto simp: recording_def logging_def dump_on_def)
  from step show ?thesis
  proof (cases rule: captured_step_cases)
    case (call c ret)
    have args: "args_ok M G Q F m c s" using call(3) by (simp add: call_ok_def)
    then have "debug_capture_call M c (fd, s) = and_then (print_calling_function (call_name (MPIre_rank s) m c) s fd) (\<lambda>fd.
        and_then (capture_call M c s) (\<lambda>(ret, s). Inr (ret, (fd, s))))" for fd
      using e call(1) capture_prints_name [OF s args] by (cases c) simp_all
    then show ?thesis using call printed [OF d] by (auto simp del: capture_call.simps)
  next
    case (call_f f)
    have args: "f_args_ok M F m f s" using call_f(3) by (rule f_call_okD(1))
    then have "debug_capture_f M f (fd, s) = and_then (print_calling_function (call_name_f M (mem (world s)) (MPIre_rank s) m f) s fd) (\<lambda>fd.
        and_then (capture_f M f s) (\<lambda>s. Inr (fd, s)))" for fd
      using e call_f(1) capture_prints_f_name [OF s args] by (cases f) simp_all
    then show ?thesis using call_f printed [OF d] by (auto simp del: capture_f.simps)
  qed (simp_all add: line_def)
qed

lemma debug_replay_step:
  assumes step: "captured_step M G Q F e (s, m) (s1, m1)" and e: "same_names (MPIre_rank s) e"
    and r: "in_step hb M Q m s r" "big_endian M' = big_endian M" "env (world r) ''MPIRE_ACTIVE_DUMP'' = Some d"
    and r1: "replay_event M' e r = Inr r1"
  shows "debug_replay M' e (Stream p ls, r) = Inr (Stream p (ls @ line (event_name M (mem (world s)) (MPIre_rank s) m e) d), r1)"
  using step
proof (cases rule: captured_step_cases)
  case (call c ret)
  have args: "args_ok M G Q F m c s" using call(3) by (simp add: call_ok_def)
  have "replay_prints M' c r = call_name (MPIre_rank s) m c"
    using e call(1) by (intro replay_prints_name [OF r(1,2)]) simp
  then have "debug_replay_call M' c (fd, r) = and_then (print_calling_function (call_name (MPIre_rank s) m c) r fd) (\<lambda>fd.
      and_then (replay_call M' c r) (\<lambda>(ret, s). Inr (ret, (fd, s))))" for fd
    using e call(1) args by (cases c) simp_all
  then show ?thesis using call r1 printed [OF r(3)] by (auto simp del: replay_call.simps)
next
  case (call_f f)
  have args: "f_args_ok M F m f s" using call_f(3) by (rule f_call_okD(1))
  have "replay_prints_f M' f r = call_name_f M (mem (world s)) (MPIre_rank s) m f"
    using call_f(3) by (rule replay_prints_f_name [OF r(1,2)])
  then have "debug_replay_f M' f (fd, r) = and_then (print_calling_function (call_name_f M (mem (world s)) (MPIre_rank s) m f) r fd) (\<lambda>fd.
      and_then (replay_f M' f r) (\<lambda>s. Inr (fd, s)))" for fd
    using e call_f(1) args by (cases f) simp_all
  then show ?thesis using call_f r1 printed [OF r(3)] by (auto simp del: replay_f.simps)
qed (use r1 in \<open>simp_all add: line_def\<close>)

text \<open>The files of MPI leave the environment alone; then the replay does.\<close>

definition quiet_env :: "'w mpi \<Rightarrow> bool" where
  "quiet_env M \<longleftrightarrow> (\<forall>name mode w. env (snd (snd (File_open M name mode w))) = env w) \<and>
     (\<forall>fh b n d w. env (snd (File_read M fh b n d w)) = env w) \<and> (\<forall>fh w. env (File_close M fh w) = env w)"

lemma read_in_file_env:
  assumes "quiet_env M" "read_in_file M b n d s = Inr s'"
  shows "env (world s') = env (world s)"
proof -
  obtain fp fh w1 where open1: "File_open M (log_name (MPIre_input_path s) (cpt_read s)) Rdonly (world s) = (fp, fh, w1)"
    by (cases "File_open M (log_name (MPIre_input_path s) (cpt_read s)) Rdonly (world s)")
  then have "world s' = File_close M fh (snd (File_read M fh b n d w1))"
    using assms(2) by (auto simp: read_in_file_def Let_def split: if_splits prod.splits)
  moreover have "env w1 = env (world s)" using assms(1) open1 unfolding quiet_env_def by (metis snd_conv)
  ultimately show ?thesis using assms(1) by (simp add: quiet_env_def)
qed

lemma complete_request_env:
  assumes "quiet_env M" "complete_request M (read_in_file M) k h s = Inr s'"
  shows "env (world s') = env (world s)"
  using assms read_in_file_env [OF assms(1)]
  by (auto simp: complete_request_def del_request_def or_undefined_def split: if_splits prod.splits option.splits)

lemma for_each_keeps:
  assumes "\<And>i s s'. f i s = Inr s' \<Longrightarrow> v s' = v s" "for_each is f s = Inr s'"
  shows "v s' = v s"
  using assms(2) by (induction "is" arbitrary: s) (auto dest: assms(1))

lemma count_up_keeps:
  assumes "\<And>i s s'. f i s = Inr s' \<Longrightarrow> v s' = v s" "count_up n f i s = Inr s'"
  shows "v s' = v s"
  using assms
proof (induction n f i s rule: count_up.induct)
  case (1 n f i s)
  show ?case
  proof (cases "int i < n s \<and> i < 2 ^ 31")
    case True
    then obtain s1 where "f i s = Inr s1" "count_up n f (Suc i) s1 = Inr s'"
      using 1(3) by (subst (asm) count_up.simps) auto
    then show ?thesis using 1 True by metis
  next
    case False
    then show ?thesis using 1(3) by (subst (asm) count_up.simps) auto
  qed
qed

lemma add_request_env: "add_request M b n d k s = Inr s' \<Longrightarrow> env (world s') = env (world s)"
  by (drule add_request_world) simp

lemma waits_env:
  assumes "quiet_env M"
  shows "for_each is (\<lambda>i. complete_request M (read_in_file M) (k i) (h i)) s = Inr s' \<Longrightarrow> env (world s') = env (world s)"
    "count_up n (\<lambda>i. complete_request M (read_in_file M) (k i) (h i)) i s = Inr s' \<Longrightarrow> env (world s') = env (world s)"
  by (erule for_each_keeps [rotated] count_up_keeps [rotated], erule complete_request_env [OF assms])+

lemma put_int_env [simp]: "env (world (put_int M p i s)) = env (world s)"
  by (simp add: put_int_def)

lemma replay_call_env:
  assumes quiet: "quiet_env M" and c: "replay_call M c r = Inr (ret, r1)" and ok: "args_ok M' G Q F m c s" "same_names rank (Call c)"
  shows "env (world r1) = env (world r)"
  using c ok
  by (cases c) (auto simp: R_MPI_Irecv_def R_MPI_Recv_def R_MPI_Wait_def R_MPI_Waitall_def R_MPI_Bcast_def R_MPI_Alltoall_def
      R_MPI_Alltoallv_def R_MPI_Allreduce_def R_MPI_Reduce_def R_MPI_Send_def R_MPI_Isend_def R_MPI_Start_def R_MPI_Barrier_def
      R_MPI_Comm_rank_def R_MPI_Comm_size_def split: if_splits
      dest!: read_in_file_env [OF quiet] complete_request_env [OF quiet] waits_env [OF quiet] add_request_env)

lemma replay_f_env:
  assumes quiet: "quiet_env M" and f: "replay_f M f r = Inr r1" and ok: "f_args_ok M' F m f s" "same_names rank (Call_f f)"
  shows "env (world r1) = env (world r)"
  using f ok
  by (cases f) (auto simp: r_mpi_irecv_f_def r_mpi_recv_f_def r_mpi_wait_f_def r_mpi_waitall_f_def r_mpi_bcast_f_def
      r_mpi_alltoall_f_def r_mpi_allreduce_f_def r_mpi_send_f_def r_mpi_isend_f_def r_mpi_start_f_def r_mpi_barrier_f_def
      r_mpi_comm_rank_f_def r_mpi_comm_size_f_def r_set_ierror_def store_ierror_def R_MPI_Recv_def R_MPI_Bcast_def
      R_MPI_Alltoall_def R_MPI_Allreduce_def Let_def split: if_splits
      dest!: read_in_file_env [OF quiet] complete_request_env [OF quiet] waits_env [OF quiet] add_request_env)

lemma replay_event_env:
  assumes quiet: "quiet_env M'" and r1: "replay_event M' e r = Inr r1" and step: "captured_step M G Q F e (s, m) (s1, m1)"
    and e: "same_names (MPIre_rank s) e"
  shows "env (world r1) = env (world r)"
  using step
proof (cases rule: captured_step_cases)
  case (call c ret)
  then obtain ret' where "replay_call M' c r = Inr (ret', r1)" using r1 by (auto simp del: replay_call.simps)
  then show ?thesis using replay_call_env [OF quiet] call(1,3) e by (auto simp: call_ok_def)
next
  case (call_f f)
  then have "replay_f M' f r = Inr r1" using r1 by (simp del: replay_f.simps)
  then show ?thesis using replay_f_env [OF quiet _ f_call_okD(1) [OF call_f(3)]] call_f(1) e by auto
qed (use r1 in auto)

section \<open>The two files\<close>

lemma step_rank:
  assumes "capture_laws hb G M" "captured_step M G Q F e (s, m) (s1, m1)" "recording hb G M F s m"
  shows "MPIre_rank s1 = MPIre_rank s"
proof (cases "(\<exists>c. e = Call c) \<or> (\<exists>f. e = Call_f f)")
  case True
  then show ?thesis using call_in_step [OF assms] by (auto simp: keeps_def)
next
  case False
  from assms(2) show ?thesis by (cases rule: captured_step_cases) (use False in auto)
qed

text \<open>The functions a step of the capture has to list.\<close>

definition listed :: "'w mpi \<Rightarrow> event \<Rightarrow> 'w capture \<times> (ptr \<rightharpoonup> request_t) \<Rightarrow> 'w capture \<times> (ptr \<rightharpoonup> request_t) \<Rightarrow> string list" where
  "listed M e p p1 = (case event_name M (mem (world (fst p))) (MPIre_rank (fst p)) (snd p) e of None \<Rightarrow> [] | Some x \<Rightarrow> [x])"

text \<open>The captured steps, with the stream of the capture; streams that list the same functions.\<close>

definition traced_step :: "'w mpi \<Rightarrow> 'w ghost \<Rightarrow> ptr set \<Rightarrow> ptr set \<Rightarrow> event \<Rightarrow>
    (stream \<times> 'w capture) \<times> (ptr \<rightharpoonup> request_t) \<Rightarrow> (stream \<times> 'w capture) \<times> (ptr \<rightharpoonup> request_t) \<Rightarrow> bool" where
  "traced_step M G Q F e = (\<lambda>((fd, s), m) ((fd1, s1), m1).
     captured_step M G Q F e (s, m) (s1, m1) \<and> same_names (MPIre_rank s) e \<and> debug_capture M e (fd, s) = Inr (fd1, s1))"

definition same_functions :: "string \<Rightarrow> string \<Rightarrow> stream \<Rightarrow> stream \<Rightarrow> bool" where
  "same_functions p p' fd fd' \<longleftrightarrow> (\<exists>ls ls'. fd = Stream p ls \<and> fd' = Stream p' ls' \<and> map fst ls = map fst ls')"

lemma names_of_line: "map fst (line name d) = (case name of None \<Rightarrow> [] | Some x \<Rightarrow> [x])"
  by (cases name) (simp_all add: line_def)

lemma traced_simulates:
  assumes laws: "capture_laws hb G M" and s: "recording hb G M F s m" and step: "traced_step M G Q F e ((fd, s), m) ((fd1, s1), m1)"
    and M': "compatible hb' Q G' M' M" "quiet_env M'" and r: "in_step hb' M Q m s r" "env (world r) ''MPIRE_ACTIVE_DUMP'' \<noteq> None"
    and fd: "same_functions p p' fd fd'" and log: "has_log r s s1"
  shows "\<exists>fd1' r1. debug_replay M' e (fd', r) = Inr (fd1', r1) \<and> in_step hb' M Q m1 s1 r1 \<and> files (world r1) = files (world r) \<and>
    env (world r1) ''MPIRE_ACTIVE_DUMP'' \<noteq> None \<and> same_functions p p' fd1 fd1'"
proof -
  have cap: "captured_step M G Q F e (s, m) (s1, m1)" and e: "same_names (MPIre_rank s) e"
    and fd1: "debug_capture M e (fd, s) = Inr (fd1, s1)"
    using step by (simp_all add: traced_step_def)
  obtain ls ls' where ls: "fd = Stream p ls" "fd' = Stream p' ls'" "map fst ls = map fst ls'"
    using fd by (auto simp: same_functions_def)
  obtain r1 where r1: "replay_event M' e r = Inr r1" "in_step hb' M Q m1 s1 r1" "files (world r1) = files (world r)"
    using step_simulates [OF laws cap s M'(1) r(1) log] by blast
  obtain d' where d': "env (world r) ''MPIRE_ACTIVE_DUMP'' = Some d'" using r(2) by blast
  let ?name = "event_name M (mem (world s)) (MPIre_rank s) m e"
  obtain d where "fd1 = Stream p (ls @ line ?name d)"
    using debug_capture_step [OF cap s e, of p ls] fd1 ls(1) by auto
  moreover have "debug_replay M' e (fd', r) = Inr (Stream p' (ls' @ line ?name d'), r1)"
    using debug_replay_step [OF cap e r(1) compatibleD(4) [OF M'(1)] d' r1(1)] ls(2) by simp
  ultimately show ?thesis
    using r1(2,3) replay_event_env [OF M'(2) r1(1) cap e] d' ls(3)
    by (auto simp: same_functions_def names_of_line)
qed

interpretation debug: lockstep
  "traced_step M G Q F" "debug_replay M'" "\<lambda>((fd, s), m). capture_laws hb G M \<and> recording hb G M F s m"
  "\<lambda>((fd, s), m) (fd', r). compatible hb' Q G' M' M \<and> quiet_env M' \<and> in_step hb' M Q m s r \<and>
     env (world r) ''MPIRE_ACTIVE_DUMP'' \<noteq> None \<and> same_functions p p' fd fd'"
  "\<lambda>((fd, s), m) ((fd', s'), m'). log_grows s s'" "\<lambda>(fd', r) ((fd, s), m) ((fd1, s'), m'). has_log r s s'"
  for M G Q F and M' :: "'v mpi" and hb hb' G' p p'
proof (unfold_locales, goal_cases)
  case (1 s e s1)
  then show ?case
    using step_keeps [of hb G M Q F e "snd (fst s)" "snd s" "snd (fst s1)" "snd s1"] by (auto simp: traced_step_def)
next
  case (2 s e s1)
  then show ?case
    using step_keeps [of hb G M Q F e "snd (fst s)" "snd s" "snd (fst s1)" "snd s1"] by (auto simp: traced_step_def)
next
  case (3 s)
  then show ?case by (auto simp: log_grows_refl)
next
  case (4 s s1 s')
  then show ?case using log_grows_trans by (auto split: prod.splits)
next
  case (5 s s1 s' r)
  then show ?case using has_log_before by (auto split: prod.splits)
next
  case (6 s e s1 r)
  obtain fd s0 m0 fd1 s2 m2 fd' r0 where s: "s = ((fd, s0), m0)" "s1 = ((fd1, s2), m2)" "r = (fd', r0)"
    by (metis surj_pair)
  obtain fd1' r1 where "debug_replay M' e (fd', r0) = Inr (fd1', r1)" "in_step hb' M Q m2 s2 r1" "files (world r1) = files (world r0)"
    "env (world r1) ''MPIRE_ACTIVE_DUMP'' \<noteq> None" "same_functions p p' fd1 fd1'"
    using traced_simulates [where hb = hb and hb' = hb' and p = p and p' = p' and r = r0] 6 unfolding s prod.case by metis
  moreover have "log_grows s0 s2"
    using step_keeps [of hb G M Q F e s0 m0 s2 m2] 6 by (simp add: s traced_step_def)
  ultimately show ?case using 6 has_log_after [where r = r0 and ?r1.0 = r1] by (auto simp: s)
qed

text \<open>A captured run is a run of the capture with the stream, which lists what it has to.\<close>

lemma captured_traced:
  assumes "outputs (captured_step M G Q F) (listed M) x es x' names" "capture_laws hb G M" "recording hb G M F (fst x) (snd x)"
    "\<forall>e \<in> set es. same_names (MPIre_rank (fst x)) e"
  shows "\<exists>ls'. run (traced_step M G Q F) ((Stream p ls, fst x), snd x) es ((Stream p ls', fst x'), snd x') \<and>
    map fst ls' = map fst ls @ names"
  using assms(1,3,4)
proof (induction arbitrary: ls rule: outputs.induct)
  case (emit e x x1 es x' names)
  have step: "captured_step M G Q F e (fst x, snd x) (fst x1, snd x1)" using emit.hyps(1) by simp
  have rank: "MPIre_rank (fst x1) = MPIre_rank (fst x)" using step_rank [OF assms(2) step emit.prems(1)] .
  have rec: "recording hb G M F (fst x1) (snd x1)" using step_keeps [OF assms(2) step emit.prems(1)] by blast
  have e: "same_names (MPIre_rank (fst x)) e" using emit.prems(2) by simp
  obtain d where "debug_capture M e (Stream p ls, fst x) =
      Inr (Stream p (ls @ line (event_name M (mem (world (fst x))) (MPIre_rank (fst x)) (snd x) e) d), fst x1)"
    using debug_capture_step [OF step emit.prems(1) e] by blast
  then obtain l where l: "traced_step M G Q F e ((Stream p ls, fst x), snd x) ((Stream p l, fst x1), snd x1)"
    "map fst l = map fst ls @ listed M e x x1"
    using step e by (simp add: traced_step_def listed_def names_of_line)
  obtain ls' where ls': "run (traced_step M G Q F) ((Stream p l, fst x1), snd x1) es ((Stream p ls', fst x'), snd x')"
    "map fst ls' = map fst l @ names"
    using emit.IH [OF rec, of l] emit.prems(2) rank by auto
  have "run (traced_step M G Q F) ((Stream p ls, fst x), snd x) (e # es) ((Stream p ls', fst x'), snd x')"
    using l(1) ls'(1) by (rule run.more)
  then show ?case using l(2) ls'(2) by (intro exI [of _ ls']) simp
qed (auto intro: run.stop)

lemma traced_exec: "run (traced_step M G Q F) x es x' \<Longrightarrow> exec_all (debug_capture M) es (fst x) = Inr (fst x')"
  by (induction rule: run.induct) (auto simp: traced_step_def)

text \<open>At the end MPI_Finalize prints its name, too, and writes the lines of the stream to its file.\<close>

fun final_name :: "event \<Rightarrow> string option" where
  "final_name (Call Finalize) = Some ''MPI_Finalize''"
| "final_name (Call_f (F_Finalize ierror)) = Some ''mpi_finalize_''"
| "final_name e = None"

lemma final_cases [consumes 1]:
  assumes "final_name e = Some name"
  obtains "e = Call Finalize" "name = ''MPI_Finalize''" | ierror where "e = Call_f (F_Finalize ierror)" "name = ''mpi_finalize_''"
  using assms by (cases e rule: final_name.cases) auto

lemma put_int_files [simp]: "files (world (put_int M p i s)) = files (world s)"
  by (simp add: put_int_def)

lemma pmpi_finalize_files:
  "\<forall>w. files (snd (PMPI M Finalize w)) = files w \<Longrightarrow> pmpi M Finalize s = (ret, s1) \<Longrightarrow> files (world s1) = files (world s)"
  by (auto simp: pmpi_def split: prod.splits dest: spec [of _ "world s"])

lemma debug_capture_finalize:
  assumes s: "recording hb G M F s m" and fin: "final_name fin = Some name" and quiet: "\<forall>w. files (snd (PMPI M Finalize w)) = files w"
  shows "\<exists>d S. debug_capture M fin (Stream p ls, s) = Inr (Closed_stream, S) \<and>
    files (world S) = (files (world s))(resolve p \<mapsto> text_bytes (comm_text (ls @ [(name, d)])))"
proof -
  obtain d where d: "env (world s) ''MPIRE_ACTIVE_DUMP'' = Some d"
    using s by (auto simp: recording_def logging_def dump_on_def)
  have print: "print_if_captured M x (Stream p ls, s) = Inr (Stream p (ls @ [(x, d)]), s)" for x
    using recording_rank [OF s] printed [OF d, of "Some x" p ls] by (simp add: print_if_captured_def line_def)
  let ?s = "s\<lparr>world := (world s)\<lparr>files := (files (world s))(resolve p \<mapsto> text_bytes (comm_text (ls @ [(name, d)])))\<rparr>\<rparr>"
  obtain ret s1 where s1: "pmpi M Finalize ?s = (ret, s1)" by (cases "pmpi M Finalize ?s")
  then have "files (world s1) = files (world ?s)" by (rule pmpi_finalize_files [OF quiet])
  note files = this
  from fin show ?thesis using s1 files
    by (cases rule: final_cases)
      (auto simp: debug_MPI_Finalize_def debug_mpi_finalize_f_def print close_comm_def MPI_Finalize_def mpi_finalize_f_def Let_def
        intro!: exI [of _ d])
qed

lemma debug_replay_finalize:
  assumes env: "env (world r) ''MPIRE_ACTIVE_DUMP'' \<noteq> None" and fin: "final_name fin = Some name"
    and quiet: "\<forall>w. files (snd (PMPI M' Finalize w)) = files w"
  shows "\<exists>d R. debug_replay M' fin (Stream p ls, r) = Inr (Closed_stream, R) \<and>
    files (world R) = (files (world r))(resolve p \<mapsto> text_bytes (comm_text (ls @ [(name, d)])))"
proof -
  obtain d where d: "env (world r) ''MPIRE_ACTIVE_DUMP'' = Some d" using env by blast
  let ?r = "r\<lparr>world := (world r)\<lparr>files := (files (world r))(resolve p \<mapsto> text_bytes (comm_text (ls @ [(name, d)])))\<rparr>\<rparr>"
  have close: "debug_R_finalize name (Stream p ls, r) = Inr (Closed_stream, ?r)"
    using d by (simp add: debug_R_finalize_def print_calling_function_special_def close_comm_def)
  obtain ret r1 where r1: "pmpi M' Finalize ?r = (ret, r1)" by (cases "pmpi M' Finalize ?r")
  then have "files (world r1) = files (world ?r)" by (rule pmpi_finalize_files [OF quiet])
  note files = this
  from fin show ?thesis using r1 files close
    by (cases rule: final_cases) (auto simp: R_MPI_Finalize_def r_mpi_finalize_f_def Let_def intro!: exI [of _ d])
qed

lemma compatible_finalize: "compatible hb Q G' M' M \<Longrightarrow> files (snd (PMPI M' Finalize w)) = files w"
proof -
  assume "compatible hb Q G' M' M"
  then obtain l where "PMPI M' Finalize w = (MPI_SUCCESS, w\<lparr>lib := l\<rparr>)" unfolding compatible_def by blast
  then show ?thesis by simp
qed

text \<open>C36. With DEBUG on, a captured run that ends with MPI_Finalize leaves a file that lists its calls, and
  the replay leaves a file that lists the same. In detail: let \<open>es\<close> be a captured run without
  MPI_Finalize, in which MPI_Reduce is called in C by its root only, both processes in step with open
  streams that list the same functions so far, and the log files of the run be there for the replay. Both libraries take the course they take
  without DEBUG; the stream of each continues with the names of exactly the calls that take part in
  the log, in order: \<open>event_name\<close> says which these are, in C and in Fortran. The MPI_Finalize after
  the run prints its own name, and puts all the lines into the file, where MPI's own MPI_Finalize
  leaves files alone, the files of MPI leave the environment alone, and MPIRE_ACTIVE_DUMP is set in
  the replay.\<close>

theorem traces_agree:
  assumes laws: "capture_laws hb G M" and s: "recording hb G M F s m" and run: "captured M G Q F s m es s' m'"
    and M': "compatible hb' Q G' M' M" "quiet_env M'" and r: "in_step hb' M Q m s r" "has_log r s s'"
    and env: "env (world r) ''MPIRE_ACTIVE_DUMP'' \<noteq> None" and es: "\<forall>e \<in> set es. same_names (MPIre_rank s) e"
    and ls: "map fst ls = map fst ls'"
    and fin: "final_name fin = Some name" "\<forall>w. files (snd (PMPI M Finalize w)) = files w"
  shows "\<exists>names ls1 ls1' d d' r' S R. outputs (captured_step M G Q F) (listed M) (s, m) es (s', m') names \<and>
    exec_all (debug_capture M) es (Stream p ls, s) = Inr (Stream p ls1, s') \<and> map fst ls1 = map fst ls @ names \<and>
    exec_all (debug_replay M') es (Stream p' ls', r) = Inr (Stream p' ls1', r') \<and> map fst ls1' = map fst ls' @ names \<and>
    in_step hb' M Q m' s' r' \<and>
    debug_capture M fin (Stream p ls1, s') = Inr (Closed_stream, S) \<and>
    files (world S) = (files (world s'))(resolve p \<mapsto> text_bytes (comm_text (ls1 @ [(name, d)]))) \<and>
    debug_replay M' fin (Stream p' ls1', r') = Inr (Closed_stream, R) \<and>
    files (world R) = (files (world r'))(resolve p' \<mapsto> text_bytes (comm_text (ls1' @ [(name, d')])))"
proof -
  obtain names where names: "outputs (captured_step M G Q F) (listed M) (s, m) es (s', m') names"
    using run_outputs [OF run [unfolded captured_def], of "listed M"] by blast
  obtain ls1 where run': "run (traced_step M G Q F) ((Stream p ls, s), m) es ((Stream p ls1, s'), m')"
    and ls1: "map fst ls1 = map fst ls @ names"
    using captured_traced [OF names laws, of p ls] s es by auto
  have start: "same_functions p p' (Stream p ls) (Stream p' ls')" using ls by (simp add: same_functions_def)
  obtain fd' r' where r': "exec_all (debug_replay M') es (Stream p' ls', r) = Inr (fd', r')"
    "same_functions p p' (Stream p ls1) fd'" "in_step hb' M Q m' s' r'" "env (world r') ''MPIRE_ACTIVE_DUMP'' \<noteq> None"
    using debug.run_simulates [OF run', where M' = M' and hb = hb and hb' = hb' and G' = G' and p = p and p' = p' and r = "(Stream p' ls', r)"]
      laws s M' r env start by auto
  obtain ls1' where ls1': "fd' = Stream p' ls1'" "map fst ls1 = map fst ls1'" using r'(2) by (auto simp: same_functions_def)
  have "recording hb G M F s' m'" using captured_keeps(1) [OF run laws s] .
  from debug_capture_finalize [OF this fin, of p ls1] debug_replay_finalize [OF r'(4) fin(1), of M' p' ls1'] compatible_finalize [OF M'(1)]
  show ?thesis using names traced_exec [OF run'] ls1 r' ls1' ls by (auto 0 4)
qed

lemma toy_quiet_env: "quiet_env toy_mpi"
  by (auto simp: quiet_env_def toy_mpi_def toy_open_def toy_read_def Let_def split: access_mode.splits option.splits)

theorem traces_agree_witness:
  "\<exists>s' names ls1 ls1' d d' r' S R. captured toy_mpi toy_ghost toy_controls toy_fortran toy_logging Map.empty toy_program s' Map.empty \<and>
     exec_all (debug_capture toy_mpi) toy_program (Stream ''log/capture_comm'' [(''MPI_Init'', ''1'')], toy_logging) =
       Inr (Stream ''log/capture_comm'' ls1, s') \<and>
     exec_all (debug_replay toy_mpi) toy_program (Stream ''log/replay_comm'' [(''MPI_Init'', ''1'')],
       toy_replaying\<lparr>world := (world toy_replaying)\<lparr>files := files (world s'), env := [''MPIRE_ACTIVE_DUMP'' \<mapsto> ''1'']\<rparr>\<rparr>) =
       Inr (Stream ''log/replay_comm'' ls1', r') \<and>
     map fst ls1 = ''MPI_Init'' # names \<and> map fst ls1' = ''MPI_Init'' # names \<and>
     debug_capture toy_mpi (Call Finalize) (Stream ''log/capture_comm'' ls1, s') = Inr (Closed_stream, S) \<and>
     files (world S) = (files (world s'))(resolve ''log/capture_comm'' \<mapsto> text_bytes (comm_text (ls1 @ [(''MPI_Finalize'', d)]))) \<and>
     debug_replay toy_mpi (Call Finalize) (Stream ''log/replay_comm'' ls1', r') = Inr (Closed_stream, R) \<and>
     files (world R) = (files (world r'))(resolve ''log/replay_comm'' \<mapsto> text_bytes (comm_text (ls1' @ [(''MPI_Finalize'', d')])))"
proof -
  obtain s' where run: "captured toy_mpi toy_ghost toy_controls toy_fortran toy_logging Map.empty toy_program s' Map.empty"
    using toy_logging_run by blast
  let ?r = "toy_replaying\<lparr>world := (world toy_replaying)\<lparr>files := files (world s'), env := [''MPIRE_ACTIVE_DUMP'' \<mapsto> ''1'']\<rparr>\<rparr>"
  have "pending 40 (big_endian toy_mpi) ?r Map.empty"
    by (rule pending_start) (simp_all add: toy_replaying_def)
  then have step: "in_step 40 toy_mpi toy_controls Map.empty toy_logging ?r"
    by (simp add: in_step_def toy_replaying_def toy_logging_def toy_start_def agree_def size_of_comm_def)
  have log: "has_log ?r toy_logging s'" by (simp add: has_log_def)
  have env: "env (world ?r) ''MPIRE_ACTIVE_DUMP'' \<noteq> None" by simp
  have es: "\<forall>e \<in> set toy_program. same_names (MPIre_rank toy_logging) e"
    by (simp add: toy_program_def toy_irecv_def toy_irecv_f_def toy_wait_def toy_waitall_f_def)
  have quiet: "\<forall>w. files (snd (PMPI toy_mpi Finalize w)) = files w" by (simp add: toy_mpi_def)
  note agree = traces_agree [where ls = "[(''MPI_Init'', ''1'')]" and ls' = "[(''MPI_Init'', ''1'')]"
      and p = "''log/capture_comm''" and p' = "''log/replay_comm''",
      OF toy_laws toy_recording run toy_compatible toy_quiet_env step log env es refl final_name.simps(1) quiet]
  from agree run show ?thesis
    unfolding list.map append.simps fst_conv by (elim exE conjE, intro exI conjI) assumption+
qed

section \<open>Where they differ\<close>

text \<open>A call of MPI_Reduce is listed by the replay in every process, by the capture in the root only.\<close>

theorem reduce_listed_by_replay:
  assumes "MPIre_rank s \<noteq> root"
  shows "capture_prints M (Reduce sb rb n d op root comm) s = None \<and>
    replay_prints M' (Reduce sb rb n d op root comm) r = Some ''MPI_Reduce''"
  using assms by (simp add: only_if_def)

text \<open>Without a stream nothing is printed, and MPI_Finalize does not return.\<close>

lemma print_no_stream: "print_calling_function name s No_stream = Inr fd \<Longrightarrow> fd = No_stream"
  by (cases name) (auto simp: print_calling_function_special_def or_undefined_def split: option.splits)

lemma finalize_no_stream:
  "\<exists>e. debug_MPI_Finalize M (No_stream, s) = Inl e" "\<exists>e. debug_mpi_finalize_f M ierror (No_stream, s) = Inl e"
proof -
  have "\<exists>e. and_then (print_if_captured M name (No_stream, s)) (\<lambda>s. and_then (close_comm s) f) = Inl e" for name f
  proof (cases "print_if_captured M name (No_stream, s)")
    case (Inr x)
    then have "fst x = No_stream" by (auto simp: print_if_captured_def dest: print_no_stream)
    then show ?thesis using Inr by (cases x) (simp add: close_comm_def)
  qed simp
  then show "\<exists>e. debug_MPI_Finalize M (No_stream, s) = Inl e" "\<exists>e. debug_mpi_finalize_f M ierror (No_stream, s) = Inl e"
    by (simp_all add: debug_MPI_Finalize_def debug_mpi_finalize_f_def)
qed

lemma open_comm_rank: "open_comm p s = (fd, s1) \<Longrightarrow> rank_of M comm s1 = rank_of M comm s \<and> MPIre_rank s1 = MPIre_rank s"
  by (auto simp: open_comm_def write_text_def rank_of_def split: if_splits)

fun starts_mpi :: "event \<Rightarrow> bool" where
  "starts_mpi (Call (Init argc argv)) \<longleftrightarrow> True"
| "starts_mpi (Call_f (F_Init ierror)) \<longleftrightarrow> True"
| "starts_mpi e \<longleftrightarrow> False"

lemma no_stream_step:
  assumes "debug_capture M e (No_stream, s) = Inr (fd, s1)" "\<not> starts_mpi e"
  shows "fd = No_stream"
proof (cases e)
  case (Call c)
  then show ?thesis
    using assms finalize_no_stream(1) [of M s] by (cases c) (auto dest: print_no_stream simp del: capture_call.simps)
next
  case (Call_f f)
  then show ?thesis
    using assms finalize_no_stream(2) [of M "ierror_of f" s] by (cases f) (auto dest: print_no_stream simp del: capture_f.simps)
qed (use assms in auto)

text \<open>C37. With DEBUG on, a process that is not captured does not get through MPI_Finalize: only in the
  captured one MPI_Init opens the stream, the others print nothing, but all of them close it.\<close>

theorem debug_uncaptured_crashes:
  assumes init: "debug_MPI_Init M argc argv (No_stream, s) = Inr (ret, (fd, s1))"
    and rank: "rank_of M (COMM_WORLD M) s1 \<noteq> MPIre_rank s1" and es: "\<forall>e \<in> set es. \<not> starts_mpi e"
  shows "\<exists>stop. exec_all (debug_capture M) (es @ [Call Finalize]) (fd, s1) = Inl stop"
proof -
  have "fd = No_stream"
    using init rank by (auto simp: debug_MPI_Init_def debug_init_MPIre_def print_if_captured_def
        Let_def split: prod.splits if_splits dest: open_comm_rank [of _ _ _ _ M "COMM_WORLD M"])
  moreover have "\<exists>stop. exec_all (debug_capture M) (es @ [Call Finalize]) (No_stream, s) = Inl stop" for s
    using es
  proof (induction es arbitrary: s)
    case Nil
    then show ?case using finalize_no_stream(1) [of M s] by auto
  next
    case (Cons e es)
    show ?case
    proof (cases "debug_capture M e (No_stream, s)")
      case (Inr x)
      then have "fst x = No_stream" using Cons.prems no_stream_step [of M e s "fst x" "snd x"] by simp
      then show ?thesis using Inr Cons.IH [of "snd x"] Cons.prems by (cases x) simp
    qed simp
  qed
  ultimately show ?thesis by simp
qed

definition toy_uncaptured :: "toy capture" where
  "toy_uncaptured = toy_start\<lparr>world := (world toy_start)\<lparr>env := [''MPIRE_RANK'' \<mapsto> ''1'']\<rparr>\<rparr>"

theorem debug_uncaptured_crashes_witness:
  "\<exists>s1 stop. debug_MPI_Init toy_mpi 0 0 (No_stream, toy_uncaptured) = Inr (MPI_SUCCESS, (No_stream, s1)) \<and>
     exec_all (debug_capture toy_mpi) ([Call (Recv 64 3 9 1 5 1 12288)] @ [Call Finalize]) (No_stream, s1) = Inl stop"
proof -
  have one: "atoi ''1'' = Inr 1" by code_simp
  obtain s0 where s0: "pmpi toy_mpi (Init 0 0) toy_uncaptured = (MPI_SUCCESS, s0)" "env (world s0) = [''MPIRE_RANK'' \<mapsto> ''1'']"
    by (simp add: pmpi_def toy_mpi_def toy_uncaptured_def toy_start_def)
  have "init_MPIre toy_mpi s0 = Inr (s0\<lparr>MPIre_rank := 1\<rparr>)" using s0(2) one by (simp add: init_MPIre_def rank_of_def)
  then obtain s1 where s1: "debug_MPI_Init toy_mpi 0 0 (No_stream, toy_uncaptured) = Inr (MPI_SUCCESS, (No_stream, s1))"
    "MPIre_rank s1 = 1"
    using s0(1) by (simp add: debug_MPI_Init_def debug_init_MPIre_def print_if_captured_def rank_of_def)
  have "rank_of toy_mpi (COMM_WORLD toy_mpi) s1 \<noteq> MPIre_rank s1" using s1(2) by (simp add: rank_of_def)
  from debug_uncaptured_crashes [OF s1(1) this, of "[Call (Recv 64 3 9 1 5 1 12288)]"] s1(1) show ?thesis by auto
qed

end
