(* ===== verification/Spec2Isabelle.thy ===== *)
theory Spec2Isabelle
  imports Capture_Limits Htable_Type Hash_Self_Test Debug_Trace
begin

text \<open>
  MPIre captures one process of an MPI program and replays it alone. The capture library
  (src/src/mpire/mpire_capture.c) is loaded in front of the MPI library: its functions call the
  MPI function of the same name and, in the process whose rank is MPIRE_RANK, write the data that
  was received to the next file of a log. The replay library (src/src/mpire/mpire_replay.c) takes
  the place of the MPI library: its functions read the data back and return. Both keep the
  receives that were started and not waited for in a hash table (src/src/mpire/mpire.h), which is
  the table of src/src/ccan/ccan/htable with the hash functions of src/src/ccan/ccan/hash.

  Theories:

  \<^item> \<open>Prelude\<close>: words, lists, options and the result type \<open>stop + 'a\<close>; \<open>stop\<close> is a call of exit
  (\<open>Exit_failure\<close>), an abort (\<open>Aborted\<close>), or a step the C standard gives no result
  (\<open>Undefined\<close>): NULL dereferenced, an int that overflows, an index out of an array.
  \<^item> \<open>Lookup3\<close>: hash.c and the inline functions of hash.h, on bytes, half words and words of memory,
  for both byte orders. Proved: the optimised loops are equal to the reference definition of
  lookup3, the mixing steps are bijections, and which of the stable hashes agree.
  \<^item> \<open>Hash_Memory\<close>: the macros of hash.h on arrays in memory, with the assertion of build_assert.h, and
  what they hash on machines of both byte orders.
  \<^item> \<open>Hash_Self_Test\<close>: the test drivers of hash.c under SELF_TEST, which print a list of messages. The
  interface of lookup3 they call, \<open>lookup3_api\<close>, is older than the functions of hash.c and is a
  parameter; \<open>hash_c\<close> fits the repository's functions into it. Proved: what the verdict of
  \<open>driver2\<close> says of a hash function, which hash functions \<open>driver3\<close> passes, and what it misses.
  \<^item> \<open>Htable\<close>: htable.c and htable.h, function by function, on a record with the fields of
  \<open>struct htable\<close>; a loop is a \<open>partial_function\<close>, None if it does not end or leaves the table.
  \<open>Ptr_Bag\<close> is the interface of a container of pointers with a hash, \<open>Htable_Inv\<close> the invariant
  of the table, its proof for every operation, and the interpretation of the interface.
  \<^item> \<open>Htable_Type\<close>: the functions HTABLE_DEFINE_TYPE generates (htable_type.h). Proved: a typed table is a
  map from keys to entries.
  \<^item> \<open>Request_Table\<close>: the functions of mpire.h on a heap of \<open>request_t\<close>. \<open>pending hb be s m\<close> says that
  the table holds the map \<open>m\<close> from addresses of requests to pending receives.
  \<^item> \<open>C_Library\<close>: the functions of the C library that are called, and a file system.
  \<^item> \<open>Mpi_World\<close>: the process, and the MPI library as a record of functions, with the laws that are
  assumed of it. \<open>complete_request\<close>, the end of a receive in both libraries, and the locale
  \<open>log_transfer\<close> of what it needs of the function that transfers the buffer.
  \<^item> \<open>Capture\<close> and \<open>Replay\<close>: the two libraries, C and Fortran functions. A Fortran function has the
  suffix \<open>_f\<close> for its underscore; a function of the replay has the prefix \<open>R_\<close> or \<open>r_\<close> where the
  capture has one of that name.
  \<^item> \<open>Toy_Mpi\<close>: a small MPI library, with a proof that it has the properties that are assumed of one.
  \<^item> \<open>Capture_Log\<close> and \<open>Replay_Log\<close>: the log files and MPI_Init, with the interpretations of
  \<open>log_transfer\<close>.
  \<^item> \<open>Calls\<close>: the interfaces as a whole, \<open>capture_call\<close>, \<open>replay_call\<close> for C and \<open>capture_f\<close>, \<open>replay_f\<close> for
  Fortran. \<open>Completion\<close>: the loops that complete receives in order, and what they log or read.
  \<^item> \<open>Promises\<close> and \<open>Fortran_Promises\<close>: the abstract specification of a call of C and of Fortran: the
  buffers it receives (\<open>received\<close>), the receives pending after it (\<open>pending_after\<close>), its other
  results (\<open>answers\<close>), and the conditions under which a log can stand for it (\<open>call_ok\<close>,
  \<open>f_call_ok\<close>). \<open>Call_Specs\<close>, \<open>Fortran_Capture\<close> and \<open>Fortran_Replay\<close> prove that both libraries
  implement it.
  \<^item> \<open>Lockstep\<close>: the locale of two programs in lockstep, one of which writes the log the other one
  reads, and what a run puts out (\<open>outputs\<close>). \<open>Simulation\<close>: runs of whole programs (\<open>captured\<close>,
  \<open>replay_events\<close>), the contents of the buffers a run receives (\<open>received_in\<close>), which are those of the
  log files it writes, and the interpretation of the locale on the two libraries. \<open>Toy_Program\<close>: a program for the witnesses.
  \<^item> \<open>Record_Replay\<close>: the properties of the two libraries together.
  \<^item> \<open>Capture_Limits\<close>: processes that are not captured, and where the code does not do what it is
  meant to.
  \<^item> \<open>Debug_Trace\<close>: both libraries with the switch DEBUG on, whose state is a pair of the stream
  \<open>comm_fd\<close> and the state without it. Proved, by a second interpretation of the locale of
  \<open>Lockstep\<close>: the files capture_comm and replay_comm that MPI_Finalize leaves list the same
  functions, exactly those \<open>event_name\<close> says; and where they differ or are not written.
  \<^item> This theory: from MPI_Init of the capture to the end of the replay.

  Assumptions. MPI is not part of the repository. What is relied on are predicates of the record
  \<open>mpi\<close>: \<open>file_laws\<close> (MPI_File_open creates or finds a file, writing replaces its beginning by the
  cells of the buffer, reading fills them, in the native representation), \<open>mpi_laws\<close> (a call that
  is \<open>valid\<close> returns MPI_SUCCESS and changes only the buffers it receives into, the variables of
  its requests and statuses, and the buffers of started receives; a started receive has a handle
  of its own until it is waited for), \<open>fortran_laws\<close> (conversions of requests and statuses write
  the variable they convert to, and the handle of an active request survives them), \<open>init_law\<close>
  below, in single theorems that MPI leaves alone what it has no business with (\<open>quiet_files\<close>: its
  files the memory, \<open>quiet_env\<close> and \<open>keeps_env\<close>: the environment), and \<open>good_allocator\<close> (malloc returns a new block in the part of the address space whose
  highest bit is \<open>hb\<close>; the table loses pointers of other parts, see \<open>htable_add_loses_pointer\<close>).
  \<open>Toy_Mpi\<close> meets all of them. The program between its calls is an arbitrary function of the
  memory that is not \<open>hidden\<close>: it does not look into the buffers of pending receives, nor into the
  variables \<open>Q\<close> of its requests and statuses, among which are the local variables \<open>c_request\<close> and
  \<open>c_status\<close> of the Fortran interface. \<open>F\<close> are the addresses of its requests that are integers of
  Fortran. \<open>call_ok\<close> says which calls a log can stand for: on communicators with the ranks and the
  size of MPI_COMM_WORLD, no C MPI_Waitall while a receive is pending, and of Fortran neither
  MPI_Alltoallv nor MPI_Reduce; the other cases are those of \<open>Capture_Limits\<close>.

  Bounds. Addresses and hashes are 64-bit words, lengths of arrays in hash.c too, the counters of
  the libraries ints that must not overflow. Loops that count up to an int read from memory end
  after \<open>2 ^ 31\<close> rounds. A table holds fewer than \<open>max_elems\<close> entries. There is no fuel.

  Not modelled: compiler.h (attributes without behaviour at run time), the functions of the replay that
  are commented out, messages on stderr, \<open>..\<close> and symbolic links in paths, and that blocks of
  requests are never freed, which no function observes.
\<close>

section \<open>From MPI_Init to the replay\<close>

text \<open>
  What the libraries rely on of MPI_Init: called for the first time, it succeeds and changes
  nothing but the state of the MPI library, in which no receive is posted afterwards.
\<close>

definition init_law :: "'w ghost \<Rightarrow> 'w mpi \<Rightarrow> bool" where
  "init_law G M \<longleftrightarrow> (\<forall>p q w. \<not> Initialized M (lib w) \<longrightarrow>
     (\<exists>l. PMPI M (Init p q) w = (MPI_SUCCESS, w\<lparr>lib := l\<rparr>) \<and> posted G l = Map.empty))"

text \<open>A program starts with MPI_Init of C or of Fortran.\<close>

definition starts_program :: "event \<Rightarrow> bool" where
  "starts_program e \<longleftrightarrow> (\<exists>argc argv. e = Call (Init argc argv)) \<or> (\<exists>ierror. e = Call_f (F_Init ierror))"

fun capture_start :: "'w mpi \<Rightarrow> event \<Rightarrow> 'w capture \<Rightarrow> stop + 'w capture" where
  "capture_start M (Call c) s = and_then (capture_call M c s) (\<lambda>(ret, s). Inr s)"
| "capture_start M (Call_f f) s = capture_f M f s"
| "capture_start M e s = Inr s"

fun start_call :: "event \<Rightarrow> mpi_call" where
  "start_call (Call c) = c"
| "start_call e = Init 0 NULL"

fun start_stores :: "bool \<Rightarrow> event \<Rightarrow> memory \<Rightarrow> memory" where
  "start_stores be (Call_f f) mm = store_int be (ierror_of f) MPI_SUCCESS mm"
| "start_stores be e mm = mm"

text \<open>
  The environment of a replay: MPI is not initialised yet, MPIRE_RANK and the path of the log are
  those of the capture, whose files are as the captured process left them.
\<close>

definition replay_setup :: "int \<Rightarrow> string \<Rightarrow> 'w capture \<Rightarrow> 'v mpi \<Rightarrow> 'v replay \<Rightarrow> bool" where
  "replay_setup rank d s' M' r \<longleftrightarrow> \<not> Initialized M' (lib (world r)) \<and>
     (\<exists>t. env (world r) ''MPIRE_RANK'' = Some t \<and> atoi t = Inr rank) \<and>
     input_path (r\<lparr>MPIre_rank := rank\<rparr>) = d \<and> files (world r) = files (world s') \<and>
     heap r = Map.empty \<and> cpt_read r = 0"

text \<open>The same for the process to be captured, before MPI_Init, with an output path that can be created.\<close>

definition capture_setup :: "'w mpi \<Rightarrow> int \<Rightarrow> string \<Rightarrow> event \<Rightarrow> 'w capture \<Rightarrow> bool" where
  "capture_setup M rank d e s \<longleftrightarrow> \<not> Initialized M (lib (world s)) \<and>
     to_capture M rank (snd (pmpi M (start_call e) s)) \<and>
     (\<forall>t. env (world s) ''MPIRE_ACTIVE_DUMP'' = Some t \<longrightarrow> dump_on s) \<and>
     output_path (s\<lparr>MPIre_rank := rank\<rparr>) = d @ ''/'' \<and> d \<noteq> [] \<and> denied (world s) = {} \<and>
     (\<forall>t n. d @ ''/'' = t @ CHR ''/'' # n \<longrightarrow> files (world s) (resolve t) = None) \<and>
     (\<forall>n. resolve d @ [n] \<notin> dirs (world s)) \<and> heap s = Map.empty \<and> cpt_write s = 0"

lemma log_path_not_nprocs: "log_path d k \<noteq> resolve d @ [''nprocs'']"
proof -
  have "scan_int (print_int k) \<noteq> None" using scan_print_int [of "[]" k] by simp
  moreover have "scan_int ''nprocs'' = None" by code_simp
  ultimately show ?thesis by (auto simp: log_path_def)
qed

text \<open>MPI_Init of the capture makes the process ready to record.\<close>

lemma capture_init:
  assumes init: "init_law G M" and e: "starts_program e" and s: "capture_setup M rank d e s"
  shows "\<exists>s1. capture_start M e s = Inr s1 \<and> recording hb G M F s1 Map.empty \<and>
    MPIre_rank s1 = rank \<and> MPIre_output_path s1 = d @ ''/'' \<and> heap s1 = Map.empty \<and> cpt_write s1 = 0 \<and>
    mem (world s1) = start_stores (big_endian M) e (mem (world s)) \<and> files (world s1) (resolve d @ [''nprocs'']) =
      Some (text_bytes (print_int (size_of_comm M (COMM_WORLD M) s1)))"
proof -
  let ?g = "start_stores (big_endian M) e"
  have "\<exists>p q. start_call e = Init p q" "\<not> Initialized M (lib (world s))"
    using e s by (auto simp: starts_program_def capture_setup_def)
  then obtain l where l: "PMPI M (start_call e) (world s) = (MPI_SUCCESS, (world s)\<lparr>lib := l\<rparr>)" "posted G l = Map.empty"
    using init unfolding init_law_def by metis
  let ?s0 = "s\<lparr>world := (world s)\<lparr>mem := ?g (mem (world s)), lib := l\<rparr>\<rparr>"
  have swap: "w\<lparr>lib := l, mem := mm\<rparr> = w\<lparr>mem := mm, lib := l\<rparr>" for w :: "'a world" and mm by (cases w) simp
  have start: "capture_start M e s = init_MPIre M ?s0"
    using e l(1) by (cases "init_MPIre M ?s0")
      (auto simp: starts_program_def MPI_Init_def mpi_init_f_def pmpi_def put_int_def on_mem_def swap)
  have cap: "to_capture M rank ?s0" using s l(1) by (simp add: capture_setup_def pmpi_def to_capture_def rank_of_def)
  have dump: "env (world ?s0) ''MPIRE_ACTIVE_DUMP'' = None \<or> dump_on ?s0"
    using s by (cases "env (world s) ''MPIRE_ACTIVE_DUMP''") (auto simp: capture_setup_def dump_on_def)
  have path: "output_path (?s0\<lparr>MPIre_rank := rank\<rparr>) = d @ ''/''"
    using s output_path_cong [of "?s0\<lparr>MPIre_rank := rank\<rparr>" "s\<lparr>MPIre_rank := rank\<rparr>"] by (simp add: capture_setup_def)
  have rest: "d \<noteq> []" "denied (world ?s0) = {}" "finite (dom (heap ?s0))"
    "\<forall>t n. d @ ''/'' = t @ CHR ''/'' # n \<longrightarrow> files (world ?s0) (resolve t) = None"
    "\<forall>n. resolve d @ [n] \<notin> dirs (world ?s0)"
    "\<forall>t. env (world ?s0) ''MPIRE_ACTIVE_DUMP'' = Some t \<longrightarrow> (\<exists>a. atoi t = Inr a)"
    using s dump by (auto simp: capture_setup_def dump_on_def)
  obtain s1 where s1: "init_MPIre M ?s0 = Inr s1" "MPIre_rank s1 = rank" "MPIre_output_path s1 = d @ ''/''"
    "log_dir (world s1) (d @ ''/'')"
    "files (world s1) = (files (world s))(resolve d @ [''nprocs''] \<mapsto> text_bytes (print_int (size_of_comm M (COMM_WORLD M) ?s0)))"
    "mem (world s1) = ?g (mem (world s))" "lib (world s1) = l" "heap s1 = heap s" "cpt_write s1 = cpt_write s"
    "pending hb (big_endian M) s1 Map.empty" "dump_on s1"
    using init_creates [OF cap rest(6) path rest(1-5), of hb "big_endian M"] dump by auto
  have "logging M s1"
    using s1 s cap by (simp add: logging_def to_capture_def rank_of_def capture_setup_def is_int_def)
  then have "recording hb G M F s1 Map.empty"
    using s1(7,10) l(2) by (simp add: recording_def posted_ok_def separate_def vars_def)
  moreover have "size_of_comm M (COMM_WORLD M) s1 = size_of_comm M (COMM_WORLD M) ?s0"
    by (simp add: size_of_comm_def s1(7))
  ultimately show ?thesis using s1 s start by (intro exI [of _ s1]) (simp add: capture_setup_def)
qed

text \<open>MPI_Init of the replay brings it in step with the capture.\<close>

lemma replay_init:
  assumes init: "init_law G' M'" and e: "starts_program e" and r: "replay_setup rank d s' M' r" and d: "d \<noteq> []" "length d \<le> 1000"
    and n: "is_int n" "files (world s') (resolve d @ [''nprocs'']) = Some (text_bytes (print_int n))"
  shows "\<exists>r1. replay_event M' e r = Inr r1 \<and> pending hb be r1 Map.empty \<and>
    heap r1 = Map.empty \<and> MPIre_rank r1 = rank \<and> MPIre_size r1 = n \<and> MPIre_input_path r1 = d \<and> cpt_read r1 = 0 \<and>
    mem (world r1) = start_stores (big_endian M') e (mem (world r)) \<and> files (world r1) = files (world r)"
proof -
  obtain t where t: "env (world r) ''MPIRE_RANK'' = Some t" "atoi t = Inr rank"
    using r by (auto simp: replay_setup_def)
  let ?r0 = "r\<lparr>MPIre_rank := rank, MPIre_input_path := d, requestHtab := htable_init, MPIre_size := n\<rparr>"
  have path: "input_path (r\<lparr>MPIre_rank := rank\<rparr>) = d" and files: "files (world r) = files (world s')"
    and off: "\<not> Initialized M' (lib (world r))"
    using r by (simp_all add: replay_setup_def)
  have r0: "init_replay r = Inr ?r0"
    using init_replay_ok [OF t path d n(1)] n(2) files by simp
  have "\<exists>p q. start_call e = Init p q" using e by (auto simp: starts_program_def)
  then obtain l where l: "PMPI M' (start_call e) (world r) = (MPI_SUCCESS, (world r)\<lparr>lib := l\<rparr>)"
    using init off unfolding init_law_def by metis
  let ?r1 = "?r0\<lparr>world := (world r)\<lparr>mem := start_stores (big_endian M') e (mem (world r)), lib := l\<rparr>\<rparr>"
  have "replay_event M' e r = Inr ?r1"
    using e off r0 l by (auto simp: starts_program_def R_MPI_Init_def r_mpi_init_f_def pmpi_def put_int_def on_mem_def)
  moreover have "pending hb be ?r1 Map.empty"
    using r by (intro pending_start) (simp_all add: replay_setup_def)
  ultimately show ?thesis using r by (intro exI [of _ ?r1]) (simp add: replay_setup_def)
qed

lemma start_stores_agree: "mm a = mm' a \<Longrightarrow> start_stores be e mm a = start_stores be e mm' a"
  by (cases e) (auto intro: store_int_agree)

text \<open>C1. A program in C or Fortran captured from MPI_Init on can be replayed from MPI_Init on. With an
  output path that can be created, MPI_Init of the capture succeeds; and after every captured
  run from there, a process that starts with the same memory, MPIRE_RANK and the path of the log
  gets through MPI_Init and the whole run, without an error, and ends with the memory of the
  captured process, apart from buffers of pending receives and variables of requests and
  statuses.\<close>

theorem captured_program_replays:
  assumes laws: "capture_laws hb G M" "init_law G M" "\<forall>l. is_int (Comm_size M (COMM_WORLD M) l)"
    and laws': "compatible hb' Q G' M' M" "init_law G' M'"
    and e: "starts_program e" and s: "capture_setup M rank d e s"
  shows "\<exists>s1. capture_start M e s = Inr s1 \<and> recording hb G M F s1 Map.empty \<and>
    (\<forall>es s' m' r. captured M G Q F s1 Map.empty es s' m' \<and> replay_setup rank (d @ ''/'') s' M' r \<and>
        agree Q (mem (world s)) (mem (world r)) \<longrightarrow>
       (\<exists>r'. replay_events M' (e # es) r = Inr r' \<and> agree (hidden M Q m') (mem (world s')) (mem (world r'))))"
proof -
  obtain s1 where s1: "capture_start M e s = Inr s1" "recording hb G M F s1 Map.empty"
    "MPIre_rank s1 = rank" "MPIre_output_path s1 = d @ ''/''" "heap s1 = Map.empty" "cpt_write s1 = 0"
    "mem (world s1) = start_stores (big_endian M) e (mem (world s))"
    "files (world s1) (resolve d @ [''nprocs'']) = Some (text_bytes (print_int (size_of_comm M (COMM_WORLD M) s1)))"
    using capture_init [OF laws(2) e s, of hb F] by blast
  have d: "d \<noteq> []" "length (d @ ''/'') \<le> 1000" "resolve (d @ ''/'') = resolve d"
    using s s1(2,4) resolve_slash [of d "[]"] by (auto simp: capture_setup_def recording_def logging_def log_dir_def)
  have size: "is_int (size_of_comm M (COMM_WORLD M) s1)" using laws(3) by (simp add: size_of_comm_def)
  have "\<exists>r'. replay_events M' (e # es) r = Inr r' \<and> agree (hidden M Q m') (mem (world s')) (mem (world r'))"
    if run: "captured M G Q F s1 Map.empty es s' m'" and r: "replay_setup rank (d @ ''/'') s' M' r"
      and mem: "agree Q (mem (world s)) (mem (world r))" for es s' m' r
  proof -
    have "\<forall>k. resolve d @ [''nprocs''] \<noteq> log_path (MPIre_output_path s1) k"
      using log_path_not_nprocs [of d] by (metis d(3) log_path_def s1(4))
    then have "files (world s') (resolve (d @ ''/'') @ [''nprocs'']) = Some (text_bytes (print_int (size_of_comm M (COMM_WORLD M) s1)))"
      using captured_keeps(2) [OF run laws(1) s1(2)] s1(8) d(3) by (simp add: log_grows_def)
    from replay_init [OF laws'(2) e r _ d(2) size this, where hb = hb' and be = "big_endian M"] obtain r1 where
      r1: "replay_event M' e r = Inr r1" "pending hb' (big_endian M) r1 Map.empty"
        "heap r1 = Map.empty" "MPIre_rank r1 = rank" "MPIre_size r1 = size_of_comm M (COMM_WORLD M) s1"
        "MPIre_input_path r1 = d @ ''/''" "cpt_read r1 = 0" "mem (world r1) = start_stores (big_endian M') e (mem (world r))"
        "files (world r1) = files (world r)"
      by auto
    have "agree Q (mem (world s1)) (mem (world r1))"
      using mem start_stores_agree unfolding s1(7) r1(8) compatibleD(4) [OF laws'(1)] agree_def by blast
    then have step: "in_step hb' M Q Map.empty s1 r1"
      using r1(2-7) s1(3-6) by (simp add: in_step_def hidden_def buffers_def)
    have "has_log r1 s1 s'" using r1(9) r by (simp add: replay_setup_def has_log_def)
    then obtain r' where "replay_events M' es r1 = Inr r'" "in_step hb' M Q m' s' r'"
      using replay_in_step [OF run laws(1) s1(2) laws'(1) step] by blast
    then show ?thesis using r1(1) by (auto simp: in_step_def replay_events_def)
  qed
  then show ?thesis using s1(1,2) by blast
qed

text \<open>For the witness, the program \<open>toy_program\<close> with the default path of the log.\<close>

definition toy_restart :: "toy capture \<Rightarrow> toy replay" where
  "toy_restart s' = toy_replay_start\<lparr>world := (world toy_start)\<lparr>files := files (world s')\<rparr>\<rparr>"

lemma toy_capture_setup: "capture_setup toy_mpi 0 ''.mpire/dumps/0/log'' (Call (Init 0 0)) toy_start"
proof -
  have "snd (pmpi toy_mpi (Init 0 0) toy_start) = toy_start"
    by (simp add: pmpi_def toy_mpi_def toy_start_def)
  moreover have "\<not> Initialized toy_mpi l" for l by (simp add: toy_mpi_def)
  ultimately show ?thesis
    using toy_start_path by (simp add: capture_setup_def) (simp add: toy_start_def)
qed

lemma toy_replay_setup: "replay_setup 0 (''.mpire/dumps/0/log'' @ ''/'') s' toy_mpi (toy_restart s')"
proof -
  have "atoi ''0'' = Inr 0" "print_int 0 = ''0''" by code_simp+
  then show ?thesis
    by (simp add: replay_setup_def toy_restart_def toy_replay_start_def toy_start_def toy_mpi_def input_path_def snprintf_def)
qed

lemma toy_init_law: "init_law toy_ghost toy_mpi"
  unfolding init_law_def
  by (intro allI impI exI [of _ "lib w\<lparr>t_posted := Map.empty\<rparr>" for w])
    (simp add: toy_mpi_def toy_ghost_def toy_posted_def fun_eq_iff)

theorem captured_program_replays_witness:
  "\<exists>s1 s' r'. capture_call toy_mpi (Init 0 0) toy_start = Inr (MPI_SUCCESS, s1) \<and>
     captured toy_mpi toy_ghost toy_controls toy_fortran s1 Map.empty toy_program s' Map.empty \<and>
     replay_events toy_mpi (Call (Init 0 0) # toy_program) (toy_restart s') = Inr r' \<and>
     agree (hidden toy_mpi toy_controls Map.empty) (mem (world s')) (mem (world r'))"
proof -
  have e: "starts_program (Call (Init 0 0))" by (simp add: starts_program_def)
  obtain s1 where s1: "capture_start toy_mpi (Call (Init 0 0)) toy_start = Inr s1"
    "recording 40 toy_ghost toy_mpi toy_fortran s1 Map.empty" "heap s1 = Map.empty" "cpt_write s1 = 0"
    "mem (world s1) = mem (world toy_start)"
    using capture_init [OF toy_init_law e toy_capture_setup, of 40 toy_fortran] by auto
  have call: "capture_call toy_mpi (Init 0 0) toy_start = Inr (MPI_SUCCESS, s1)"
    using s1(1) by (cases "init_MPIre toy_mpi (snd (pmpi toy_mpi (Init 0 0) toy_start))")
      (auto simp: MPI_Init_def pmpi_def toy_mpi_def)
  obtain s' where run: "captured toy_mpi toy_ghost toy_controls toy_fortran s1 Map.empty toy_program s' Map.empty"
    using toy_run [OF s1(2,4,3,5)] by blast
  have size: "\<forall>l. is_int (Comm_size toy_mpi (COMM_WORLD toy_mpi) l)" by (simp add: is_int_def)
  have mem: "agree toy_controls (mem (world toy_start)) (mem (world (toy_restart s')))"
    by (simp add: agree_def toy_restart_def)
  from captured_program_replays [OF toy_laws toy_init_law size toy_compatible toy_init_law e toy_capture_setup,
      where F = toy_fortran] s1(1)
  have "\<forall>es s' m' r. captured toy_mpi toy_ghost toy_controls toy_fortran s1 Map.empty es s' m' \<and>
      replay_setup 0 (''.mpire/dumps/0/log'' @ ''/'') s' toy_mpi r \<and> agree toy_controls (mem (world toy_start)) (mem (world r)) \<longrightarrow>
      (\<exists>r'. replay_events toy_mpi (Call (Init 0 0) # es) r = Inr r' \<and>
         agree (hidden toy_mpi toy_controls m') (mem (world s')) (mem (world r')))"
    by (elim exE conjE) (simp only: sum.inject)
  then obtain r' where "replay_events toy_mpi (Call (Init 0 0) # toy_program) (toy_restart s') = Inr r'"
    "agree (hidden toy_mpi toy_controls Map.empty) (mem (world s')) (mem (world r'))"
    using run toy_replay_setup mem by blast
  then show ?thesis using call run by blast
qed

end
